(* ===== verification/Prelude.thy ===== *)
theory Prelude
  imports Main "HOL-Library.Word" "HOL-Library.Signed_Division"
begin

text \<open>
  Shared vocabulary of the development: the machine types of \<^verbatim>\<open>include/sys/defs.h\<close>, C's
  32-bit \<^verbatim>\<open>int\<close> as an integer with its wrap-around written out, arithmetic of page-aligned
  64-bit addresses, and the collections of simplification facts the components share.
\<close>

unbundle bit_operations_syntax

type_synonym u8 = "8 word"
type_synonym u16 = "16 word"
type_synonym u32 = "32 word"
type_synonym u64 = "64 word"

text \<open>C's \<^verbatim>\<open>int\<close>: an integer that every arithmetic result is wrapped into.\<close>

type_synonym cint = int

definition i32 :: "int \<Rightarrow> cint" where
  "i32 x = signed_take_bit 31 x"

definition in_i32 :: "int \<Rightarrow> bool" where
  "in_i32 x \<longleftrightarrow> - (2 ^ 31) \<le> x \<and> x < 2 ^ 31"

named_theorems addr_simps \<open>arithmetic of page-aligned addresses\<close>
named_theorems c_int \<open>C int arithmetic without overflow\<close>

lemma i32_id [c_int]: "in_i32 x \<Longrightarrow> i32 x = x"
  by (simp add: i32_def in_i32_def signed_take_bit_int_eq_self)

lemma in_i32_i32 [c_int]: "in_i32 (i32 x)"
  unfolding in_i32_def i32_def
  using signed_take_bit_int_greater_eq_minus_exp [of 31 x] signed_take_bit_int_less_exp [of 31 x]
  by simp

lemma in_i32_between: "in_i32 a \<Longrightarrow> in_i32 b \<Longrightarrow> a \<le> x \<Longrightarrow> x \<le> b \<Longrightarrow> in_i32 x"
  by (simp add: in_i32_def)

lemma in_i32_nat [c_int]: "n < 2 ^ 31 \<Longrightarrow> in_i32 (int n)"
  by (simp add: in_i32_def)

section \<open>Page-aligned addresses\<close>

text \<open>The page mask of \<^verbatim>\<open>remove_flag\<close> in \<^verbatim>\<open>sys/paging_helper.c\<close>.\<close>

definition remove_flag :: "u64 \<Rightarrow> u64" where
  "remove_flag addr = addr AND 0xFFFFFFFFFFFFF000"

definition page_aligned :: "u64 \<Rightarrow> bool" where
  "page_aligned a \<longleftrightarrow> unat a mod 4096 = 0"

lemma unat_lt64: "unat (a :: u64) < 2 ^ 64"
  using unsigned_less [of a] by simp

lemma unat_offset: "unat (a :: u64) + i < 2 ^ 64 \<Longrightarrow> unat (a + of_nat i) = unat a + i"
  by (simp add: unat_word_ariths unat_of_nat take_bit_nat_eq_self)

lemma page_mask_eq: "(0xFFFFFFFFFFFFF000 :: u64) = NOT (mask 12)"
  by (simp add: mask_eq_exp_minus_1)

lemma unat_low12: "unat (a AND mask 12 :: u64) = unat a mod 4096"
  unfolding take_bit_eq_mask [symmetric] by (simp only: unsigned_take_bit_eq) (simp add: take_bit_eq_mod)

lemma remove_flag_plus_low: "remove_flag a + (a AND mask 12) = a"
proof -
  have "remove_flag a + (a AND mask 12) = remove_flag a OR (a AND mask 12)"
    unfolding remove_flag_def page_mask_eq
    by (rule disjunctive_add_eq_or) (simp add: bit_eq_iff bit_simps)
  also have "\<dots> = a"
    unfolding remove_flag_def page_mask_eq
    by (rule bit_eqI) (auto simp: bit_simps)
  finally show ?thesis .
qed

lemma unat_remove_flag: "unat (remove_flag a) = unat a - unat a mod 4096"
proof -
  have "remove_flag a = a - (a AND mask 12)"
    using remove_flag_plus_low [of a] by (metis add_diff_cancel_right')
  moreover have "a AND mask 12 \<le> a"
    by (simp add: word_and_le2)
  ultimately show ?thesis
    by (simp add: unat_sub unat_low12)
qed

lemma page_aligned_remove_flag [simp]: "page_aligned (remove_flag a)"
  by (simp add: page_aligned_def unat_remove_flag)

lemma remove_flag_aligned [simp, addr_simps]: "page_aligned a \<Longrightarrow> remove_flag a = a"
  unfolding page_aligned_def by (simp add: word_unat_eq_iff unat_remove_flag)

lemma page_aligned_iff_remove_flag: "page_aligned a \<longleftrightarrow> remove_flag a = a"
  by (metis page_aligned_remove_flag remove_flag_aligned)

text \<open>The byte address of the \<open>i\<close>-th 8-byte cell of the page at \<open>t\<close>.\<close>

definition slot :: "u64 \<Rightarrow> u64 \<Rightarrow> u64" where
  "slot t i = t + 8 * i"

lemma unat_slot:
  assumes "page_aligned t" and "i < 512"
  shows "unat (slot t i) = unat t + 8 * unat i"
proof -
  have i: "unat i < 512"
    using assms(2) by (simp add: word_less_nat_alt)
  obtain k where k: "unat t = 4096 * k"
    using assms(1) unfolding page_aligned_def by (metis mod_0_imp_dvd dvdE)
  have "unat t < 2 ^ 64" using unsigned_less [of t] by simp
  with k have "k < 2 ^ 52" by simp
  with k i have "unat t + 8 * unat i < 2 ^ 64" by simp
  moreover from i have "unat (8 * i) = 8 * unat i"
    by (simp add: unat_word_ariths)
  ultimately show ?thesis
    unfolding slot_def by (simp add: unat_word_ariths)
qed

lemma remove_flag_slot [addr_simps]:
  assumes "page_aligned t" and "i < 512"
  shows "remove_flag (slot t i) = t"
proof -
  have "unat i < 512"
    using assms(2) by (simp add: word_less_nat_alt)
  moreover obtain k where k: "unat t = 4096 * k"
    using assms(1) unfolding page_aligned_def by (metis mod_0_imp_dvd dvdE)
  ultimately show ?thesis
    by (simp add: word_unat_eq_iff unat_remove_flag unat_slot [OF assms])
qed

lemma slot_inj:
  assumes "page_aligned t" "i < 512" "page_aligned t'" "i' < 512"
  shows "slot t i = slot t' i' \<longleftrightarrow> t = t' \<and> i = i'"
proof
  assume eq: "slot t i = slot t' i'"
  then have "t = t'"
    using remove_flag_slot [OF assms(1,2)] remove_flag_slot [OF assms(3,4)] by simp
  moreover from this eq have "unat i = unat i'"
    using unat_slot [OF assms(1,2)] unat_slot [OF assms(3,4)] by simp
  ultimately show "t = t' \<and> i = i'"
    by (simp add: word_unat_eq_iff)
qed simp

end
