(* ===== verification/FrameAlloc.thy ===== *)
theory FrameAlloc
  imports Prelude
begin

text \<open>
  The physical frame allocator of \<^verbatim>\<open>sys/paging.c\<close> and \<^verbatim>\<open>sys/paging_helper.c\<close>: the global
  state of the paging code, the bitmap \<^verbatim>\<open>free_map\<close> (one bit per 4 KiB frame, 256 words of
  64 bits), its initialisation and the first-fit allocation of frames.

  Physical memory is a function from the byte address of an 8-byte cell to its contents. The
  bitmap is kept apart from it, as a function from word index to word: it occupies
  \<^verbatim>\<open>[physfree, physfree + 2048)\<close>, and \<open>init_paging\<close> never marks a frame below
  \<^verbatim>\<open>physfree_start = physfree + 2048\<close> as free.
\<close>

unbundle bit_operations_syntax

section \<open>State\<close>

record paging =
  free_map :: "u64 \<Rightarrow> u64"
  pm :: "u64 \<Rightarrow> u64"
  reg_cr3 :: u64
  g_cr3 :: u64
  g_pml4 :: u64
  g_pdpt :: u64
  g_pd :: u64
  g_pt :: u64
  physfree_start :: u64
  physfree_end :: u64
  virt_addr :: u64

abbreviation PAGE_SIZE :: u64 where
  "PAGE_SIZE \<equiv> 4096"

section \<open>The bitmap\<close>

definition kset_bit :: "(u64 \<Rightarrow> u64) \<Rightarrow> u64 \<Rightarrow> (u64 \<Rightarrow> u64)" where
  "kset_bit m v = m(v div 64 := m (v div 64) OR push_bit (unat (v mod 64)) 1)"

definition kunset_bit :: "(u64 \<Rightarrow> u64) \<Rightarrow> u64 \<Rightarrow> (u64 \<Rightarrow> u64)" where
  "kunset_bit m v = m(v div 64 := m (v div 64) AND NOT (push_bit (unat (v mod 64)) 1))"

text \<open>The two nested loops of \<^verbatim>\<open>get_firstpage\<close>; \<open>None\<close> is leaving a loop without a return.\<close>

function scan_word :: "(u64 \<Rightarrow> u64) \<Rightarrow> nat \<Rightarrow> nat \<Rightarrow> nat option" where
  "scan_word m i j =
     (if j < 64 then
        if m (of_nat i) AND push_bit j 1 \<noteq> 0 then Some (i * 64 + j) else scan_word m i (Suc j)
      else None)"
  by pat_completeness auto
termination
  by (relation "measure (\<lambda>(m, i, j). 64 - j)") auto

function scan_map :: "(u64 \<Rightarrow> u64) \<Rightarrow> nat \<Rightarrow> nat option" where
  "scan_map m i =
     (if i < 256 then
        (case scan_word m i 0 of Some k \<Rightarrow> Some k | None \<Rightarrow> scan_map m (Suc i))
      else None)"
  by pat_completeness auto
termination
  by (relation "measure (\<lambda>(m, i). 256 - i)") auto

declare scan_word.simps [simp del] scan_map.simps [simp del]

definition get_firstpage :: "(u64 \<Rightarrow> u64) \<Rightarrow> cint" where
  "get_firstpage m = (case scan_map m 0 of Some k \<Rightarrow> int k | None \<Rightarrow> -1)"

text \<open>\<^verbatim>\<open>memset(p, 0, PAGE_SIZE)\<close> of a page: every 8-byte cell of it becomes 0.\<close>

definition clear_page :: "(u64 \<Rightarrow> u64) \<Rightarrow> u64 \<Rightarrow> (u64 \<Rightarrow> u64)" where
  "clear_page f a = (\<lambda>x. if remove_flag x = a then 0 else f x)"

definition allocate_virt_page :: "'a paging_scheme \<Rightarrow> 'a paging_scheme \<times> u64" where
  "allocate_virt_page st =
     (let page_index = of_int (get_firstpage (free_map st))
      in (st\<lparr>free_map := kunset_bit (free_map st) page_index\<rparr>, page_index * PAGE_SIZE))"

definition allocate_page :: "'a paging_scheme \<Rightarrow> 'a paging_scheme \<times> u64" where
  "allocate_page st =
     (let page_index = of_int (get_firstpage (free_map st));
          st = st\<lparr>free_map := kunset_bit (free_map st) page_index\<rparr>;
          page_addr = page_index * PAGE_SIZE
      in (st\<lparr>pm := clear_page (pm st) page_addr\<rparr>, page_addr))"

text \<open>
  \<^verbatim>\<open>init_paging\<close>: the counters are C \<^verbatim>\<open>int\<close>s, and \<^verbatim>\<open>start * PAGE_SIZE\<close> is computed in
  \<^verbatim>\<open>int\<close> before it is stored in the 64-bit \<^verbatim>\<open>address\<close>. Its \<^verbatim>\<open>kprintf\<close> is left out.
\<close>

function init_loop :: "u64 \<Rightarrow> cint \<Rightarrow> cint \<Rightarrow> (u64 \<Rightarrow> u64) \<Rightarrow> (u64 \<Rightarrow> u64)" where
  "init_loop pstart e start m =
     (if start < e then
        (let address = of_int (i32 (start * 4096)) :: u64
         in if address < pstart then init_loop pstart e (start + 1) m
            else init_loop pstart e (start + 1) (kset_bit m (of_int start)))
      else m)"
  by pat_completeness auto
termination
  by (relation "measure (\<lambda>(p, e, s, m). nat (e - s))") auto

declare init_loop.simps [simp del]

definition clear_map :: "(u64 \<Rightarrow> u64) \<Rightarrow> (u64 \<Rightarrow> u64)" where
  "clear_map m = (\<lambda>i. if i < 256 then 0 else m i)"

definition init_paging ::
  "u64 \<Rightarrow> u64 \<Rightarrow> u64 \<Rightarrow> u64 \<Rightarrow> 'a paging_scheme \<Rightarrow> 'a paging_scheme" where
  "init_paging physbase physfree base len st =
     (let m = clear_map (free_map st);
          e = i32 (uint ((base + len) div PAGE_SIZE));
          pstart = physfree + (256 * 64) div 8
      in st\<lparr>free_map := init_loop pstart e 0 m,
            physfree_start := pstart, physfree_end := base + len\<rparr>)"

section \<open>Bits of the map\<close>

definition page_bit :: "(u64 \<Rightarrow> u64) \<Rightarrow> nat \<Rightarrow> bool" where
  "page_bit m n \<longleftrightarrow> bit (m (of_nat (n div 64))) (n mod 64)"

lemma unat_of_nat64: "n < 2 ^ 64 \<Longrightarrow> unat (of_nat n :: u64) = n"
  by (simp add: unat_of_nat take_bit_eq_mod)

lemma of_nat_div64: "n < 2 ^ 64 \<Longrightarrow> (of_nat n :: u64) div 64 = of_nat (n div 64)"
  by (simp add: word_unat_eq_iff unat_div unat_of_nat64)

lemma unat_of_nat_mod64: "n < 2 ^ 64 \<Longrightarrow> unat ((of_nat n :: u64) mod 64) = n mod 64"
  by (simp add: unat_mod unat_of_nat64)

lemma of_nat64_eq_iff: "m < 2 ^ 64 \<Longrightarrow> n < 2 ^ 64 \<Longrightarrow> (of_nat m :: u64) = of_nat n \<longleftrightarrow> m = n"
  by (metis unat_of_nat64)

lemma page_bit_kset_bit:
  assumes "m < 2 ^ 64" "n < 2 ^ 64"
  shows "page_bit (kset_bit fm (of_nat m)) n \<longleftrightarrow> n = m \<or> page_bit fm n"
proof -
  have "n = m \<longleftrightarrow> n div 64 = m div 64 \<and> n mod 64 = m mod 64"
    by (metis mult_div_mod_eq)
  moreover have "n div 64 < 2 ^ 64" "m div 64 < 2 ^ 64"
    using assms by simp_all
  ultimately show ?thesis
    using assms unfolding page_bit_def kset_bit_def
    by (auto simp: of_nat_div64 unat_of_nat_mod64 of_nat64_eq_iff bit_simps)
qed

lemma page_bit_kunset_bit:
  assumes "m < 2 ^ 64" "n < 2 ^ 64"
  shows "page_bit (kunset_bit fm (of_nat m)) n \<longleftrightarrow> n \<noteq> m \<and> page_bit fm n"
proof -
  have "n = m \<longleftrightarrow> n div 64 = m div 64 \<and> n mod 64 = m mod 64"
    by (metis mult_div_mod_eq)
  moreover have "n div 64 < 2 ^ 64" "m div 64 < 2 ^ 64"
    using assms by simp_all
  ultimately show ?thesis
    using assms unfolding page_bit_def kunset_bit_def
    by (auto simp: of_nat_div64 unat_of_nat_mod64 of_nat64_eq_iff bit_simps)
qed

lemma and_push_bit_1: "(w :: u64) AND push_bit j 1 \<noteq> 0 \<longleftrightarrow> bit w j"
  by (simp add: push_bit_of_1 and_exp_eq_0_iff_not_bit)

section \<open>First fit\<close>

lemma scan_word_eq:
  "scan_word m i j =
     (if j < 64 then if bit (m (of_nat i)) j then Some (i * 64 + j) else scan_word m i (Suc j)
      else None)"
  by (subst scan_word.simps) (simp add: push_bit_of_1 and_exp_eq_0_iff_not_bit)

lemma div64_eqI: "i * 64 \<le> n \<Longrightarrow> n < Suc i * 64 \<Longrightarrow> n div 64 = (i :: nat)"
  by (simp add: div_nat_eqI)

lemma all_from_Suc:
  "(\<forall>k. j \<le> k \<and> k < b \<longrightarrow> P k) \<longleftrightarrow> (j < b \<longrightarrow> P j) \<and> (\<forall>k. Suc j \<le> k \<and> k < (b :: nat) \<longrightarrow> P k)"
  by (metis Suc_leD Suc_leI le_neq_implies_less order_refl)

lemma all_from_block:
  "\<forall>n. i \<le> n \<and> n < j \<longrightarrow> P n \<Longrightarrow> i \<le> j \<Longrightarrow>
     (\<forall>n. i \<le> n \<and> n < b \<longrightarrow> P n) \<longleftrightarrow> (\<forall>n. j \<le> n \<and> n < (b :: nat) \<longrightarrow> P n)"
  by (metis le_trans not_le)

lemma scan_word_None:
  "scan_word m i j = None \<longleftrightarrow> (\<forall>k. j \<le> k \<and> k < 64 \<longrightarrow> \<not> bit (m (of_nat i)) k)"
proof (induction m i j rule: scan_word.induct)
  case (1 m i j)
  show ?case
  proof (cases "j < 64 \<and> \<not> bit (m (of_nat i)) j")
    case True
    then have "scan_word m i j = scan_word m i (Suc j)"
      by (subst scan_word_eq) simp
    with "1.IH" True show ?thesis
      by (subst all_from_Suc) (simp add: and_push_bit_1 del: push_bit_of_1)
  next
    case False
    then show ?thesis
      by (subst scan_word_eq) auto
  qed
qed

lemma scan_word_Some:
  "scan_word m i j = Some r \<Longrightarrow>
     \<exists>k. r = i * 64 + k \<and> j \<le> k \<and> k < 64 \<and> bit (m (of_nat i)) k
       \<and> (\<forall>k'. j \<le> k' \<and> k' < k \<longrightarrow> \<not> bit (m (of_nat i)) k')"
proof (induction m i j rule: scan_word.induct)
  case (1 m i j)
  show ?case
  proof (cases "j < 64 \<and> \<not> bit (m (of_nat i)) j")
    case True
    with "1.prems" have "scan_word m i (Suc j) = Some r"
      by (subst (asm) scan_word_eq) simp
    with True "1.IH" obtain k where "r = i * 64 + k" "Suc j \<le> k" "k < 64" "bit (m (of_nat i)) k"
      "\<forall>k'. Suc j \<le> k' \<and> k' < k \<longrightarrow> \<not> bit (m (of_nat i)) k'"
      by (auto simp: and_push_bit_1 simp del: push_bit_of_1)
    with True show ?thesis
      by (intro exI [of _ k]) (simp add: all_from_Suc [of j k])
  next
    case False
    with "1.prems" show ?thesis
      by (subst (asm) scan_word_eq) (auto split: if_splits)
  qed
qed

lemma scan_map_None:
  "scan_map m i = None \<longleftrightarrow> (\<forall>n. i * 64 \<le> n \<and> n < 16384 \<longrightarrow> \<not> page_bit m n)"
proof (induction m i rule: scan_map.induct)
  case (1 m i)
  show ?case
  proof (cases "i < 256")
    case False
    then show ?thesis by (subst scan_map.simps) auto
  next
    case True
    have word: "(\<forall>k < 64. \<not> bit (m (of_nat i)) k)
        \<longleftrightarrow> (\<forall>n. i * 64 \<le> n \<and> n < Suc i * 64 \<longrightarrow> \<not> page_bit m n)"
      unfolding page_bit_def
    proof safe
      fix n assume "\<forall>k<64. \<not> bit (m (of_nat i)) k" "i * 64 \<le> n" "n < Suc i * 64"
        and b: "bit (m (of_nat (n div 64))) (n mod 64)"
      then show False using div64_eqI [of i n] by simp
    next
      fix k :: nat assume "\<forall>n. i * 64 \<le> n \<and> n < Suc i * 64 \<longrightarrow> \<not> bit (m (of_nat (n div 64))) (n mod 64)"
        and "k < 64" "bit (m (of_nat i)) k"
      then show False by (auto dest!: spec [of _ "i * 64 + k"])
    qed
    show ?thesis
    proof (cases "scan_word m i 0")
      case None
      then have "scan_map m i = scan_map m (Suc i)"
        using True by (subst scan_map.simps) simp
      moreover from None word have "\<forall>n. i * 64 \<le> n \<and> n < Suc i * 64 \<longrightarrow> \<not> page_bit m n"
        by (simp add: scan_word_None)
      ultimately show ?thesis
        using "1.IH" [OF True None] all_from_block [of "i * 64" "Suc i * 64" "\<lambda>n. \<not> page_bit m n" 16384]
        by simp
    next
      case (Some r)
      then have "scan_map m i = Some r"
        using True by (subst scan_map.simps) simp
      moreover from Some have "\<not> (\<forall>k < 64. \<not> bit (m (of_nat i)) k)"
        using scan_word_None [of m i 0] by auto
      with word True obtain n where "i * 64 \<le> n" "n < Suc i * 64" "page_bit m n"
        by blast
      with True have "i * 64 \<le> n \<and> n < 16384 \<and> page_bit m n" by simp
      ultimately show ?thesis by auto
    qed
  qed
qed

lemma scan_map_Some:
  "scan_map m i = Some r \<Longrightarrow> i * 64 \<le> r \<and> r < 16384 \<and> page_bit m r
     \<and> (\<forall>n. i * 64 \<le> n \<and> n < r \<longrightarrow> \<not> page_bit m n)"
proof (induction m i rule: scan_map.induct)
  case (1 m i)
  then have i: "i < 256"
    by (subst (asm) scan_map.simps) (auto split: if_splits)
  show ?case
  proof (cases "scan_word m i 0")
    case None
    with i "1.prems" have "scan_map m (Suc i) = Some r"
      by (subst (asm) scan_map.simps) simp
    note IH = "1.IH" [OF i None this]
    have "\<not> page_bit m n" if "i * 64 \<le> n" "n < Suc i * 64" for n
      using that None div64_eqI [of i n] unfolding page_bit_def by (simp add: scan_word_None)
    then have "\<forall>n. i * 64 \<le> n \<and> n < r \<longrightarrow> \<not> page_bit m n"
      using IH by (metis not_le)
    with IH show ?thesis by simp
  next
    case (Some r')
    with i "1.prems" have r: "scan_word m i 0 = Some r"
      by (subst (asm) scan_map.simps) simp
    then obtain k where k: "r = i * 64 + k" "k < 64" "bit (m (of_nat i)) k"
      "\<forall>k' < k. \<not> bit (m (of_nat i)) k'"
      using scan_word_Some [OF r] by auto
    have "\<not> page_bit m n" if "i * 64 \<le> n" "n < r" for n
    proof -
      from that k obtain k' where "n = i * 64 + k'" "k' < k"
        by (metis add_less_cancel_left le_Suc_ex)
      with k show ?thesis unfolding page_bit_def by simp
    qed
    with k i show ?thesis unfolding page_bit_def by simp
  qed
qed

definition free_frames :: "(u64 \<Rightarrow> u64) \<Rightarrow> nat set" where
  "free_frames m = {n. n < 16384 \<and> page_bit m n}"

lemma finite_free_frames [simp]: "finite (free_frames m)"
  by (rule finite_subset [of _ "{..<16384}"]) (auto simp: free_frames_def)

lemma get_firstpage_empty: "get_firstpage m = -1 \<longleftrightarrow> free_frames m = {}"
  unfolding get_firstpage_def free_frames_def
  using scan_map_None [of m 0] by (auto split: option.splits)

lemma get_firstpage_least:
  "free_frames m \<noteq> {} \<Longrightarrow> get_firstpage m = int (LEAST n. n \<in> free_frames m)"
proof -
  assume ne: "free_frames m \<noteq> {}"
  then obtain r where r: "scan_map m 0 = Some r"
    using scan_map_None [of m 0] unfolding free_frames_def by auto
  have "(LEAST n. n \<in> free_frames m) = r"
    using scan_map_Some [OF r] unfolding free_frames_def
    by (intro Least_equality) (auto simp: not_less [symmetric])
  with r show ?thesis unfolding get_firstpage_def by simp
qed

section \<open>Frames as addresses\<close>

text \<open>The addresses of the free frames the allocator can hand out (at most 64 MiB).\<close>

definition avail :: "'a paging_scheme \<Rightarrow> u64 set" where
  "avail st = {a. page_aligned a \<and> unat a < 2 ^ 26 \<and> page_bit (free_map st) (unat a div 4096)}"

lemma frame_addr:
  assumes "n < 16384"
  shows "unat (of_nat n * PAGE_SIZE) = n * 4096" and "page_aligned (of_nat n * PAGE_SIZE)"
proof -
  show "unat (of_nat n * PAGE_SIZE) = n * 4096"
    using assms by (simp add: unat_word_ariths unat_of_nat64)
  then show "page_aligned (of_nat n * PAGE_SIZE)"
    by (simp add: page_aligned_def)
qed

lemma avail_image: "avail st = (\<lambda>n. of_nat n * PAGE_SIZE) ` free_frames (free_map st)"
proof (rule set_eqI)
  fix a :: u64
  show "a \<in> avail st \<longleftrightarrow> a \<in> (\<lambda>n. of_nat n * PAGE_SIZE) ` free_frames (free_map st)"
  proof
    assume a: "a \<in> avail st"
    let ?n = "unat a div 4096"
    from a have n: "?n < 16384" "page_bit (free_map st) ?n" "unat a = ?n * 4096"
      unfolding avail_def page_aligned_def by auto
    then have "a = of_nat ?n * PAGE_SIZE"
      by (simp add: word_unat_eq_iff frame_addr)
    with n show "a \<in> (\<lambda>n. of_nat n * PAGE_SIZE) ` free_frames (free_map st)"
      unfolding free_frames_def by blast
  next
    assume "a \<in> (\<lambda>n. of_nat n * PAGE_SIZE) ` free_frames (free_map st)"
    then show "a \<in> avail st"
      unfolding avail_def free_frames_def by (auto simp: frame_addr)
  qed
qed

lemma finite_avail [simp]: "finite (avail st)"
  by (simp add: avail_image)

lemma avail_page_aligned: "a \<in> avail st \<Longrightarrow> page_aligned a"
  by (simp add: avail_def)

lemma avail_cong: "free_map st = free_map st' \<Longrightarrow> avail st = avail st'"
  by (simp add: avail_def)

lemma avail_update [simp]:
  "avail (st\<lparr>pm := f\<rparr>) = avail st" "avail (st\<lparr>reg_cr3 := x\<rparr>) = avail st"
  "avail (st\<lparr>g_pml4 := x\<rparr>) = avail st" "avail (st\<lparr>g_pdpt := x\<rparr>) = avail st"
  "avail (st\<lparr>g_pd := x\<rparr>) = avail st" "avail (st\<lparr>g_pt := x\<rparr>) = avail st"
  "avail (st\<lparr>virt_addr := x\<rparr>) = avail st"
  by (simp_all add: avail_def)

text \<open>
  What one allocation does: the lowest free frame leaves the free set; nothing else of the
  state changes. \<open>allocate_page\<close> clears the frame as well.
\<close>

lemma allocate_virt_page_avail:
  assumes "avail st \<noteq> {}" and alloc: "allocate_virt_page st = (st', a)"
  shows "a \<in> avail st" and "\<forall>b \<in> avail st. a \<le> b" and "avail st' = avail st - {a}"
    and "st' = st\<lparr>free_map := free_map st'\<rparr>"
proof -
  let ?F = "free_frames (free_map st)"
  define n where "n = (LEAST n. n \<in> ?F)"
  from assms have ne: "?F \<noteq> {}" by (simp add: avail_image)
  then have first: "get_firstpage (free_map st) = int n"
    unfolding n_def by (rule get_firstpage_least)
  from ne have n: "n \<in> ?F" unfolding n_def by (auto intro: LeastI)
  then have n_lt: "n < 16384" by (simp add: free_frames_def)
  from alloc first have st': "st' = st\<lparr>free_map := kunset_bit (free_map st) (of_nat n)\<rparr>"
    and a: "a = of_nat n * PAGE_SIZE"
    by (auto simp: allocate_virt_page_def Let_def)
  show "a \<in> avail st" using n a by (auto simp: avail_image)
  show "\<forall>b \<in> avail st. a \<le> b"
  proof
    fix b assume "b \<in> avail st"
    then obtain k where k: "k \<in> ?F" "b = of_nat k * PAGE_SIZE"
      by (auto simp: avail_image)
    then have "n \<le> k" unfolding n_def by (intro Least_le)
    with k n_lt a show "a \<le> b"
      unfolding free_frames_def by (simp add: word_le_nat_alt frame_addr)
  qed
  show "avail st' = avail st - {a}"
  proof (rule set_eqI)
    fix b
    show "b \<in> avail st' \<longleftrightarrow> b \<in> avail st - {a}"
    proof (cases "page_aligned b \<and> unat b < 2 ^ 26")
      case True
      then have "b = a \<longleftrightarrow> unat b div 4096 = n"
        using n_lt a unfolding page_aligned_def
        by (auto simp: word_unat_eq_iff frame_addr)
      with True n_lt st' show ?thesis
        unfolding avail_def by (auto simp: page_bit_kunset_bit)
    qed (auto simp: avail_def)
  qed
  show "st' = st\<lparr>free_map := free_map st'\<rparr>" by (simp add: st')
qed

section \<open>Initialisation\<close>

lemma init_address:
  assumes "k < 2 ^ 19"
  shows "(of_int (i32 (int k * 4096)) :: u64) = of_nat (k * 4096)"
proof -
  have "in_i32 (int k * 4096)" using assms by (simp add: in_i32_def)
  then show ?thesis by (simp add: c_int)
qed

lemma init_loop_bits:
  assumes "0 \<le> start" "e \<le> 2 ^ 19" "n < 2 ^ 64"
  shows "page_bit (init_loop pstart e start m) n \<longleftrightarrow>
    page_bit m n \<or> (nat start \<le> n \<and> int n < e \<and> unat pstart \<le> n * 4096)"
  using assms
proof (induction pstart e start m rule: init_loop.induct)
  case (1 pstart e start m)
  show ?case
  proof (cases "start < e")
    case False
    with "1.prems" show ?thesis
      by (subst init_loop.simps) auto
  next
    case True
    define k where "k = nat start"
    with "1.prems" True have k: "start = int k" "k < 2 ^ 19" by auto
    then have addr: "(of_int (i32 (start * 4096)) :: u64) = of_nat (k * 4096)"
      using init_address [of k] by simp
    have low: "of_nat (k * 4096) < pstart \<longleftrightarrow> k * 4096 < unat pstart"
    proof -
      have "unat (of_nat (k * 4096) :: u64) = k * 4096"
        using k by (intro unat_of_nat64) simp
      then show ?thesis by (simp add: word_less_nat_alt del: of_nat_mult)
    qed
    have step: "nat start \<le> n \<longleftrightarrow> n = k \<or> nat (start + 1) \<le> n"
      using k by auto
    show ?thesis
    proof (cases "of_nat (k * 4096) < pstart")
      case skip: True
      then have "page_bit (init_loop pstart e start m) n = page_bit (init_loop pstart e (start + 1) m) n"
        using True addr by (subst init_loop.simps) (simp add: Let_def)
      with "1.IH"(1) [OF True refl] skip addr low "1.prems" step show ?thesis
        by auto
    next
      case set: False
      then have "page_bit (init_loop pstart e start m) n
          = page_bit (init_loop pstart e (start + 1) (kset_bit m (of_nat k))) n"
        using True addr k by (subst init_loop.simps) (simp add: Let_def)
      with "1.IH"(2) [OF True refl] set addr low "1.prems" step k True show ?thesis
        by (auto simp: page_bit_kset_bit)
    qed
  qed
qed

lemma page_bit_clear_map:
  assumes "n < 2 ^ 64"
  shows "page_bit (clear_map m) n \<longleftrightarrow> 16384 \<le> n \<and> page_bit m n"
proof -
  have "n div 64 < 2 ^ 64" using assms by simp
  then have "(of_nat (n div 64) :: u64) < 256 \<longleftrightarrow> n div 64 < 256"
    by (simp add: word_less_nat_alt unat_of_nat64)
  moreover have "n div 64 < 256 \<longleftrightarrow> n < 16384" by auto
  ultimately show ?thesis by (auto simp: page_bit_def clear_map_def)
qed

lemma init_paging_page_bit:
  assumes "unat ((base + len) div PAGE_SIZE) \<le> 2 ^ 19" and "n < 2 ^ 64"
  shows "page_bit (free_map (init_paging physbase physfree base len st)) n \<longleftrightarrow>
    (16384 \<le> n \<and> page_bit (free_map st) n) \<or>
    (n < unat ((base + len) div PAGE_SIZE) \<and> unat (physfree + 2048) \<le> n * 4096)"
proof -
  define k where "k = unat ((base + len) div PAGE_SIZE)"
  have k: "uint ((base + len) div PAGE_SIZE) = int k" by (simp add: k_def)
  have "k \<le> 2 ^ 19" using assms(1) by (simp add: k_def)
  then have "i32 (int k) = int k" by (intro i32_id) (simp add: in_i32_def)
  moreover have "page_bit (init_loop (physfree + 2048) (int k) 0 (clear_map (free_map st))) n \<longleftrightarrow>
      (16384 \<le> n \<and> page_bit (free_map st) n) \<or> (n < k \<and> unat (physfree + 2048) \<le> n * 4096)"
    using init_loop_bits [of 0 "int k" n] \<open>k \<le> 2 ^ 19\<close> assms(2) page_bit_clear_map [OF assms(2)] by simp
  ultimately show ?thesis
    unfolding k_def [symmetric] init_paging_def Let_def k by simp
qed

section \<open>The allocator as an interface\<close>

text \<open>
  What the page-table code relies on: a pool of frames, an operation that takes one out, and
  (in the extension) one that gives a frame back.
\<close>

locale frame_source =
  fixes alloc :: "'s \<Rightarrow> 's \<times> u64" and pool :: "'s \<Rightarrow> u64 set"
  assumes finite_pool: "finite (pool s)"
    and alloc_in: "pool s \<noteq> {} \<Longrightarrow> snd (alloc s) \<in> pool s"
    and alloc_removes: "pool s \<noteq> {} \<Longrightarrow> pool (fst (alloc s)) = pool s - {snd (alloc s)}"

fun alloc_seq :: "('s \<Rightarrow> 's \<times> u64) \<Rightarrow> nat \<Rightarrow> 's \<Rightarrow> 's \<times> u64 list" where
  "alloc_seq alloc 0 s = (s, [])"
| "alloc_seq alloc (Suc n) s =
     (let (s1, a) = alloc s; (s2, as) = alloc_seq alloc n s1 in (s2, a # as))"

context frame_source
begin

lemma card_alloc: "pool s \<noteq> {} \<Longrightarrow> card (pool (fst (alloc s))) = card (pool s) - 1"
  by (simp add: alloc_removes alloc_in)

lemma alloc_seq_distinct:
  "n \<le> card (pool s) \<Longrightarrow> alloc_seq alloc n s = (s', as) \<Longrightarrow>
     length as = n \<and> distinct as \<and> set as \<subseteq> pool s \<and> pool s' = pool s - set as"
proof (induction n arbitrary: s s' as)
  case 0
  then show ?case by simp
next
  case (Suc n)
  then have ne: "pool s \<noteq> {}" by (metis card.empty not_less_eq_eq zero_le)
  obtain s1 a where a: "alloc s = (s1, a)" by fastforce
  obtain s2 bs where bs: "alloc_seq alloc n s1 = (s2, bs)" by fastforce
  from Suc.prems(2) a bs have as: "as = a # bs" "s' = s2" by simp_all
  have pool1: "pool s1 = pool s - {a}" "a \<in> pool s"
    using alloc_removes [OF ne] alloc_in [OF ne] a by simp_all
  have "n \<le> card (pool s1)"
    unfolding pool1(1) using Suc.prems(1) pool1(2) by (simp add: finite_pool)
  from Suc.IH [OF this bs] have IH: "length bs = n" "distinct bs" "set bs \<subseteq> pool s1"
    "pool s2 = pool s1 - set bs" by blast+
  from IH(3) pool1 have "a \<notin> set bs" "set (a # bs) \<subseteq> pool s" by auto
  moreover from IH(4) pool1 have "pool s2 = pool s - set (a # bs)" by auto
  ultimately show ?case using IH as by simp
qed

end

locale frame_pool = frame_source +
  fixes release :: "u64 \<Rightarrow> 's \<Rightarrow> 's" and frames :: "u64 set"
  assumes pool_frames: "pool s \<subseteq> frames"
    and release_adds: "a \<in> frames \<Longrightarrow> pool (release a s) = insert a (pool s)"
begin

lemma release_alloc: "pool s \<noteq> {} \<Longrightarrow> pool (release (snd (alloc s)) (fst (alloc s))) = pool s"
proof -
  assume ne: "pool s \<noteq> {}"
  then have "snd (alloc s) \<in> pool s" by (rule alloc_in)
  moreover from this pool_frames have "snd (alloc s) \<in> frames" by blast
  ultimately show ?thesis
    by (simp add: release_adds alloc_removes [OF ne] insert_absorb)
qed

end

text \<open>How \<^verbatim>\<open>free_page\<close> and its kin give a frame back: \<^verbatim>\<open>set_bit(free_map, addr/PAGE_SIZE)\<close>.\<close>

definition release_frame :: "u64 \<Rightarrow> 'a paging_scheme \<Rightarrow> 'a paging_scheme" where
  "release_frame a st = st\<lparr>free_map := kset_bit (free_map st) (a div PAGE_SIZE)\<rparr>"

definition all_frames :: "u64 set" where
  "all_frames = {a. page_aligned a \<and> unat a < 2 ^ 26}"

lemma avail_release_frame:
  assumes "a \<in> all_frames"
  shows "avail (release_frame a st) = insert a (avail st)"
proof (rule set_eqI)
  fix b
  let ?n = "unat a div 4096"
  have a: "a div PAGE_SIZE = of_nat ?n"
  proof -
    have "?n < 2 ^ 64" using unat_lt64 [of a] by simp
    then show ?thesis by (simp add: word_unat_eq_iff unat_div unat_of_nat64)
  qed
  have n: "?n < 16384" "unat a = ?n * 4096"
    using assms unfolding all_frames_def page_aligned_def by auto
  show "b \<in> avail (release_frame a st) \<longleftrightarrow> b \<in> insert a (avail st)"
  proof (cases "page_aligned b \<and> unat b < 2 ^ 26")
    case True
    then have "b = a \<longleftrightarrow> unat b div 4096 = ?n"
      using n unfolding page_aligned_def by (auto simp: word_unat_eq_iff)
    with True n a show ?thesis
      by (auto simp: release_frame_def avail_def page_bit_kset_bit)
  next
    case False
    then show ?thesis using assms by (auto simp: avail_def all_frames_def)
  qed
qed

interpretation frames: frame_pool allocate_virt_page avail release_frame all_frames
proof unfold_locales
  fix s :: "'a paging_scheme"
  show "finite (avail s)" by simp
  obtain s' a where a: "allocate_virt_page s = (s', a)" by fastforce
  show "snd (allocate_virt_page s) \<in> avail s" if "avail s \<noteq> {}"
    using allocate_virt_page_avail(1) [OF that a] a by simp
  show "avail (fst (allocate_virt_page s)) = avail s - {snd (allocate_virt_page s)}"
    if "avail s \<noteq> {}"
    using allocate_virt_page_avail(3) [OF that a] a by simp
  show "avail s \<subseteq> all_frames" by (auto simp: avail_def all_frames_def)
  show "avail (release_frame a s) = insert a (avail s)" if "a \<in> all_frames" for a
    using that by (rule avail_release_frame)
qed

end
