(* ===== verification/PageTree.thy ===== *)
theory PageTree
  imports FrameAlloc
begin

text \<open>
  The abstract view of the four-level page tables of \<^verbatim>\<open>sys/paging.c\<close>: how an address is split
  into table indices, how kernel pointers name physical memory, what a tree of tables means as
  a function from virtual addresses to leaf entries, and how adding a table or writing a leaf
  changes that function. The routines of the code are in \<^verbatim>\<open>PageMap\<close> and \<^verbatim>\<open>AddrSpace\<close>.

  A kernel pointer \<^verbatim>\<open>KERNEL_ADDR | p\<close> is dereferenced through the direct map that
  \<open>set_identity_paging\<close> installs: it reads and writes physical address \<^verbatim>\<open>va - KERNEL_ADDR\<close>.
\<close>

unbundle bit_operations_syntax

section \<open>Addresses and entries\<close>

abbreviation (input) KERNEL_ADDR :: u64 where "KERNEL_ADDR \<equiv> 0xFFFFFFFF80000000"
abbreviation (input) PT_PR :: u64 where "PT_PR \<equiv> 1"
abbreviation (input) PT_WR :: u64 where "PT_WR \<equiv> 2"
abbreviation (input) PT_U :: u64 where "PT_U \<equiv> 4"
abbreviation (input) PML4_INDEX :: nat where "PML4_INDEX \<equiv> 39"
abbreviation (input) PDPT_INDEX :: nat where "PDPT_INDEX \<equiv> 30"
abbreviation (input) PD_INDEX :: nat where "PD_INDEX \<equiv> 21"
abbreviation (input) PT_INDEX :: nat where "PT_INDEX \<equiv> 12"

definition get_index :: "u64 \<Rightarrow> nat \<Rightarrow> u64" where
  "get_index address offset = drop_bit offset address AND 0x1FF"

definition kaddr :: "u64 \<Rightarrow> u64" where
  "kaddr p = KERNEL_ADDR OR p"

definition kphys :: "u64 \<Rightarrow> u64" where
  "kphys va = va - KERNEL_ADDR"

definition present :: "u64 \<Rightarrow> bool" where
  "present e \<longleftrightarrow> e AND PT_PR \<noteq> 0"
lemma kaddr_plus: "unat a < 2 ^ 31 \<Longrightarrow> kaddr a = KERNEL_ADDR + a"
proof -
  assume "unat a < 2 ^ 31"
  then have a: "take_bit 31 a = a"
    by (simp add: word_unat_eq_iff unsigned_take_bit_eq take_bit_nat_eq_self)
  have "KERNEL_ADDR AND a = 0"
  proof -
    have "KERNEL_ADDR = NOT (mask 31 :: u64)" by (simp add: mask_eq_exp_minus_1)
    moreover have "NOT (mask 31) AND take_bit 31 a = 0"
      by (simp add: bit_eq_iff bit_simps)
    ultimately show ?thesis using a by metis
  qed
  then show ?thesis unfolding kaddr_def by (simp add: disjunctive_add_eq_or)
qed

lemma kphys_kaddr [addr_simps]: "unat a < 2 ^ 31 \<Longrightarrow> kphys (kaddr a) = a"
  by (simp add: kaddr_plus kphys_def)

lemma kphys_slot_kaddr [addr_simps]: "unat t < 2 ^ 31 \<Longrightarrow> kphys (slot (kaddr t) i) = slot t i"
  by (simp add: kaddr_plus kphys_def slot_def)

section \<open>What a table tree means\<close>

text \<open>
  The leaf slot an index path leads to, the entry found there, and the meaning of the tree at
  \<open>r\<close>: the present leaf entry of each virtual address.
\<close>

fun leaf_of :: "(u64 \<Rightarrow> u64) \<Rightarrow> u64 \<Rightarrow> u64 list \<Rightarrow> (u64 \<times> u64) option" where
  "leaf_of f t [] = None"
| "leaf_of f t [i] = Some (t, i)"
| "leaf_of f t (i # is) =
     (if present (f (slot t i)) then leaf_of f (remove_flag (f (slot t i))) is else None)"

definition entry_at :: "(u64 \<Rightarrow> u64) \<Rightarrow> u64 \<Rightarrow> u64 list \<Rightarrow> u64 option" where
  "entry_at f t is =
     (case leaf_of f t is of None \<Rightarrow> None
      | Some (t1, i) \<Rightarrow> if present (f (slot t1 i)) then Some (f (slot t1 i)) else None)"

definition indices :: "u64 \<Rightarrow> u64 list" where
  "indices va = [get_index va 39, get_index va 30, get_index va 21, get_index va 12]"

definition translate :: "(u64 \<Rightarrow> u64) \<Rightarrow> u64 \<Rightarrow> u64 \<Rightarrow> u64 option" where
  "translate f r va = entry_at f r (indices va)"

text \<open>
  A well-formed tree below \<open>r\<close>: \<open>L\<close> gives every table frame its level (4 for the root, 1 for
  a table of leaves); a present entry of a table above level 1 leads to a table one level down,
  and no table has two parents.
\<close>

definition wf_tables :: "(u64 \<Rightarrow> u64) \<Rightarrow> u64 \<Rightarrow> (u64 \<Rightarrow> nat option) \<Rightarrow> bool" where
  "wf_tables f r L \<longleftrightarrow>
     L r = Some 4 \<and>
     (\<forall>t l. L t = Some l \<longrightarrow> page_aligned t \<and> unat t < 2 ^ 26) \<and>
     (\<forall>t l i. L t = Some (Suc (Suc l)) \<and> i < 512 \<and> present (f (slot t i)) \<longrightarrow>
        L (remove_flag (f (slot t i))) = Some (Suc l)) \<and>
     (\<forall>t l i t' l' i'. L t = Some (Suc (Suc l)) \<and> L t' = Some (Suc (Suc l')) \<and> i < 512 \<and> i' < 512 \<and>
        present (f (slot t i)) \<and> present (f (slot t' i')) \<and>
        remove_flag (f (slot t i)) = remove_flag (f (slot t' i')) \<longrightarrow> t = t' \<and> i = i')"

text \<open>The tables are not free frames.\<close>

definition table_inv :: "(u64 \<Rightarrow> u64) \<Rightarrow> u64 set \<Rightarrow> u64 \<Rightarrow> (u64 \<Rightarrow> nat option) \<Rightarrow> bool" where
  "table_inv f A r L \<longleftrightarrow> wf_tables f r L \<and> dom L \<inter> A = {}"

lemma get_index_less [simp]: "get_index va k < 512"
proof -
  have "get_index va k \<le> 0x1FF"
    unfolding get_index_def by (rule word_and_le1)
  then show ?thesis by (simp add: word_le_nat_alt word_less_nat_alt)
qed

lemma indices_less: "\<forall>i \<in> set (indices va). i < 512"
  by (simp add: indices_def)

lemma wf_tables_root: "wf_tables f r L \<Longrightarrow> L r = Some 4"
  unfolding wf_tables_def by blast

lemma wf_tables_aligned: "wf_tables f r L \<Longrightarrow> L t = Some l \<Longrightarrow> page_aligned t"
  and wf_tables_low: "wf_tables f r L \<Longrightarrow> L t = Some l \<Longrightarrow> unat t < 2 ^ 26"
  unfolding wf_tables_def by blast+

lemma wf_tables_child:
  "wf_tables f r L \<Longrightarrow> L t = Some (Suc (Suc l)) \<Longrightarrow> i < 512 \<Longrightarrow> present (f (slot t i)) \<Longrightarrow>
     L (remove_flag (f (slot t i))) = Some (Suc l)"
  unfolding wf_tables_def by blast

lemma wf_tables_parent:
  "wf_tables f r L \<Longrightarrow> L t = Some (Suc (Suc l)) \<Longrightarrow> L t' = Some (Suc (Suc l')) \<Longrightarrow> i < 512 \<Longrightarrow> i' < 512 \<Longrightarrow>
     present (f (slot t i)) \<Longrightarrow> present (f (slot t' i')) \<Longrightarrow>
     remove_flag (f (slot t i)) = remove_flag (f (slot t' i')) \<Longrightarrow> t = t' \<and> i = i'"
  unfolding wf_tables_def by blast

lemma wf_tablesI:
  assumes "L r = Some 4"
    and "\<And>t l. L t = Some l \<Longrightarrow> page_aligned t \<and> unat t < 2 ^ 26"
    and "\<And>t l i. L t = Some (Suc (Suc l)) \<Longrightarrow> i < 512 \<Longrightarrow> present (f (slot t i)) \<Longrightarrow>
           L (remove_flag (f (slot t i))) = Some (Suc l)"
    and "\<And>t l i t' l' i'. L t = Some (Suc (Suc l)) \<Longrightarrow> i < 512 \<Longrightarrow> present (f (slot t i)) \<Longrightarrow>
           L t' = Some (Suc (Suc l')) \<Longrightarrow> i' < 512 \<Longrightarrow> present (f (slot t' i')) \<Longrightarrow>
           remove_flag (f (slot t i)) = remove_flag (f (slot t' i')) \<Longrightarrow> t = t' \<and> i = i'"
  shows "wf_tables f r L"
  unfolding wf_tables_def
  by (intro conjI allI impI; (elim conjE)?) (use assms in blast)+

lemma wf_tables_slot_neq:
  assumes "wf_tables f r L" "L t = Some l" "L t' = Some l'" "i < 512" "i' < 512" "(t, i) \<noteq> (t', i')"
  shows "slot t i \<noteq> slot t' i'"
  using assms slot_inj [OF wf_tables_aligned [OF assms(1,2)] assms(4) wf_tables_aligned [OF assms(1,3)] assms(5)]
  by simp

text \<open>Two paths that lead to the same leaf slot are the same path.\<close>

lemma leaf_of_Cons2:
  "leaf_of f t (i # j # js) = Some x \<longleftrightarrow>
     present (f (slot t i)) \<and> leaf_of f (remove_flag (f (slot t i))) (j # js) = Some x"
  by simp

lemma leaf_of_inj:
  assumes wf: "wf_tables f r L"
  shows "L t = Some (length is) \<Longrightarrow> L t' = Some (length is') \<Longrightarrow> length is = length is' \<Longrightarrow>
    \<forall>i \<in> set is. i < 512 \<Longrightarrow> \<forall>i \<in> set is'. i < 512 \<Longrightarrow>
    leaf_of f t is = Some x \<Longrightarrow> leaf_of f t' is' = Some x \<Longrightarrow> t = t' \<and> is = is'"
proof (induction "is" arbitrary: t t' is' rule: induct_list012)
  case 1
  then show ?case by simp
next
  case (2 i)
  then show ?case by (auto simp: Suc_length_conv)
next
  case (3 i j js)
  from "3.prems"(3) have "length is' = Suc (Suc (length js))" by simp
  then obtain i' j' js' where is': "is' = i' # j' # js'" "length js' = length js"
    by (auto simp: length_Suc_conv)
  let ?c = "remove_flag (f (slot t i))" and ?c' = "remove_flag (f (slot t' i'))"
  from "3.prems" is' have p: "present (f (slot t i))" "present (f (slot t' i'))"
    and leaf: "leaf_of f ?c (j # js) = Some x" "leaf_of f ?c' (j' # js') = Some x"
    and lv: "L t = Some (Suc (Suc (length js)))" "L t' = Some (Suc (Suc (length js)))"
    and i: "i < 512" "i' < 512"
    by (simp_all only: leaf_of_Cons2) simp_all
  from wf lv(1) i(1) p(1) have c: "L ?c = Some (length (j # js))"
    by (simp add: wf_tables_child)
  from wf lv(2) i(2) p(2) have c': "L ?c' = Some (length (j' # js'))"
    using is' by (simp add: wf_tables_child)
  have "?c = ?c' \<and> j # js = j' # js'"
    by (rule "3.IH"(2) [OF c c']) (use "3.prems" is' leaf in auto)
  with wf_tables_parent [OF wf lv i p] is' show ?case by simp
qed

lemma leaf_of_level:
  assumes wf: "wf_tables f r L"
  shows "L t = Some (length is) \<Longrightarrow> \<forall>i \<in> set is. i < 512 \<Longrightarrow> leaf_of f t is = Some (t1, i1) \<Longrightarrow>
    L t1 = Some 1 \<and> i1 < 512"
proof (induction "is" arbitrary: t rule: induct_list012)
  case (3 i j js)
  then have "present (f (slot t i))" "leaf_of f (remove_flag (f (slot t i))) (j # js) = Some (t1, i1)"
    by (simp_all only: leaf_of_Cons2)
  with "3.prems" wf show ?case
    by (intro "3.IH"(2)) (auto simp: wf_tables_child)
qed simp_all

text \<open>The tree depends only on the slots of the tables above level 1.\<close>

lemma wf_tables_cong:
  assumes wf: "wf_tables f r L"
    and eq: "\<And>t l i. L t = Some (Suc (Suc l)) \<Longrightarrow> i < 512 \<Longrightarrow> g (slot t i) = f (slot t i)"
  shows "wf_tables g r L"
proof (rule wf_tablesI)
  show "L r = Some 4" using wf by (rule wf_tables_root)
  show "page_aligned t \<and> unat t < 2 ^ 26" if "L t = Some l" for t l
    using wf_tables_aligned [OF wf that] wf_tables_low [OF wf that] ..
  show "L (remove_flag (g (slot t i))) = Some (Suc l)"
    if "L t = Some (Suc (Suc l))" "i < 512" "present (g (slot t i))" for t l i
    using wf_tables_child [OF wf] that eq [OF that(1,2)] by simp
  show "t = t' \<and> i = i'"
    if "L t = Some (Suc (Suc l))" "i < 512" "present (g (slot t i))"
      "L t' = Some (Suc (Suc l'))" "i' < 512" "present (g (slot t' i'))"
      "remove_flag (g (slot t i)) = remove_flag (g (slot t' i'))" for t l i t' l' i'
    using wf_tables_parent [OF wf that(1,4,2,5)] that eq [OF that(1,2)] eq [OF that(4,5)] by simp
qed

lemma leaf_of_cong:
  assumes wf: "wf_tables f r L"
    and eq: "\<And>t l i. L t = Some (Suc (Suc l)) \<Longrightarrow> i < 512 \<Longrightarrow> g (slot t i) = f (slot t i)"
  shows "L t = Some (length is) \<Longrightarrow> \<forall>i \<in> set is. i < 512 \<Longrightarrow> leaf_of g t is = leaf_of f t is"
proof (induction "is" arbitrary: t rule: induct_list012)
  case (3 i j js)
  then have "g (slot t i) = f (slot t i)"
    by (intro eq) auto
  moreover have "leaf_of g (remove_flag (f (slot t i))) (j # js) =
      leaf_of f (remove_flag (f (slot t i))) (j # js)" if "present (f (slot t i))"
    using "3.prems" wf that by (intro "3.IH"(2)) (auto simp: wf_tables_child)
  ultimately show ?case by simp
qed simp_all

text \<open>Writing one leaf slot changes the meaning at exactly one path.\<close>

lemma leaf_write_other:
  assumes wf: "wf_tables f r L" and t1: "L t1 = Some 1" "i1 < 512"
    and "L t = Some (Suc (Suc l))" "i < 512"
  shows "(f(slot t1 i1 := v)) (slot t i) = f (slot t i)"
proof (rule fun_upd_other)
  have "t \<noteq> t1" using assms by auto
  then show "slot t i \<noteq> slot t1 i1"
    using wf_tables_slot_neq [OF wf assms(4) t1(1) assms(5) t1(2)] by simp
qed

lemma wf_tables_leaf_write:
  assumes wf: "wf_tables f r L" and t1: "L t1 = Some 1" "i1 < 512"
  shows "wf_tables (f(slot t1 i1 := v)) r L"
  by (rule wf_tables_cong [OF wf]) (rule leaf_write_other [OF wf t1])

lemma leaf_of_leaf_write:
  assumes wf: "wf_tables f r L" and t1: "L t1 = Some 1" "i1 < 512"
    and "L t = Some (length is)" "\<forall>i \<in> set is. i < 512"
  shows "leaf_of (f(slot t1 i1 := v)) t is = leaf_of f t is"
  by (rule leaf_of_cong [OF wf leaf_write_other [OF wf t1] assms(4,5)])

lemma entry_at_leaf_write_any:
  assumes wf: "wf_tables f r L"
    and js: "L t = Some (length js)" "\<forall>i \<in> set js. i < 512" "leaf_of f t js = Some (t1, i1)"
    and "is": "length is = length js" "\<forall>i \<in> set is. i < 512"
  shows "entry_at (f(slot t1 i1 := v)) t is =
    (if is = js then if present v then Some v else None else entry_at f t is)"
proof -
  have t1: "L t1 = Some 1" "i1 < 512" using leaf_of_level [OF wf js] by auto
  have same: "leaf_of (f(slot t1 i1 := v)) t is = leaf_of f t is"
    by (rule leaf_of_leaf_write [OF wf t1]) (use js "is" in auto)
  show ?thesis
  proof (cases "is = js")
    case True
    with js same show ?thesis by (simp add: entry_at_def)
  next
    case False
    have "slot t2 i2 \<noteq> slot t1 i1" if "leaf_of f t is = Some (t2, i2)" for t2 i2
    proof -
      have "L t2 = Some 1" "i2 < 512"
        using leaf_of_level [OF wf _ "is"(2) that] js "is" by auto
      moreover have "(t2, i2) \<noteq> (t1, i1)"
        using leaf_of_inj [OF wf, of t "is" t js "(t1, i1)"] that js "is" False by auto
      ultimately show ?thesis using t1 by (intro wf_tables_slot_neq [OF wf]) auto
    qed
    with False same show ?thesis
      by (auto simp: entry_at_def split: option.splits)
  qed
qed

lemma entry_at_leaf_write:
  assumes "wf_tables f r L" and "present v"
    and "L t = Some (length js)" "\<forall>i \<in> set js. i < 512" "leaf_of f t js = Some (t1, i1)"
    and "length is = length js" "\<forall>i \<in> set is. i < 512"
  shows "entry_at (f(slot t1 i1 := v)) t is = (if is = js then Some v else entry_at f t is)"
  using entry_at_leaf_write_any [OF assms(1,3-7)] assms(2) by simp
definition is_flags :: "u64 \<Rightarrow> bool" where
  "is_flags fl \<longleftrightarrow> fl < 4096 \<and> present fl"

lemma is_flags_simps [simp]: "is_flags 3" "is_flags 7" "is_flags (PT_PR OR PT_WR)"
  "is_flags (PT_PR OR PT_WR OR PT_U)"
  by (simp_all add: is_flags_def present_def)

lemma present_or [simp]: "present fl \<Longrightarrow> present (a OR fl)"
  by (auto simp: present_def bit_eq_iff bit_simps)

lemma remove_flag_or:
  assumes "page_aligned a" "fl < 4096"
  shows "remove_flag (a OR fl) = a"
proof -
  have "fl AND NOT (mask 12) = 0"
  proof -
    have "fl = take_bit 12 fl"
      using assms(2) by (simp add: word_less_nat_alt word_unat_eq_iff unsigned_take_bit_eq take_bit_nat_eq_self)
    moreover have "take_bit 12 fl AND NOT (mask 12) = 0"
      by (simp add: bit_eq_iff bit_simps)
    ultimately show ?thesis by metis
  qed
  moreover have "a AND NOT (mask 12) = a"
    using assms(1) unfolding page_aligned_iff_remove_flag remove_flag_def page_mask_eq .
  ultimately show ?thesis
    unfolding remove_flag_def page_mask_eq by (simp add: bit.conj_disj_distrib2)
qed

section \<open>Installing a table\<close>

text \<open>Installing a cleared frame \<open>a\<close> in an empty slot of an upper table.\<close>

definition install :: "(u64 \<Rightarrow> u64) \<Rightarrow> u64 \<Rightarrow> u64 \<Rightarrow> u64 \<Rightarrow> u64 \<Rightarrow> (u64 \<Rightarrow> u64)" where
  "install f t i a fl = (clear_page f a)(slot t i := a OR fl)"

lemma install_slots:
  assumes wf: "wf_tables f r L" and t: "L t = Some l" "i < 512"
    and a: "page_aligned a" "L a = None" and fl: "is_flags fl"
  shows "install f t i a fl (slot t i) = a OR fl"
    and "L t0 = Some l0 \<Longrightarrow> i0 < 512 \<Longrightarrow> (t0, i0) \<noteq> (t, i) \<Longrightarrow>
           install f t i a fl (slot t0 i0) = f (slot t0 i0)"
    and "i0 < 512 \<Longrightarrow> install f t i a fl (slot a i0) = 0"
proof -
  show "install f t i a fl (slot t i) = a OR fl" by (simp add: install_def)
  show "install f t i a fl (slot t0 i0) = f (slot t0 i0)"
    if "L t0 = Some l0" "i0 < 512" "(t0, i0) \<noteq> (t, i)"
    using that wf_tables_slot_neq [OF wf that(1) t(1) that(2) t(2) that(3)] a
    by (auto simp: install_def clear_page_def remove_flag_slot wf_tables_aligned [OF wf])
  have "a \<noteq> t" using a t by auto
  then show "install f t i a fl (slot a i0) = 0" if "i0 < 512"
    using that slot_inj [OF a(1) that wf_tables_aligned [OF wf t(1)] t(2)] a
    by (simp add: install_def clear_page_def remove_flag_slot)
qed

text \<open>
  The situation of the next lemmas: an upper table \<open>t\<close> with an empty slot \<open>i\<close>, and a frame \<open>a\<close>
  that is no table yet.
\<close>

definition can_install ::
  "(u64 \<Rightarrow> u64) \<Rightarrow> u64 \<Rightarrow> (u64 \<Rightarrow> nat option) \<Rightarrow> u64 \<Rightarrow> nat \<Rightarrow> u64 \<Rightarrow> u64 \<Rightarrow> u64 \<Rightarrow> bool" where
  "can_install f r L t l i a fl \<longleftrightarrow>
     wf_tables f r L \<and> L t = Some (Suc (Suc l)) \<and> i < 512 \<and> \<not> present (f (slot t i)) \<and>
     page_aligned a \<and> L a = None \<and> unat a < 2 ^ 26 \<and> is_flags fl"

lemma not_present_0 [simp]: "\<not> present 0"
  by (simp add: present_def)

lemma install_new:
  assumes "can_install f r L t l i a fl"
  shows "install f t i a fl (slot t i) = a OR fl" and "remove_flag (a OR fl) = a"
    and "present (install f t i a fl (slot t i))"
  using assms install_slots(1) [of f r L t "Suc (Suc l)" i a fl]
  by (auto simp: can_install_def remove_flag_or is_flags_def)

lemma install_cases:
  assumes c: "can_install f r L t l i a fl"
    and "(L(a \<mapsto> Suc l)) t0 = Some (Suc (Suc l0))" "i0 < 512" "present (install f t i a fl (slot t0 i0))"
  obtains "t0 = t" "i0 = i"
  | "L t0 = Some (Suc (Suc l0))" "install f t i a fl (slot t0 i0) = f (slot t0 i0)" "present (f (slot t0 i0))"
proof (cases "t0 = a")
  case True
  then have "install f t i a fl (slot t0 i0) = 0"
    using c assms(3) install_slots(3) [of f r L t "Suc (Suc l)" i a fl i0] by (simp add: can_install_def)
  with assms(4) show ?thesis by simp
next
  case False
  with assms(2) have l0: "L t0 = Some (Suc (Suc l0))" by simp
  show ?thesis
  proof (cases "t0 = t \<and> i0 = i")
    case True
    with that(1) show ?thesis by simp
  next
    case False
    then have "install f t i a fl (slot t0 i0) = f (slot t0 i0)"
      using c l0 assms(3) install_slots(2) [of f r L t "Suc (Suc l)" i a fl t0 "Suc (Suc l0)" i0]
      by (simp add: can_install_def)
    with l0 assms(4) that(2) show ?thesis by simp
  qed
qed

lemma install_child_not_new:
  assumes "can_install f r L t l i a fl" "L t0 = Some (Suc (Suc l0))" "i0 < 512" "present (f (slot t0 i0))"
  shows "remove_flag (f (slot t0 i0)) \<noteq> a"
proof
  assume "remove_flag (f (slot t0 i0)) = a"
  with assms wf_tables_child [of f r L t0 l0 i0] show False by (simp add: can_install_def)
qed

lemma install_child:
  assumes c: "can_install f r L t l i a fl"
    and h: "(L(a \<mapsto> Suc l)) t0 = Some (Suc (Suc l0))" "i0 < 512" "present (install f t i a fl (slot t0 i0))"
  shows "(L(a \<mapsto> Suc l)) (remove_flag (install f t i a fl (slot t0 i0))) = Some (Suc l0)"
proof (cases rule: install_cases [OF c h])
  case 1
  then have "l0 = l" using h(1) c by (auto simp: can_install_def split: if_splits)
  with 1 install_new [OF c] show ?thesis by simp
next
  case 2
  then have "L (remove_flag (f (slot t0 i0))) = Some (Suc l0)"
    using c h(2) wf_tables_child [of f r L t0 l0 i0] by (simp add: can_install_def)
  with 2 install_child_not_new [OF c 2(1) h(2) 2(3)] show ?thesis by simp
qed

lemma install_parent:
  assumes c: "can_install f r L t l i a fl"
    and h0: "(L(a \<mapsto> Suc l)) t0 = Some (Suc (Suc l0))" "i0 < 512" "present (install f t i a fl (slot t0 i0))"
    and h1: "(L(a \<mapsto> Suc l)) t1 = Some (Suc (Suc l1))" "i1 < 512" "present (install f t i a fl (slot t1 i1))"
    and eq: "remove_flag (install f t i a fl (slot t0 i0)) = remove_flag (install f t i a fl (slot t1 i1))"
  shows "t0 = t1 \<and> i0 = i1"
proof (cases rule: install_cases [OF c h0])
  case old0: 1
  show ?thesis
  proof (cases rule: install_cases [OF c h1])
    case 1
    with old0 show ?thesis by simp
  next
    case 2
    with old0 eq install_new [OF c] install_child_not_new [OF c 2(1) h1(2) 2(3)] show ?thesis by simp
  qed
next
  case old0: 2
  show ?thesis
  proof (cases rule: install_cases [OF c h1])
    case 1
    with old0 eq install_new [OF c] install_child_not_new [OF c old0(1) h0(2) old0(3)]
    show ?thesis by simp
  next
    case 2
    with old0 eq c wf_tables_parent [of f r L t0 l0 t1 l1 i0 i1] h0(2) h1(2) show ?thesis
      by (simp add: can_install_def)
  qed
qed

lemma install_wf:
  assumes c: "can_install f r L t l i a fl"
  shows "wf_tables (install f t i a fl) r (L(a \<mapsto> Suc l))"
proof (rule wf_tablesI)
  from c have wf: "wf_tables f r L" by (simp add: can_install_def)
  have "L r = Some 4" using wf by (rule wf_tables_root)
  with c show "(L(a \<mapsto> Suc l)) r = Some 4" by (auto simp: can_install_def)
  show "page_aligned t0 \<and> unat t0 < 2 ^ 26" if "(L(a \<mapsto> Suc l)) t0 = Some l0" for t0 l0
  proof (cases "t0 = a")
    case True
    with c show ?thesis by (simp add: can_install_def)
  next
    case False
    with that have "L t0 = Some l0" by simp
    with wf show ?thesis by (metis wf_tables_aligned wf_tables_low)
  qed
qed (rule install_child [OF c] install_parent [OF c]; assumption)+

lemma entry_at_step:
  "entry_at f t (i # j # js) =
     (if present (f (slot t i)) then entry_at f (remove_flag (f (slot t i))) (j # js) else None)"
  by (simp add: entry_at_def)

lemma entry_at_empty_table:
  "\<forall>j < 512. f (slot a j) = 0 \<Longrightarrow> \<forall>j \<in> set js. j < 512 \<Longrightarrow> entry_at f a js = None"
  by (cases js rule: remdups_adj.cases) (auto simp: entry_at_def present_def)

lemma install_entry_at:
  assumes c: "can_install f r L t l i a fl"
  shows "L t0 = Some (length is) \<Longrightarrow> \<forall>j \<in> set is. j < 512 \<Longrightarrow>
    entry_at (install f t i a fl) t0 is = entry_at f t0 is"
proof (induction "is" arbitrary: t0 rule: induct_list012)
  case 1
  then show ?case by (simp add: entry_at_def)
next
  case (2 j)
  then have "(t0, j) \<noteq> (t, i)" using c by (auto simp: can_install_def)
  with "2.prems" c install_slots(2) [of f r L t "Suc (Suc l)" i a fl t0 1 j] show ?case
    by (simp add: entry_at_def can_install_def)
next
  case (3 j k ks)
  let ?g = "install f t i a fl"
  show ?case
  proof (cases "(t0, j) = (t, i)")
    case True
    have "\<forall>j < 512. ?g (slot a j) = 0"
      using c install_slots(3) [of f r L t "Suc (Suc l)" i a fl] by (simp add: can_install_def)
    with "3.prems"(2) have "entry_at ?g a (k # ks) = None"
      by (intro entry_at_empty_table) simp_all
    with True c install_new [OF c] show ?thesis by (simp add: entry_at_step can_install_def)
  next
    case False
    with "3.prems" c have eq: "?g (slot t0 j) = f (slot t0 j)"
      using install_slots(2) [of f r L t "Suc (Suc l)" i a fl t0 "Suc (Suc (length ks))" j]
      by (simp add: can_install_def)
    have "entry_at ?g (remove_flag (f (slot t0 j))) (k # ks) =
        entry_at f (remove_flag (f (slot t0 j))) (k # ks)" if "present (f (slot t0 j))"
      using "3.prems" c that wf_tables_child [of f r L t0 "length ks" j]
      by (intro "3.IH"(2)) (simp_all add: can_install_def)
    with eq show ?thesis by (simp add: entry_at_step)
  qed
qed

section \<open>Growing a tree\<close>

text \<open>
  What adding tables below \<open>r\<close> may change: the tree stays well-formed and means the same, table
  frames keep their level and their present entries, the pool only shrinks, and frames that are
  neither tables nor free keep their contents.
\<close>

definition grows ::
  "u64 \<Rightarrow> (u64 \<Rightarrow> u64) \<Rightarrow> u64 set \<Rightarrow> (u64 \<Rightarrow> nat option) \<Rightarrow>
   (u64 \<Rightarrow> u64) \<Rightarrow> u64 set \<Rightarrow> (u64 \<Rightarrow> nat option) \<Rightarrow> bool" where
  "grows r f A L f' A' L' \<longleftrightarrow>
     table_inv f' A' r L' \<and> A' \<subseteq> A \<and> L \<subseteq>\<^sub>m L' \<and> dom L' \<subseteq> dom L \<union> A \<and>
     (\<forall>is. length is = 4 \<and> (\<forall>i \<in> set is. i < 512) \<longrightarrow> entry_at f' r is = entry_at f r is) \<and>
     (\<forall>t l i. L t = Some (Suc (Suc l)) \<and> i < 512 \<and> present (f (slot t i)) \<longrightarrow>
        f' (slot t i) = f (slot t i)) \<and>
     (\<forall>x. remove_flag x \<notin> dom L \<and> remove_flag x \<notin> A \<longrightarrow> f' x = f x)"

lemma table_inv_wf: "table_inv f A r L \<Longrightarrow> wf_tables f r L"
  and table_inv_free: "table_inv f A r L \<Longrightarrow> a \<in> A \<Longrightarrow> L a = None"
  unfolding table_inv_def by blast+

lemma grows_refl: "table_inv f A r L \<Longrightarrow> grows r f A L f A L"
  by (simp add: grows_def)

lemma growsI:
  assumes "table_inv f' A' r L'" "A' \<subseteq> A" "L \<subseteq>\<^sub>m L'" "dom L' \<subseteq> dom L \<union> A"
    and "\<And>is. length is = 4 \<Longrightarrow> \<forall>i \<in> set is. i < 512 \<Longrightarrow> entry_at f' r is = entry_at f r is"
    and "\<And>t l i. L t = Some (Suc (Suc l)) \<Longrightarrow> i < 512 \<Longrightarrow> present (f (slot t i)) \<Longrightarrow>
           f' (slot t i) = f (slot t i)"
    and "\<And>x. remove_flag x \<notin> dom L \<Longrightarrow> remove_flag x \<notin> A \<Longrightarrow> f' x = f x"
  shows "grows r f A L f' A' L'"
  unfolding grows_def by (intro conjI allI impI; (elim conjE)?) (use assms in blast)+

lemma grows_inv: "grows r f A L f' A' L' \<Longrightarrow> table_inv f' A' r L'"
  and grows_pool: "grows r f A L f' A' L' \<Longrightarrow> A' \<subseteq> A"
  and grows_le: "grows r f A L f' A' L' \<Longrightarrow> L \<subseteq>\<^sub>m L'"
  and grows_dom: "grows r f A L f' A' L' \<Longrightarrow> dom L' \<subseteq> dom L \<union> A"
  and grows_entry_at: "grows r f A L f' A' L' \<Longrightarrow> length is = 4 \<Longrightarrow> \<forall>i \<in> set is. i < 512 \<Longrightarrow>
    entry_at f' r is = entry_at f r is"
  and grows_entry: "grows r f A L f' A' L' \<Longrightarrow> L t = Some (Suc (Suc l)) \<Longrightarrow> i < 512 \<Longrightarrow>
    present (f (slot t i)) \<Longrightarrow> f' (slot t i) = f (slot t i)"
  and grows_data: "grows r f A L f' A' L' \<Longrightarrow> remove_flag x \<notin> dom L \<Longrightarrow> remove_flag x \<notin> A \<Longrightarrow> f' x = f x"
  unfolding grows_def by blast+

lemma grows_level: "grows r f A L f' A' L' \<Longrightarrow> L t = Some l \<Longrightarrow> L' t = Some l"
  by (drule grows_le) (auto simp: map_le_def dom_def)

lemma grows_translate: "grows r f A L f' A' L' \<Longrightarrow> translate f' r va = translate f r va"
  unfolding translate_def by (rule grows_entry_at) (simp_all add: indices_def)

lemma grows_trans:
  assumes 1: "grows r f A L f' A' L'" and 2: "grows r f' A' L' f'' A'' L''"
  shows "grows r f A L f'' A'' L''"
proof (rule growsI)
  show "table_inv f'' A'' r L''" using 2 by (rule grows_inv)
  show "A'' \<subseteq> A" using grows_pool [OF 1] grows_pool [OF 2] by blast
  show "L \<subseteq>\<^sub>m L''" using grows_le [OF 1] grows_le [OF 2] by (rule map_le_trans)
  show "dom L'' \<subseteq> dom L \<union> A"
    using grows_dom [OF 1] grows_dom [OF 2] grows_pool [OF 1] by blast
  show "entry_at f'' r is = entry_at f r is" if "length is = 4" "\<forall>i \<in> set is. i < 512" for "is"
    using grows_entry_at [OF 1 that] grows_entry_at [OF 2 that] by simp
  show "f'' (slot t i) = f (slot t i)" if "L t = Some (Suc (Suc l))" "i < 512" "present (f (slot t i))"
    for t l i
    using grows_entry [OF 1 that] grows_entry [OF 2 grows_level [OF 1 that(1)] that(2)] that(3) by simp
  show "f'' x = f x" if "remove_flag x \<notin> dom L" "remove_flag x \<notin> A" for x
  proof -
    have "remove_flag x \<notin> dom L'" "remove_flag x \<notin> A'"
      using that grows_dom [OF 1] grows_pool [OF 1] by blast+
    with grows_data [OF 1 that] grows_data [OF 2] show ?thesis by simp
  qed
qed

lemma install_grows:
  assumes c: "can_install f r L t l i a fl" and A: "a \<in> A" "dom L \<inter> A = {}"
  shows "grows r f A L (install f t i a fl) (A - {a}) (L(a \<mapsto> Suc l))"
proof (rule growsI)
  have wf: "wf_tables f r L" "L a = None" "L r = Some 4" "L t = Some (Suc (Suc l))" "i < 512"
    using c wf_tables_root [of f r L] by (simp_all add: can_install_def)
  show "table_inv (install f t i a fl) (A - {a}) r (L(a \<mapsto> Suc l))"
    using install_wf [OF c] A by (auto simp: table_inv_def)
  show "A - {a} \<subseteq> A" "dom (L(a \<mapsto> Suc l)) \<subseteq> dom L \<union> A" using A by auto
  show "L \<subseteq>\<^sub>m L(a \<mapsto> Suc l)" using wf by (auto simp: map_le_def)
  show "entry_at (install f t i a fl) r is = entry_at f r is"
    if "length is = 4" "\<forall>i \<in> set is. i < 512" for "is"
    using that wf by (intro install_entry_at [OF c]) simp_all
  show "install f t i a fl (slot t0 i0) = f (slot t0 i0)"
    if "L t0 = Some (Suc (Suc l0))" "i0 < 512" "present (f (slot t0 i0))" for t0 l0 i0
  proof (rule install_slots(2) [OF wf(1,4,5)])
    show "(t0, i0) \<noteq> (t, i)" using that c by (auto simp: can_install_def)
  qed (use that c in \<open>simp_all add: can_install_def\<close>)
  show "install f t i a fl x = f x" if "remove_flag x \<notin> dom L" "remove_flag x \<notin> A" for x
  proof -
    have "x \<noteq> slot t i"
      using that wf remove_flag_slot [OF wf_tables_aligned [OF wf(1,4)] wf(5)] by auto
    moreover have "remove_flag x \<noteq> a" using that A by auto
    ultimately show ?thesis by (simp add: install_def clear_page_def)
  qed
qed
text \<open>Writing the leaf slot of a path: the meaning is updated at that path only.\<close>

lemma translate_leaf_write:
  assumes inv: "table_inv f A r L" and leaf: "leaf_of f r (indices va) = Some (t, i)" and v: "present v"
  shows "translate (f(slot t i := v)) r va' =
      (if indices va' = indices va then Some v else translate f r va')"
    and "table_inv (f(slot t i := v)) A r L"
proof -
  from inv have wf: "wf_tables f r L" by (simp add: table_inv_def)
  have r: "L r = Some (length (indices va))"
    using wf_tables_root [OF wf] by (simp add: indices_def)
  show "translate (f(slot t i := v)) r va' =
      (if indices va' = indices va then Some v else translate f r va')"
    unfolding translate_def
    by (rule entry_at_leaf_write [OF wf v r indices_less leaf]) (simp_all add: indices_def)
  show "table_inv (f(slot t i := v)) A r L"
    using inv wf_tables_leaf_write [OF wf] leaf_of_level [OF wf r indices_less leaf]
    by (simp add: table_inv_def)
qed
lemma translate_leaf_clear:
  assumes inv: "table_inv f A r L" and leaf: "leaf_of f r (indices va) = Some (t, i)"
  shows "translate (f(slot t i := 0)) r va' = (if indices va' = indices va then None else translate f r va')"
    and "table_inv (f(slot t i := 0)) A r L"
proof -
  from inv have wf: "wf_tables f r L" by (simp add: table_inv_def)
  have r: "L r = Some (length (indices va))"
    using wf_tables_root [OF wf] by (simp add: indices_def)
  have len: "length (indices va') = length (indices va)" by (simp add: indices_def)
  show "translate (f(slot t i := 0)) r va' = (if indices va' = indices va then None else translate f r va')"
    using entry_at_leaf_write_any [OF wf r indices_less leaf len indices_less]
    unfolding translate_def by simp
  show "table_inv (f(slot t i := 0)) A r L"
    using inv wf_tables_leaf_write [OF wf] leaf_of_level [OF wf r indices_less leaf]
    by (simp add: table_inv_def)
qed

section \<open>Mapping one page\<close>

lemma grows_leaf_of:
  assumes g: "grows r f A L f' A' L'" and wf: "wf_tables f r L"
  shows "L t = Some (length is) \<Longrightarrow> \<forall>i \<in> set is. i < 512 \<Longrightarrow> leaf_of f t is = Some x \<Longrightarrow>
    leaf_of f' t is = Some x"
proof (induction "is" arbitrary: t rule: induct_list012)
  case (3 i j js)
  then have p: "present (f (slot t i))" "leaf_of f (remove_flag (f (slot t i))) (j # js) = Some x"
    by (simp_all only: leaf_of_Cons2)
  with "3.prems" wf have "leaf_of f' (remove_flag (f (slot t i))) (j # js) = Some x"
    by (intro "3.IH"(2)) (auto simp: wf_tables_child)
  moreover have "f' (slot t i) = f (slot t i)"
    using "3.prems" p by (intro grows_entry [OF g]) auto
  ultimately show ?case using p by simp
qed simp_all

text \<open>
  The contract of a mapping routine on the tree below \<open>r\<close>: the page of \<open>va\<close> now has the leaf
  entry \<open>e\<close>, every other page has the entry it had, the tree stays well-formed, and only
  tables and frames taken from the pool are written.
\<close>

definition maps_page ::
  "u64 \<Rightarrow> u64 \<Rightarrow> u64 \<Rightarrow> (u64 \<Rightarrow> u64) \<Rightarrow> u64 set \<Rightarrow> (u64 \<Rightarrow> nat option) \<Rightarrow>
   (u64 \<Rightarrow> u64) \<Rightarrow> u64 set \<Rightarrow> (u64 \<Rightarrow> nat option) \<Rightarrow> bool" where
  "maps_page r va e f A L f' A' L' \<longleftrightarrow>
     table_inv f' A' r L' \<and> L \<subseteq>\<^sub>m L' \<and> dom L' \<subseteq> dom L \<union> A \<and> A' \<subseteq> A \<and>
     (\<forall>va'. translate f' r va' = (if indices va' = indices va then Some e else translate f r va')) \<and>
     (\<forall>x. remove_flag x \<notin> dom L \<and> remove_flag x \<notin> A \<longrightarrow> f' x = f x) \<and>
     (\<exists>t. leaf_of f' r (indices va) = Some (t, get_index va 12)) \<and>
     (\<forall>va' x. leaf_of f r (indices va') = Some x \<longrightarrow> leaf_of f' r (indices va') = Some x)"

lemma maps_page_inv: "maps_page r va e f A L f' A' L' \<Longrightarrow> table_inv f' A' r L'"
  and maps_page_le: "maps_page r va e f A L f' A' L' \<Longrightarrow> L \<subseteq>\<^sub>m L'"
  and maps_page_dom: "maps_page r va e f A L f' A' L' \<Longrightarrow> dom L' \<subseteq> dom L \<union> A"
  and maps_page_pool: "maps_page r va e f A L f' A' L' \<Longrightarrow> A' \<subseteq> A"
  and maps_page_translate: "maps_page r va e f A L f' A' L' \<Longrightarrow>
    translate f' r va' = (if indices va' = indices va then Some e else translate f r va')"
  and maps_page_data: "maps_page r va e f A L f' A' L' \<Longrightarrow> remove_flag x \<notin> dom L \<Longrightarrow>
    remove_flag x \<notin> A \<Longrightarrow> f' x = f x"
  and maps_page_leaf: "maps_page r va e f A L f' A' L' \<Longrightarrow>
    \<exists>t. leaf_of f' r (indices va) = Some (t, get_index va 12)"
  and maps_page_leaves: "maps_page r va e f A L f' A' L' \<Longrightarrow> leaf_of f r (indices va') = Some y \<Longrightarrow>
    leaf_of f' r (indices va') = Some y"
  unfolding maps_page_def by blast+

lemma grows_maps_page:
  assumes inv: "table_inv f A r L" and g: "grows r f A L f' A' L'"
    and leaf: "leaf_of f' r (indices va) = Some (t, get_index va 12)" and v: "present v"
  shows "maps_page r va v f A L (f'(slot t (get_index va 12) := v)) A' L'"
  unfolding maps_page_def
proof (intro conjI allI impI; (elim conjE)?)
  let ?g = "f'(slot t (get_index va 12) := v)"
  have inv': "table_inv f' A' r L'" using g by (rule grows_inv)
  note wf' = table_inv_wf [OF inv']
  have r: "L' r = Some (length (indices va'))" for va'
    using wf_tables_root [OF wf'] by (simp add: indices_def)
  have t: "L' t = Some 1" "get_index va 12 < 512"
    using leaf_of_level [OF wf' r indices_less leaf] by auto
  have tr: "translate ?g r va' = (if indices va' = indices va then Some v else translate f' r va')"
    "table_inv ?g A' r L'" for va'
    by (rule translate_leaf_write [OF inv' leaf v])+
  have same: "leaf_of ?g r (indices va') = leaf_of f' r (indices va')" for va'
    by (rule leaf_of_leaf_write [OF wf' t r indices_less])
  show "table_inv ?g A' r L'" by (rule tr(2))
  show "L \<subseteq>\<^sub>m L'" "dom L' \<subseteq> dom L \<union> A" "A' \<subseteq> A" using g by (rule grows_le grows_dom grows_pool)+
  show "translate ?g r va' = (if indices va' = indices va then Some v else translate f r va')" for va'
    using tr(1) [of va'] grows_translate [OF g] by simp
  show "?g x = f x" if "remove_flag x \<notin> dom L" "remove_flag x \<notin> A" for x
  proof -
    have "t \<in> dom L \<union> A" using grows_dom [OF g] t(1) by blast
    with that have "x \<noteq> slot t (get_index va 12)"
      using remove_flag_slot [OF wf_tables_aligned [OF wf' t(1)] t(2)] by auto
    with grows_data [OF g that] show ?thesis by simp
  qed
  show "\<exists>t. leaf_of ?g r (indices va) = Some (t, get_index va 12)" using same leaf by auto
  show "leaf_of ?g r (indices va') = Some x" if "leaf_of f r (indices va') = Some x" for va' x
  proof -
    have "L r = Some (length (indices va'))"
      using wf_tables_root [OF table_inv_wf [OF inv]] by (simp add: indices_def)
    from grows_leaf_of [OF g table_inv_wf [OF inv] this indices_less that] same show ?thesis by simp
  qed
qed

section \<open>Writing a data frame\<close>

text \<open>A write to a frame that is no table leaves the tree and its meaning alone.\<close>

lemma data_write_slot:
  assumes wf: "wf_tables f r L" and eq: "\<And>x. remove_flag x \<noteq> a \<Longrightarrow> g x = f x"
    and a: "L a = None" and t: "L t = Some l" "i < 512"
  shows "g (slot t i) = f (slot t i)"
proof (rule eq)
  have "remove_flag (slot t i) = t"
    using remove_flag_slot [OF wf_tables_aligned [OF wf t(1)] t(2)] .
  with a t show "remove_flag (slot t i) \<noteq> a" by auto
qed

lemma data_write_wf:
  assumes wf: "wf_tables f r L" and eq: "\<And>x. remove_flag x \<noteq> a \<Longrightarrow> g x = f x" and a: "L a = None"
  shows "wf_tables g r L"
  by (rule wf_tables_cong [OF wf]) (rule data_write_slot [OF wf eq a])

lemma data_write_leaf_of:
  assumes wf: "wf_tables f r L" and eq: "\<And>x. remove_flag x \<noteq> a \<Longrightarrow> g x = f x" and a: "L a = None"
    and is4: "L t = Some (length is)" "\<forall>i \<in> set is. i < 512"
  shows "leaf_of g t is = leaf_of f t is" and "entry_at g t is = entry_at f t is"
proof -
  show leaf: "leaf_of g t is = leaf_of f t is"
    by (rule leaf_of_cong [OF wf data_write_slot [OF wf eq a] is4])
  have "g (slot t1 i1) = f (slot t1 i1)" if "leaf_of f t is = Some (t1, i1)" for t1 i1
    using leaf_of_level [OF wf is4 that] data_write_slot [OF wf eq a] by blast
  with leaf show "entry_at g t is = entry_at f t is"
    by (auto simp: entry_at_def split: option.splits)
qed

lemma grows_take:
  assumes g: "grows r f A L f' A' L'" and a: "a \<in> A'"
    and eq: "\<And>x. remove_flag x \<noteq> a \<Longrightarrow> h x = f' x"
  shows "grows r f A L h (A' - {a}) L'"
proof (rule grows_trans [OF g])
  note inv = grows_inv [OF g]
  note wf = table_inv_wf [OF inv]
  have La: "L' a = None" using table_inv_free [OF inv a] .
  show "grows r f' A' L' h (A' - {a}) L'"
  proof (rule growsI)
    show "table_inv h (A' - {a}) r L'"
      using inv data_write_wf [OF wf eq La] by (auto simp: table_inv_def)
    show "entry_at h r is = entry_at f' r is" if "length is = 4" "\<forall>i \<in> set is. i < 512" for "is"
      using that wf_tables_root [OF wf] by (intro data_write_leaf_of(2) [OF wf eq La]) simp_all
    show "h (slot t i) = f' (slot t i)" if "L' t = Some (Suc (Suc l))" "i < 512" for t l i
      using data_write_slot [OF wf eq La that] .
    show "h x = f' x" if "remove_flag x \<notin> A'" for x
      using that a by (intro eq) auto
  qed auto
qed

section \<open>Pages and indices\<close>

lemma unat_get_index: "unat (get_index va off) = (unat va div 2 ^ off) mod 512"
proof -
  have "(0x1FF :: u64) = mask 9" by (simp add: mask_eq_exp_minus_1)
  then have "get_index va off = take_bit 9 (drop_bit off va)"
    by (simp add: get_index_def take_bit_eq_mask)
  then have "unat (get_index va off) = take_bit 9 (drop_bit off (unat va))"
    by (simp only: unsigned_take_bit_eq unat_drop_bit_eq)
  then show ?thesis by (simp add: take_bit_eq_mod drop_bit_eq_div)
qed

definition page_no :: "u64 \<Rightarrow> nat" where
  "page_no va = unat va div 4096"

lemma unat_get_index_page:
  "unat (get_index va 12) = page_no va mod 512"
  "unat (get_index va 21) = page_no va div 512 mod 512"
  "unat (get_index va 30) = page_no va div 262144 mod 512"
  "unat (get_index va 39) = page_no va div 134217728 mod 512"
  by (simp_all add: unat_get_index page_no_def div_mult2_eq [symmetric])

lemma digit_eq_iff:
  fixes a b c d :: nat
  assumes "a < 512" "c < 512"
  shows "a + 512 * b = c + 512 * d \<longleftrightarrow> a = c \<and> b = d"
proof
  assume eq: "a + 512 * b = c + 512 * d"
  then have "(a + 512 * b) mod 512 = (c + 512 * d) mod 512" by simp
  with assms have "a = c" by simp
  with eq show "a = c \<and> b = d" by simp
qed simp

lemma page_digits:
  fixes k :: nat
  shows "k mod 68719476736 =
    k mod 512 + 512 * (k div 512 mod 512 + 512 * (k div 262144 mod 512 + 512 * (k div 134217728 mod 512)))"
proof -
  have "k mod 68719476736 = k mod 512 + 512 * (k div 512 mod 134217728)"
    using mod_mult2_eq [of k 512 134217728] by simp
  also have "k div 512 mod 134217728 = k div 512 mod 512 + 512 * (k div 262144 mod 262144)"
    using mod_mult2_eq [of "k div 512" 512 262144] by (simp add: div_mult2_eq [symmetric])
  also have "k div 262144 mod 262144 = k div 262144 mod 512 + 512 * (k div 134217728 mod 512)"
    using mod_mult2_eq [of "k div 262144" 512 512] by (simp add: div_mult2_eq [symmetric])
  finally show ?thesis .
qed

lemma digits_eq_iff:
  fixes m n :: nat
  shows "m mod 68719476736 = n mod 68719476736 \<longleftrightarrow>
    m mod 512 = n mod 512 \<and> m div 512 mod 512 = n div 512 mod 512 \<and>
    m div 262144 mod 512 = n div 262144 mod 512 \<and> m div 134217728 mod 512 = n div 134217728 mod 512"
proof -
  have "x mod 512 < 512" for x :: nat by simp
  then show ?thesis
    unfolding page_digits [of m] page_digits [of n] by (simp only: digit_eq_iff)
qed

text \<open>Two addresses have the same path exactly when they lie on the same page of the 48-bit space.\<close>

lemma indices_eq_iff:
  "indices va = indices va' \<longleftrightarrow> page_no va mod 2 ^ 36 = page_no va' mod 2 ^ 36"
  by (simp add: indices_def word_unat_eq_iff unat_get_index_page digits_eq_iff) blast

lemma leaf_of_same_region:
  assumes "leaf_of f r (indices va) = Some (t, i)" and "page_no va' div 512 = page_no va div 512"
  shows "leaf_of f r (indices va') = Some (t, get_index va' 12)"
proof -
  have "page_no va' div 262144 = page_no va div 262144" "page_no va' div 134217728 = page_no va div 134217728"
    using assms(2) div_mult2_eq [of _ 512 512] div_mult2_eq [of _ 512 262144] by simp_all
  with assms(2) have "get_index va' 21 = get_index va 21" "get_index va' 30 = get_index va 30"
    "get_index va' 39 = get_index va 39"
    by (simp_all add: word_unat_eq_iff unat_get_index_page)
  with assms(1) show ?thesis by (auto simp: indices_def split: if_splits)
qed

text \<open>Page \<open>k\<close> of the direct map.\<close>

definition direct :: "nat \<Rightarrow> u64" where
  "direct k = KERNEL_ADDR + of_nat (k * 4096)"

lemma direct_0: "direct 0 = KERNEL_ADDR"
  by (simp add: direct_def)

lemma direct_Suc: "direct (Suc k) = direct k + 0x1000"
  by (simp add: direct_def algebra_simps)

lemma page_no_direct:
  assumes "k < 2 ^ 19"
  shows "page_no (direct k) = 2 ^ 52 - 2 ^ 19 + k"
proof -
  have "unat (of_nat (k * 4096) :: u64) = k * 4096"
    using assms by (intro unat_of_nat64) simp
  then have "unat (direct k) = 18446744071562067968 + k * 4096"
    using assms unfolding direct_def by (simp add: unat_word_ariths(1) del: of_nat_mult)
  then show ?thesis by (simp add: page_no_def)
qed

lemma direct_mod:
  fixes k :: nat
  assumes "k < 2 ^ 19"
  shows "(2 ^ 52 - 2 ^ 19 + k) mod 2 ^ 36 = 2 ^ 36 - 2 ^ 19 + k"
proof -
  have "(2 ^ 52 - 2 ^ 19 + k) = (68718952448 + k) + 65535 * 2 ^ 36" by simp
  then have "(2 ^ 52 - 2 ^ 19 + k) mod 2 ^ 36 = (68718952448 + k) mod 2 ^ 36"
    by (simp only: mod_mult_self1)
  with assms show ?thesis by simp
qed

lemma indices_direct_eq:
  "j < 2 ^ 19 \<Longrightarrow> k < 2 ^ 19 \<Longrightarrow> indices (direct j) = indices (direct k) \<longleftrightarrow> j = k"
  unfolding indices_eq_iff by (simp only: page_no_direct direct_mod) simp

lemma direct_region:
  assumes "j < 2 ^ 19" "k < 2 ^ 19" "j div 512 = k div 512"
  shows "page_no (direct j) div 512 = page_no (direct k) div 512"
proof -
  have "(2 ^ 52 - 2 ^ 19 + n) div 512 = 8796093021184 + n div 512" for n :: nat
    using div_mult_self1 [of 512 n 8796093021184] by simp
  with assms show ?thesis by (simp only: page_no_direct)
qed

end
