(* ===== verification/PageMap.thy ===== *)
theory PageMap
  imports PageTree
begin

text \<open>
  The mapping routines of \<^verbatim>\<open>sys/paging.c\<close>: \<open>map_virt_to_phys_addr\<close>, used before paging is
  on, with physical table pointers, and \<open>map_phys_to_virt_addr\<close>, used afterwards, with
  pointers into the kernel's direct map. Both refine the update of one page of the function a
  table tree means.
\<close>

unbundle bit_operations_syntax

section \<open>Mapping with physical pointers\<close>

text \<open>
  One level of \<open>map_virt_to_phys_addr\<close>: follow the entry if it is present, else allocate and
  install a table. The three levels of the function are three copies of this block.
\<close>

definition level_phys :: "u64 \<Rightarrow> u64 \<Rightarrow> 'a paging_scheme \<Rightarrow> 'a paging_scheme \<times> u64" where
  "level_phys table idx st =
     (let entry = pm st (slot table idx)
      in if present entry then (st, remove_flag entry)
         else
           (let (st, new) = allocate_page st
            in (st\<lparr>pm := (pm st)(slot table idx := new OR (PT_PR OR PT_WR))\<rparr>, new)))"

definition map_virt_to_phys_addr :: "u64 \<Rightarrow> u64 \<Rightarrow> 'a paging_scheme \<Rightarrow> 'a paging_scheme" where
  "map_virt_to_phys_addr vAddress phys st =
     (let pml4_index = get_index vAddress PML4_INDEX;
          pdpt_index = get_index vAddress PDPT_INDEX;
          pd_index = get_index vAddress PD_INDEX;
          pt_index = get_index vAddress PT_INDEX;
          (st, p) = level_phys (g_pml4 st) pml4_index st;
          st = st\<lparr>g_pdpt := p\<rparr>;
          (st, p) = level_phys (g_pdpt st) pdpt_index st;
          st = st\<lparr>g_pd := p\<rparr>;
          (st, p) = level_phys (g_pd st) pd_index st;
          st = st\<lparr>g_pt := p\<rparr>
      in st\<lparr>pm := (pm st)(slot (g_pt st) pt_index := phys OR (PT_PR OR PT_WR))\<rparr>)"

section \<open>Mapping through the direct map\<close>

definition rd :: "'a paging_scheme \<Rightarrow> u64 \<Rightarrow> u64" where
  "rd st va = pm st (kphys va)"

definition wr :: "u64 \<Rightarrow> u64 \<Rightarrow> 'a paging_scheme \<Rightarrow> 'a paging_scheme" where
  "wr va v st = st\<lparr>pm := (pm st)(kphys va := v)\<rparr>"

definition memset_page :: "u64 \<Rightarrow> 'a paging_scheme \<Rightarrow> 'a paging_scheme" where
  "memset_page va st = st\<lparr>pm := clear_page (pm st) (kphys va)\<rparr>"

definition level_virt ::
  "u64 \<Rightarrow> u64 \<Rightarrow> u64 \<Rightarrow> 'a paging_scheme \<Rightarrow> 'a paging_scheme \<times> u64" where
  "level_virt flags table idx st =
     (let entry = rd st (slot table idx)
      in if present entry then (st, kaddr (remove_flag entry))
         else
           (let (st, new) = allocate_virt_page st;
                virt_page = kaddr new;
                st = memset_page virt_page st;
                st = wr (slot table idx) (new OR flags) st
            in (st, kaddr new)))"

definition map_phys_to_virt_addr :: "u64 \<Rightarrow> u64 \<Rightarrow> 'a paging_scheme \<Rightarrow> 'a paging_scheme" where
  "map_phys_to_virt_addr vAddress phys st =
     (let pml4_index = drop_bit PML4_INDEX vAddress AND 0x1FF;
          pdpt_index = drop_bit PDPT_INDEX vAddress AND 0x1FF;
          pd_index = drop_bit PD_INDEX vAddress AND 0x1FF;
          pt_index = drop_bit PT_INDEX vAddress AND 0x1FF;
          st = st\<lparr>g_pml4 := reg_cr3 st\<rparr>;
          st = st\<lparr>g_pml4 := kaddr (g_pml4 st)\<rparr>;
          (st, p) = level_virt (PT_PR OR PT_WR) (g_pml4 st) pml4_index st;
          st = st\<lparr>g_pdpt := p\<rparr>;
          (st, p) = level_virt (PT_PR OR PT_WR) (g_pdpt st) pdpt_index st;
          st = st\<lparr>g_pd := p\<rparr>;
          (st, p) = level_virt (PT_PR OR PT_WR) (g_pd st) pd_index st;
          st = st\<lparr>g_pt := p\<rparr>
      in wr (slot (g_pt st) pt_index) (phys OR (PT_PR OR PT_WR)) st)"
section \<open>One level\<close>

text \<open>
  The step both mapping routines repeat, on physical table addresses: \<open>level_phys\<close> is the
  instance with \<open>flags = PT_PR | PT_WR\<close>, and \<open>level_virt\<close> is the same step seen through the
  direct map.
\<close>

definition ensure_level ::
  "u64 \<Rightarrow> u64 \<Rightarrow> u64 \<Rightarrow> 'a paging_scheme \<Rightarrow> 'a paging_scheme \<times> u64" where
  "ensure_level flags t i st =
     (if present (pm st (slot t i)) then (st, remove_flag (pm st (slot t i)))
      else
        (let (st, new) = allocate_virt_page st
         in (st\<lparr>pm := (clear_page (pm st) new)(slot t i := new OR flags)\<rparr>, new)))"
lemma level_phys_eq:
  "level_phys t i st = ensure_level (PT_PR OR PT_WR) t i st"
proof (cases "present (pm st (slot t i))")
  case False
  obtain st' a where "allocate_virt_page st = (st', a)" by fastforce
  then have "allocate_page st = (st'\<lparr>pm := clear_page (pm st') a\<rparr>, a)"
    by (auto simp: allocate_page_def allocate_virt_page_def Let_def)
  with False \<open>allocate_virt_page st = (st', a)\<close> show ?thesis
    by (simp add: level_phys_def ensure_level_def Let_def)
qed (simp add: level_phys_def ensure_level_def Let_def)
lemma level_virt_eq:
  assumes "unat t < 2 ^ 26" and "\<not> present (pm st (slot t i)) \<Longrightarrow> avail st \<noteq> {}"
  shows "level_virt fl (kaddr t) i st = (let (st', c) = ensure_level fl t i st in (st', kaddr c))"
proof (cases "present (pm st (slot t i))")
  case False
  obtain st' a where a: "allocate_virt_page st = (st', a)" by fastforce
  with assms(2) [OF False] have "a \<in> avail st" by (rule allocate_virt_page_avail)
  then have "unat a < 2 ^ 26" by (simp add: avail_def)
  with assms(1) False a show ?thesis
    by (simp add: level_virt_def ensure_level_def Let_def rd_def wr_def memset_page_def addr_simps)
qed (use assms(1) in \<open>simp add: level_virt_def ensure_level_def Let_def rd_def addr_simps\<close>)
lemma ensure_level_grows:
  assumes inv: "table_inv (pm st) (avail st) r L"
    and t: "L t = Some (Suc (Suc l))" "i < 512" "is_flags fl" and ne: "avail st \<noteq> {}"
    and e: "ensure_level fl t i st = (st', c)"
  obtains L' where "grows r (pm st) (avail st) L (pm st') (avail st') L'" "L' c = Some (Suc l)"
    "present (pm st' (slot t i))" "remove_flag (pm st' (slot t i)) = c"
    "card (avail st) \<le> Suc (card (avail st'))"
proof (cases "present (pm st (slot t i))")
  case True
  with e have "st' = st" "c = remove_flag (pm st (slot t i))" by (auto simp: ensure_level_def)
  with True inv t show ?thesis
    by (intro that [of L]) (auto simp: grows_refl table_inv_def wf_tables_child)
next
  case False
  obtain s a where a: "allocate_virt_page st = (s, a)" by fastforce
  note alloc = allocate_virt_page_avail [OF ne a]
  have pm_s: "pm s = pm st"
    by (subst alloc(4)) simp
  from False a e have st': "st' = s\<lparr>pm := install (pm st) t i a fl\<rparr>" "c = a"
    by (auto simp: ensure_level_def install_def pm_s)
  from inv alloc(1) have "L a = None" by (auto simp: table_inv_def)
  with alloc(1) inv t False have c: "can_install (pm st) r L t l i a fl"
    by (simp add: can_install_def table_inv_def avail_def)
  have "avail st' = avail st - {a}" using alloc(3) st' by simp
  moreover from this alloc(1) have "card (avail st) = Suc (card (avail st'))"
    by (metis card.remove finite_avail)
  moreover have "grows r (pm st) (avail st) L (pm st') (avail st - {a}) (L(a \<mapsto> Suc l))"
    using install_grows [OF c alloc(1)] inv st' by (simp add: table_inv_def)
  ultimately show ?thesis
    using st' install_new [OF c] by (intro that [of "L(a \<mapsto> Suc l)"]) auto
qed

section \<open>The path to a leaf table\<close>

definition ensure_path ::
  "u64 \<Rightarrow> u64 \<Rightarrow> u64 \<Rightarrow> 'a paging_scheme \<Rightarrow> 'a paging_scheme \<times> u64 \<times> u64 \<times> u64" where
  "ensure_path fl r va st =
     (let (st, p) = ensure_level fl r (get_index va 39) st;
          (st, q) = ensure_level fl p (get_index va 30) st;
          (st, t) = ensure_level fl q (get_index va 21) st
      in (st, p, q, t))"

lemma ensure_path_cases:
  assumes "ensure_path fl r va st = (st', p, q, t)"
  obtains s1 s2 where "ensure_level fl r (get_index va 39) st = (s1, p)"
    "ensure_level fl p (get_index va 30) s1 = (s2, q)" "ensure_level fl q (get_index va 21) s2 = (st', t)"
proof -
  obtain s1 p1 where e1: "ensure_level fl r (get_index va 39) st = (s1, p1)" by fastforce
  obtain s2 q1 where e2: "ensure_level fl p1 (get_index va 30) s1 = (s2, q1)" by fastforce
  obtain s3 t1 where e3: "ensure_level fl q1 (get_index va 21) s2 = (s3, t1)" by fastforce
  from assms have "s3 = st'" "p1 = p" "q1 = q" "t1 = t"
    unfolding ensure_path_def by (simp_all add: e1 e2 e3)
  with e1 e2 e3 that show ?thesis by simp
qed

lemma ensure_path_grows:
  assumes inv: "table_inv (pm st) (avail st) r L" and fl: "is_flags fl" and n: "3 \<le> card (avail st)"
    and e: "ensure_path fl r va st = (st', p, q, t)"
  obtains L' where "grows r (pm st) (avail st) L (pm st') (avail st') L'" "L' t = Some 1"
    "leaf_of (pm st') r (indices va) = Some (t, get_index va 12)"
    "card (avail st) \<le> card (avail st') + 3" "L' p = Some 3" "L' q = Some 2"
    "\<And>s1 s2. ensure_level fl r (get_index va 39) st = (s1, p) \<Longrightarrow>
       ensure_level fl p (get_index va 30) s1 = (s2, q) \<Longrightarrow> avail s1 \<noteq> {} \<and> avail s2 \<noteq> {}"
proof -
  from wf_tables_root [OF table_inv_wf [OF inv]] have r: "L r = Some (Suc (Suc 2))"
    by simp
  obtain s1 s2 where e1: "ensure_level fl r (get_index va 39) st = (s1, p)"
    and e2: "ensure_level fl p (get_index va 30) s1 = (s2, q)"
    and e3: "ensure_level fl q (get_index va 21) s2 = (st', t)"
    using e by (rule ensure_path_cases)
  have ne0: "avail st \<noteq> {}" using n by auto
  obtain L1 where g1: "grows r (pm st) (avail st) L (pm s1) (avail s1) L1" "L1 p = Some (Suc (Suc 1))"
      "present (pm s1 (slot r (get_index va 39)))" "remove_flag (pm s1 (slot r (get_index va 39))) = p"
    and n1: "card (avail st) \<le> Suc (card (avail s1))"
    by (rule ensure_level_grows [OF inv r get_index_less fl ne0 e1]) (simp add: numeral_2_eq_2)
  have ne1: "avail s1 \<noteq> {}" using n n1 by auto
  obtain L2 where g2: "grows r (pm s1) (avail s1) L1 (pm s2) (avail s2) L2" "L2 q = Some (Suc (Suc 0))"
      "present (pm s2 (slot p (get_index va 30)))" "remove_flag (pm s2 (slot p (get_index va 30))) = q"
    and n2: "card (avail s1) \<le> Suc (card (avail s2))"
    by (rule ensure_level_grows [OF grows_inv [OF g1(1)] g1(2) get_index_less fl ne1 e2]) simp
  have ne2: "avail s2 \<noteq> {}" using n n1 n2 by auto
  obtain L3 where g3: "grows r (pm s2) (avail s2) L2 (pm st') (avail st') L3" "L3 t = Some (Suc 0)"
      "present (pm st' (slot q (get_index va 21)))" "remove_flag (pm st' (slot q (get_index va 21))) = t"
    and n3: "card (avail s2) \<le> Suc (card (avail st'))"
    by (rule ensure_level_grows [OF grows_inv [OF g2(1)] g2(2) get_index_less fl ne2 e3]) simp
  have r1: "L1 r = Some (Suc (Suc 2))" and r2: "L2 r = Some (Suc (Suc 2))" and p2: "L2 p = Some (Suc (Suc 1))"
    using grows_level [OF g1(1) r] grows_level [OF g2(1) grows_level [OF g1(1) r]]
      grows_level [OF g2(1) g1(2)] .
  have keep1: "pm s2 (slot r (get_index va 39)) = pm s1 (slot r (get_index va 39))"
    by (rule grows_entry [OF g2(1) r1 get_index_less g1(3)])
  have keep2: "pm st' (slot r (get_index va 39)) = pm s2 (slot r (get_index va 39))"
    by (rule grows_entry [OF g3(1) r2 get_index_less]) (simp add: keep1 g1(3))
  have keep3: "pm st' (slot p (get_index va 30)) = pm s2 (slot p (get_index va 30))"
    by (rule grows_entry [OF g3(1) p2 get_index_less g2(3)])
  show ?thesis
  proof (rule that)
    show "grows r (pm st) (avail st) L (pm st') (avail st') L3"
      using grows_trans [OF grows_trans [OF g1(1) g2(1)] g3(1)] .
    show "L3 t = Some 1" "L3 p = Some 3" "L3 q = Some 2"
      using g3(2) grows_level [OF g3(1) p2] grows_level [OF g3(1) g2(2)] by simp_all
    show "leaf_of (pm st') r (indices va) = Some (t, get_index va 12)"
      using keep1 keep2 keep3 g1(3,4) g2(3,4) g3(3,4) by (simp add: indices_def)
    show "card (avail st) \<le> card (avail st') + 3" using n1 n2 n3 by simp
    show "avail x1 \<noteq> {} \<and> avail x2 \<noteq> {}"
      if "ensure_level fl r (get_index va 39) st = (x1, p)"
        "ensure_level fl p (get_index va 30) x1 = (x2, q)" for x1 x2
      using that e1 e2 ne1 ne2 by simp
  qed
qed
section \<open>The mapping routines\<close>

lemma ensure_level_globals [simp]:
  "ensure_level fl t i (st\<lparr>g_pml4 := x\<rparr>) = apfst (\<lambda>s. s\<lparr>g_pml4 := x\<rparr>) (ensure_level fl t i st)"
  "ensure_level fl t i (st\<lparr>g_pdpt := x\<rparr>) = apfst (\<lambda>s. s\<lparr>g_pdpt := x\<rparr>) (ensure_level fl t i st)"
  "ensure_level fl t i (st\<lparr>g_pd := x\<rparr>) = apfst (\<lambda>s. s\<lparr>g_pd := x\<rparr>) (ensure_level fl t i st)"
  by (simp_all add: ensure_level_def allocate_virt_page_def Let_def)

lemma map_virt_to_phys_addr_eq:
  "map_virt_to_phys_addr va phys st =
     (let (st', p, q, t) = ensure_path (PT_PR OR PT_WR) (g_pml4 st) va st
      in st'\<lparr>g_pdpt := p, g_pd := q, g_pt := t,
             pm := (pm st')(slot t (get_index va 12) := phys OR (PT_PR OR PT_WR))\<rparr>)"
  by (simp add: map_virt_to_phys_addr_def ensure_path_def level_phys_eq Let_def
      split: prod.splits)

lemma ensure_level_frame:
  assumes "ensure_level fl t i st = (st', c)"
  shows "st' = st\<lparr>free_map := free_map st', pm := pm st'\<rparr>"
  using assms by (auto simp: ensure_level_def allocate_virt_page_def Let_def split: if_splits)

lemma ensure_path_frame:
  assumes "ensure_path fl r va st = (st', p, q, t)"
  shows "st' = st\<lparr>free_map := free_map st', pm := pm st'\<rparr>"
proof -
  obtain s1 s2 where e1: "ensure_level fl r (get_index va 39) st = (s1, p)"
    and e2: "ensure_level fl p (get_index va 30) s1 = (s2, q)"
    and e3: "ensure_level fl q (get_index va 21) s2 = (st', t)"
    using assms by (rule ensure_path_cases)
  show ?thesis
    apply (subst ensure_level_frame [OF e3])
    apply (subst ensure_level_frame [OF e2])
    apply (subst ensure_level_frame [OF e1])
    by simp
qed

text \<open>A path that is already there costs nothing.\<close>

lemma ensure_path_present:
  assumes "leaf_of (pm st) r (indices va) = Some x"
  shows "\<exists>p q. ensure_path fl r va st = (st, p, q, fst x)"
  using assms by (auto simp: ensure_path_def ensure_level_def indices_def split: if_splits)

definition path_cost :: "(u64 \<Rightarrow> u64) \<Rightarrow> u64 \<Rightarrow> u64 \<Rightarrow> nat" where
  "path_cost f r va = (if leaf_of f r (indices va) = None then 3 else 0)"

lemma ensure_path_leaf:
  assumes inv: "table_inv (pm st) (avail st) r L" and fl: "is_flags fl"
    and n: "path_cost (pm st) r va \<le> card (avail st)" and e: "ensure_path fl r va st = (st', p, q, t)"
  obtains L' where "grows r (pm st) (avail st) L (pm st') (avail st') L'"
    "leaf_of (pm st') r (indices va) = Some (t, get_index va 12)"
    "card (avail st) \<le> card (avail st') + path_cost (pm st) r va"
proof (cases "leaf_of (pm st) r (indices va)")
  case None
  with n have "3 \<le> card (avail st)" by (simp add: path_cost_def)
  from ensure_path_grows [OF inv fl this e] that None show ?thesis
    by (metis path_cost_def)
next
  case (Some x)
  have x: "x = (fst x, get_index va 12)"
    using Some by (auto simp: indices_def split: if_splits)
  from ensure_path_present [OF Some, of fl] e have eq: "st' = st" "t = fst x" by auto
  with Some x show ?thesis
    by (intro that [of L]) (simp_all add: grows_refl [OF inv])
qed

lemma ensure_path_maps:
  assumes inv: "table_inv (pm st) (avail st) r L" and fl: "is_flags fl"
    and n: "path_cost (pm st) r va \<le> card (avail st)"
    and e: "ensure_path fl r va st = (st', p, q, t)" and v: "present v"
  obtains L' where
    "maps_page r va v (pm st) (avail st) L ((pm st')(slot t (get_index va 12) := v)) (avail st') L'"
    "card (avail st) \<le> card (avail st') + path_cost (pm st) r va"
  using ensure_path_leaf [OF inv fl n e] grows_maps_page [OF inv _ _ v] by metis

text \<open>
  \<open>map_virt_to_phys_addr\<close> refines the update of a function: the tree below the root then maps
  the page of \<open>va\<close> to \<open>phys\<close> (present and writable) and every other page as before.
\<close>

lemma map_virt_to_phys_addr_maps:
  assumes inv: "table_inv (pm st) (avail st) (g_pml4 st) L"
    and n: "path_cost (pm st) (g_pml4 st) va \<le> card (avail st)"
    and st': "st' = map_virt_to_phys_addr va phys st"
  obtains L' where
    "maps_page (g_pml4 st) va (phys OR 3) (pm st) (avail st) L (pm st') (avail st') L'"
    "card (avail st) \<le> card (avail st') + path_cost (pm st) (g_pml4 st) va"
    "g_pml4 st' = g_pml4 st"
proof -
  obtain s p q t where e: "ensure_path 3 (g_pml4 st) va st = (s, p, q, t)"
    by (metis prod_cases4)
  have v: "present (phys OR 3)" by (rule present_or) (simp add: present_def)
  have st': "st' = s\<lparr>g_pdpt := p, g_pd := q, g_pt := t, pm := (pm s)(slot t (get_index va 12) := phys OR 3)\<rparr>"
    using e by (simp add: st' map_virt_to_phys_addr_eq)
  have "g_pml4 s = g_pml4 st" by (subst ensure_path_frame [OF e]) simp
  moreover obtain L' where
    "maps_page (g_pml4 st) va (phys OR 3) (pm st) (avail st) L
       ((pm s)(slot t (get_index va 12) := phys OR 3)) (avail s) L'"
    "card (avail st) \<le> card (avail s) + path_cost (pm st) (g_pml4 st) va"
    by (rule ensure_path_maps [OF inv _ n e v]) simp_all
  ultimately show ?thesis by (intro that [of L']) (simp_all add: st')
qed

text \<open>Through the direct map, each level does what \<open>ensure_level\<close> does.\<close>

lemma level_virt_path:
  assumes inv: "table_inv (pm st) (avail st) r L" and fl: "is_flags fl"
    and n: "path_cost (pm st) r va \<le> card (avail st)"
    and e: "ensure_path fl r va st = (st', p, q, t)"
  shows "\<exists>s1 s2. level_virt fl (kaddr r) (get_index va 39) st = (s1, kaddr p) \<and>
    level_virt fl (kaddr p) (get_index va 30) s1 = (s2, kaddr q) \<and>
    level_virt fl (kaddr q) (get_index va 21) s2 = (st', kaddr t) \<and> unat t < 2 ^ 26"
proof -
  have wf: "wf_tables (pm st) r L" using inv by (rule table_inv_wf)
  have r: "L r = Some (Suc (Suc 2))" using wf_tables_root [OF wf] by simp
  obtain s1 s2 where e1: "ensure_level fl r (get_index va 39) st = (s1, p)"
    and e2: "ensure_level fl p (get_index va 30) s1 = (s2, q)"
    and e3: "ensure_level fl q (get_index va 21) s2 = (st', t)"
    using e by (rule ensure_path_cases)
  have "unat p < 2 ^ 26 \<and> unat q < 2 ^ 26 \<and> unat t < 2 ^ 26 \<and>
    (\<not> present (pm st (slot r (get_index va 39))) \<longrightarrow> avail st \<noteq> {}) \<and>
    (\<not> present (pm s1 (slot p (get_index va 30))) \<longrightarrow> avail s1 \<noteq> {}) \<and>
    (\<not> present (pm s2 (slot q (get_index va 21))) \<longrightarrow> avail s2 \<noteq> {})"
  proof (cases "leaf_of (pm st) r (indices va)")
    case None
    with n have n3: "3 \<le> card (avail st)" by (simp add: path_cost_def)
    then have "avail st \<noteq> {}" by auto
    moreover obtain L' where "grows r (pm st) (avail st) L (pm st') (avail st') L'"
      "L' t = Some 1" "L' p = Some 3" "L' q = Some 2" "avail s1 \<noteq> {} \<and> avail s2 \<noteq> {}"
      by (rule ensure_path_grows [OF inv fl n3 e]) (use e1 e2 in blast)
    ultimately show ?thesis using table_inv_wf [OF grows_inv] wf_tables_low by metis
  next
    case (Some x)
    then have p4: "present (pm st (slot r (get_index va 39)))"
      by (simp add: indices_def split: if_splits)
    with e1 have 1: "s1 = st" "p = remove_flag (pm st (slot r (get_index va 39)))"
      by (auto simp: ensure_level_def)
    from Some 1 p4 have p3: "present (pm st (slot p (get_index va 30)))"
      by (simp add: indices_def split: if_splits)
    with e2 1 have 2: "s2 = st" "q = remove_flag (pm st (slot p (get_index va 30)))"
      by (auto simp: ensure_level_def)
    from Some 1 2 p4 p3 have p2: "present (pm st (slot q (get_index va 21)))"
      by (simp add: indices_def split: if_splits)
    with e3 2 have 3: "t = remove_flag (pm st (slot q (get_index va 21)))"
      by (auto simp: ensure_level_def)
    have lp: "L p = Some (Suc (Suc 1))"
      using wf_tables_child [OF wf r get_index_less p4] 1 by (simp add: numeral_2_eq_2)
    then have lq: "L q = Some (Suc (Suc 0))"
      using wf_tables_child [OF wf lp get_index_less p3] 2 by simp
    then have "L t = Some (Suc 0)"
      using wf_tables_child [OF wf lq get_index_less p2] 3 by simp
    with lp lq 1 2 p4 p3 p2 show ?thesis using wf_tables_low [OF wf] by simp
  qed
  with e1 e2 e3 wf_tables_low [OF wf r] show ?thesis
    by (intro exI [of _ s1] exI [of _ s2]) (simp add: level_virt_eq)
qed

lemma level_virt_globals [simp]:
  "level_virt fl t i (st\<lparr>g_pml4 := x\<rparr>) = apfst (\<lambda>s. s\<lparr>g_pml4 := x\<rparr>) (level_virt fl t i st)"
  "level_virt fl t i (st\<lparr>g_pdpt := x\<rparr>) = apfst (\<lambda>s. s\<lparr>g_pdpt := x\<rparr>) (level_virt fl t i st)"
  "level_virt fl t i (st\<lparr>g_pd := x\<rparr>) = apfst (\<lambda>s. s\<lparr>g_pd := x\<rparr>) (level_virt fl t i st)"
  by (simp_all add: level_virt_def allocate_virt_page_def Let_def rd_def wr_def memset_page_def)

lemma map_phys_to_virt_addr_eq:
  assumes inv: "table_inv (pm st) (avail st) (reg_cr3 st) L"
    and n: "path_cost (pm st) (reg_cr3 st) va \<le> card (avail st)"
    and e: "ensure_path 3 (reg_cr3 st) va st = (s, p, q, t)"
  shows "map_phys_to_virt_addr va phys st =
     s\<lparr>g_pml4 := kaddr (reg_cr3 st), g_pdpt := kaddr p, g_pd := kaddr q, g_pt := kaddr t,
       pm := (pm s)(slot t (get_index va 12) := phys OR 3)\<rparr>"
proof -
  obtain s1 s2 where "level_virt 3 (kaddr (reg_cr3 st)) (get_index va 39) st = (s1, kaddr p)"
    "level_virt 3 (kaddr p) (get_index va 30) s1 = (s2, kaddr q)"
    "level_virt 3 (kaddr q) (get_index va 21) s2 = (s, kaddr t)" "unat t < 2 ^ 26"
    using level_virt_path [OF inv _ n e] by auto
  then show ?thesis
    by (simp add: map_phys_to_virt_addr_def Let_def get_index_def [symmetric] wr_def addr_simps)
qed

lemma map_phys_to_virt_addr_maps:
  assumes inv: "table_inv (pm st) (avail st) (reg_cr3 st) L"
    and n: "path_cost (pm st) (reg_cr3 st) va \<le> card (avail st)"
    and st': "st' = map_phys_to_virt_addr va phys st"
  obtains L' where
    "maps_page (reg_cr3 st) va (phys OR 3) (pm st) (avail st) L (pm st') (avail st') L'"
    "card (avail st) \<le> card (avail st') + path_cost (pm st) (reg_cr3 st) va"
    "reg_cr3 st' = reg_cr3 st"
proof -
  obtain s p q t where e: "ensure_path 3 (reg_cr3 st) va st = (s, p, q, t)"
    by (metis prod_cases4)
  have v: "present (phys OR 3)" by (rule present_or) (simp add: present_def)
  note eq = map_phys_to_virt_addr_eq [OF inv n e, of phys]
  have "reg_cr3 s = reg_cr3 st" by (subst ensure_path_frame [OF e]) simp
  moreover obtain L' where
    "maps_page (reg_cr3 st) va (phys OR 3) (pm st) (avail st) L
       ((pm s)(slot t (get_index va 12) := phys OR 3)) (avail s) L'"
    "card (avail st) \<le> card (avail s) + path_cost (pm st) (reg_cr3 st) va"
    by (rule ensure_path_maps [OF inv _ n e v]) simp_all
  ultimately show ?thesis by (intro that [of L']) (simp_all add: st' eq)
qed

section \<open>The direct map\<close>

text \<open>
  \<open>set_identity_paging\<close> maps every physical page below \<^verbatim>\<open>physfree_end\<close> at \<open>KERNEL_ADDR\<close> plus
  its address. The loop need not end for a bound near the top of the address space, so it is an
  \<open>option\<close> function; the theorem below shows that it returns. The function's last statement
  moves the pointer \<^verbatim>\<open>free_map\<close> into the direct map, where it names the same cells.
\<close>

partial_function (option) identity_loop ::
  "u64 \<Rightarrow> u64 \<Rightarrow> 'a paging_scheme \<Rightarrow> 'a paging_scheme option" where
  "identity_loop vAddr pAddr st =
     (if pAddr < physfree_end st
      then identity_loop (vAddr + 0x1000) (pAddr + 0x1000) (map_virt_to_phys_addr vAddr pAddr st)
      else Some st)"

definition set_identity_paging :: "'a paging_scheme \<Rightarrow> 'a paging_scheme option" where
  "set_identity_paging st = identity_loop KERNEL_ADDR 0 st"

lemma map_virt_to_phys_addr_frame:
  "physfree_end (map_virt_to_phys_addr va phys st) = physfree_end st"
  "reg_cr3 (map_virt_to_phys_addr va phys st) = reg_cr3 st"
proof -
  obtain s p q t where e: "ensure_path 3 (g_pml4 st) va st = (s, p, q, t)"
    by (metis prod_cases4)
  have "physfree_end s = physfree_end st" "reg_cr3 s = reg_cr3 st"
    by (subst ensure_path_frame [OF e], simp)+
  with e show "physfree_end (map_virt_to_phys_addr va phys st) = physfree_end st"
    "reg_cr3 (map_virt_to_phys_addr va phys st) = reg_cr3 st"
    by (simp_all add: map_virt_to_phys_addr_eq)
qed

text \<open>Tables needed for the pages from \<open>k\<close> up to \<open>n\<close>: at most three per 2 MiB region begun there.\<close>

definition direct_cost :: "nat \<Rightarrow> nat \<Rightarrow> nat" where
  "direct_cost k n = 3 * ((n + 511) div 512 - (k + 511) div 512)"

lemma direct_cost_step:
  assumes "k < n"
  shows "direct_cost k n = direct_cost (Suc k) n + (if k mod 512 = 0 then 3 else 0)"
proof (cases "k mod 512 = 0")
  case True
  then obtain q where "k = 512 * q" by (metis mod_0_imp_dvd dvdE)
  with assms True show ?thesis by (simp add: direct_cost_def)
next
  case False
  define q r where "q = k div 512" and "r = k mod 512"
  then have k: "k = 512 * q + r" "0 < r" "r < 512" using False by simp_all
  have "(r + 511) div 512 = 1" using k by (intro div_nat_eqI) auto
  then have "(k + 511) div 512 = q + 1" unfolding k(1)
    using div_mult_self4 [of 512 q "r + 511"] by (simp add: add.assoc)
  moreover have "(Suc k + 511) div 512 = q + 1" using k by simp
  ultimately show ?thesis using False by (simp add: direct_cost_def)
qed

lemma direct_bound:
  assumes "n = (unat pend + 4095) div 4096" "n \<le> 2 ^ 19" "k \<le> n"
  shows "(of_nat (k * 4096) :: u64) < pend \<longleftrightarrow> k < n"
proof -
  have "unat (of_nat (k * 4096) :: u64) = k * 4096"
    using assms by (intro unat_of_nat64) simp
  moreover have "k * 4096 < unat pend \<longleftrightarrow> k < n"
    using assms by auto
  ultimately show ?thesis by (simp add: word_less_nat_alt del: of_nat_mult)
qed

text \<open>Is page \<open>k\<close> the first of its region, or is the table of its region already there?\<close>

definition region_ready :: "(u64 \<Rightarrow> u64) \<Rightarrow> u64 \<Rightarrow> nat \<Rightarrow> bool" where
  "region_ready f r k \<longleftrightarrow> k mod 512 = 0 \<or> leaf_of f r (indices (direct k)) \<noteq> None"

lemma region_ready_cost: "region_ready f r k \<Longrightarrow> path_cost f r (direct k) \<le> (if k mod 512 = 0 then 3 else 0)"
  by (auto simp: region_ready_def path_cost_def)

lemma region_ready_Suc:
  assumes m: "maps_page r (direct k) e f A L f' A' L'" and k: "Suc k < 2 ^ 19"
  shows "region_ready f' r (Suc k)"
proof (cases "Suc k mod 512 = 0")
  case True
  then show ?thesis by (simp add: region_ready_def)
next
  case False
  then have "Suc k div 512 = k div 512" by (simp add: div_Suc)
  then have "page_no (direct (Suc k)) div 512 = page_no (direct k) div 512"
    using k by (intro direct_region) simp_all
  with maps_page_leaf [OF m] leaf_of_same_region show ?thesis
    unfolding region_ready_def by (metis option.distinct(1))
qed

text \<open>What the direct map of the pages from \<open>k\<close> up to \<open>n\<close> adds to the meaning of a tree.\<close>

definition directly_mapped ::
  "u64 \<Rightarrow> nat \<Rightarrow> nat \<Rightarrow> (u64 \<Rightarrow> u64) \<Rightarrow> (u64 \<Rightarrow> u64) \<Rightarrow> bool" where
  "directly_mapped r k n f f' \<longleftrightarrow>
     (\<forall>j. k \<le> j \<and> j < n \<longrightarrow> translate f' r (direct j) = Some (of_nat (j * 4096) OR 3)) \<and>
     (\<forall>va. (\<forall>j. k \<le> j \<and> j < n \<longrightarrow> indices va \<noteq> indices (direct j)) \<longrightarrow>
        translate f' r va = translate f r va)"

lemma directly_mapped_step:
  assumes m: "maps_page r (direct k) (of_nat (k * 4096) OR 3) f A L f1 A1 L1"
    and k: "k < n" "n \<le> 2 ^ 19" and d: "directly_mapped r (Suc k) n f1 f'"
  shows "directly_mapped r k n f f'"
  unfolding directly_mapped_def
proof (intro conjI allI impI)
  fix j assume j: "k \<le> j \<and> j < n"
  show "translate f' r (direct j) = Some (of_nat (j * 4096) OR 3)"
  proof (cases "j = k")
    case True
    have "\<forall>j. Suc k \<le> j \<and> j < n \<longrightarrow> indices (direct k) \<noteq> indices (direct j)"
      using k by (auto simp: indices_direct_eq)
    then have "translate f' r (direct k) = translate f1 r (direct k)"
      using d unfolding directly_mapped_def by blast
    with maps_page_translate [OF m, of "direct k"] True show ?thesis by simp
  next
    case False
    with j have "Suc k \<le> j \<and> j < n" by simp
    with d show ?thesis unfolding directly_mapped_def by blast
  qed
next
  fix va assume va: "\<forall>j. k \<le> j \<and> j < n \<longrightarrow> indices va \<noteq> indices (direct j)"
  then have "\<forall>j. Suc k \<le> j \<and> j < n \<longrightarrow> indices va \<noteq> indices (direct j)" "indices va \<noteq> indices (direct k)"
    using k by simp_all
  with d maps_page_translate [OF m, of va] show "translate f' r va = translate f r va"
    unfolding directly_mapped_def by simp
qed

lemma identity_loop_maps:
  assumes "table_inv (pm st) (avail st) (g_pml4 st) L" and "n \<le> 2 ^ 19"
    and "n = (unat (physfree_end st) + 4095) div 4096"
    and "k \<le> n" and "direct_cost k n \<le> card (avail st)" and "k < n \<longrightarrow> region_ready (pm st) (g_pml4 st) k"
  shows "\<exists>st' L'. identity_loop (direct k) (of_nat (k * 4096)) st = Some st' \<and>
     table_inv (pm st') (avail st') (g_pml4 st) L' \<and> g_pml4 st' = g_pml4 st \<and>
     directly_mapped (g_pml4 st) k n (pm st) (pm st')"
  using assms
proof (induction "n - k" arbitrary: k st L)
  case 0
  with direct_bound [OF 0(4,3), of k] have "\<not> of_nat (k * 4096) < physfree_end st" "k = n" by simp_all
  with 0 show ?case
    by (subst identity_loop.simps) (auto simp: directly_mapped_def)
next
  case (Suc d)
  let ?r = "g_pml4 st"
  define st1 where "st1 = map_virt_to_phys_addr (direct k) (of_nat (k * 4096)) st"
  from Suc.hyps(2) have k: "k < n" by simp
  have "of_nat (k * 4096) < physfree_end st"
    using direct_bound [OF Suc.prems(3,2), of k] k by simp
  then have step: "identity_loop (direct k) (of_nat (k * 4096)) st =
      identity_loop (direct (Suc k)) (of_nat (Suc k * 4096)) st1"
    unfolding st1_def by (subst identity_loop.simps) (simp add: direct_Suc algebra_simps)
  have pc: "path_cost (pm st) ?r (direct k) \<le> (if k mod 512 = 0 then 3 else 0)"
    using Suc.prems(6) k by (simp add: region_ready_cost)
  note cost = direct_cost_step [OF k]
  have afford: "path_cost (pm st) ?r (direct k) \<le> card (avail st)"
    using pc cost Suc.prems(5) by simp
  obtain L1 where m: "maps_page ?r (direct k) (of_nat (k * 4096) OR 3) (pm st) (avail st) L (pm st1) (avail st1) L1"
    and c1: "card (avail st) \<le> card (avail st1) + path_cost (pm st) ?r (direct k)"
    and r1: "g_pml4 st1 = ?r"
    by (rule map_virt_to_phys_addr_maps [OF Suc.prems(1) afford st1_def])
  have "\<exists>st' L'. identity_loop (direct (Suc k)) (of_nat (Suc k * 4096)) st1 = Some st' \<and>
     table_inv (pm st') (avail st') (g_pml4 st1) L' \<and> g_pml4 st' = g_pml4 st1 \<and>
     directly_mapped (g_pml4 st1) (Suc k) n (pm st1) (pm st')"
  proof (rule Suc.hyps(1))
    show "d = n - Suc k" using Suc.hyps(2) by simp
    show "table_inv (pm st1) (avail st1) (g_pml4 st1) L1" using maps_page_inv [OF m] r1 by simp
    show "n = (unat (physfree_end st1) + 4095) div 4096"
      using Suc.prems(3) by (simp add: st1_def map_virt_to_phys_addr_frame)
    show "Suc k \<le> n" using k by simp
    show "direct_cost (Suc k) n \<le> card (avail st1)" using pc cost c1 Suc.prems(5) by simp
    show "Suc k < n \<longrightarrow> region_ready (pm st1) (g_pml4 st1) (Suc k)"
      using region_ready_Suc [OF m] Suc.prems(2) r1 by simp
  qed (rule Suc.prems(2))
  then show ?case
    unfolding r1 using step directly_mapped_step [OF m k Suc.prems(2)] by auto
qed

end
