(* ===== verification/AddrSpace.thy ===== *)
theory AddrSpace
  imports PageMap
begin

text \<open>
  Address spaces, from \<^verbatim>\<open>sys/paging.c\<close>: creating a user address space that shares the kernel's
  half, mapping a private copy of a frame into it, the software page-table walks
  (\<open>virt_to_phys\<close>, \<open>free_page\<close>, \<open>free_kernel_page\<close>) and the kernel heap \<open>kmalloc\<close>.
\<close>

unbundle bit_operations_syntax

section \<open>Definitions\<close>

text \<open>\<^verbatim>\<open>memcpy(src, dst, PAGE_SIZE)\<close> between two pages, through kernel pointers.\<close>

definition memcpy_page :: "u64 \<Rightarrow> u64 \<Rightarrow> 'a paging_scheme \<Rightarrow> 'a paging_scheme" where
  "memcpy_page src dst st =
     st\<lparr>pm := (\<lambda>x. if remove_flag x = kphys dst then pm st (x - kphys dst + kphys src) else pm st x)\<rparr>"

definition map_phys_to_user_virt_addr ::
  "u64 \<Rightarrow> u64 \<Rightarrow> u64 \<Rightarrow> 'a paging_scheme \<Rightarrow> 'a paging_scheme" where
  "map_phys_to_user_virt_addr vAddress phys cr3_addr st =
     (let pml4_index = drop_bit PML4_INDEX vAddress AND 0x1FF;
          pdpt_index = drop_bit PDPT_INDEX vAddress AND 0x1FF;
          pd_index = drop_bit PD_INDEX vAddress AND 0x1FF;
          pt_index = drop_bit PT_INDEX vAddress AND 0x1FF;
          cr3_addr = kaddr cr3_addr;
          (st, p) = level_virt (PT_PR OR PT_WR OR PT_U) cr3_addr pml4_index st;
          st = st\<lparr>g_pdpt := p\<rparr>;
          (st, p) = level_virt (PT_PR OR PT_WR OR PT_U) (g_pdpt st) pdpt_index st;
          st = st\<lparr>g_pd := p\<rparr>;
          (st, p) = level_virt (PT_PR OR PT_WR OR PT_U) (g_pd st) pd_index st;
          st = st\<lparr>g_pt := p\<rparr>;
          (st, page_addr) = allocate_virt_page st;
          virt_page_addr = kaddr page_addr;
          st = memset_page virt_page_addr st;
          physical = kaddr phys;
          st = memcpy_page physical virt_page_addr st
      in wr (slot (g_pt st) pt_index) (page_addr OR (PT_PR OR PT_WR OR PT_U)) st)"

definition create_user_address_space :: "'a paging_scheme \<Rightarrow> 'a paging_scheme \<times> u64" where
  "create_user_address_space st =
     (let (st, pml4_addr) = allocate_virt_page st;
          st = st\<lparr>virt_addr := kaddr pml4_addr\<rparr>;
          st = map_phys_to_virt_addr (virt_addr st) pml4_addr st;
          st = memset_page (virt_addr st) st;
          cr3_addr = reg_cr3 st;
          pml4_virt_addr = virt_addr st;
          cr3_addr = kaddr cr3_addr;
          st = wr (slot pml4_virt_addr 511) (rd st (slot cr3_addr 511)) st
      in (st, pml4_addr))"

text \<open>\<^verbatim>\<open>kmalloc\<close>: one frame per page of the request, each mapped at its direct-map address and cleared.\<close>

fun kmalloc_loop :: "nat \<Rightarrow> nat \<Rightarrow> u64 \<Rightarrow> 'a paging_scheme \<Rightarrow> 'a paging_scheme \<times> u64" where
  "kmalloc_loop 0 i ret_addr st = (st, ret_addr)"
| "kmalloc_loop (Suc n) i ret_addr st =
     (let (st, page_addr) = allocate_virt_page st;
          st = st\<lparr>virt_addr := kaddr page_addr\<rparr>;
          ret_addr = (if i = 0 then virt_addr st else ret_addr);
          st = map_phys_to_virt_addr (virt_addr st) page_addr st;
          st = memset_page (virt_addr st) st
      in kmalloc_loop n (Suc i) ret_addr st)"

definition num_pages :: "cint \<Rightarrow> cint" where
  "num_pages sz = (if sz smod 4096 = 0 then sz sdiv 4096 else i32 (sz sdiv 4096 + 1))"

definition kmalloc :: "cint \<Rightarrow> 'a paging_scheme \<Rightarrow> 'a paging_scheme \<times> u64" where
  "kmalloc sz st = kmalloc_loop (nat (num_pages sz)) 0 0 st"

text \<open>The software walks. A leaf with bit 9 set is a page shared by \<^verbatim>\<open>fork\<close> (copy on write).\<close>

abbreviation (input) COW :: u64 where "COW \<equiv> 0x200"

definition virt_to_phys :: "u64 \<Rightarrow> 'a paging_scheme \<Rightarrow> u64" where
  "virt_to_phys vAddress st =
     (let pml4 = kaddr (reg_cr3 st);
          table_entry = rd st (slot pml4 (get_index vAddress PML4_INDEX))
      in if present table_entry then
           (let pdpt = kaddr (remove_flag table_entry);
                table_entry = rd st (slot pdpt (get_index vAddress PDPT_INDEX))
            in if present table_entry then
                 (let pd = kaddr (remove_flag table_entry);
                      table_entry = rd st (slot pd (get_index vAddress PD_INDEX))
                  in if present table_entry then
                       (let pt = kaddr (remove_flag table_entry);
                            table_entry = rd st (slot pt (get_index vAddress PT_INDEX))
                        in if table_entry AND COW \<noteq> 0 \<and> present table_entry then remove_flag table_entry
                           else if present table_entry then 999
                           else 0)
                     else 0)
               else 0)
         else 0)"

definition free_page :: "u64 \<Rightarrow> u64 \<Rightarrow> 'a paging_scheme \<Rightarrow> 'a paging_scheme" where
  "free_page vAddress cr3_addr st =
     (let vAddress = remove_flag vAddress;
          pml4 = kaddr cr3_addr;
          table_entry = rd st (slot pml4 (get_index vAddress PML4_INDEX))
      in if present table_entry \<and> table_entry AND COW = 0 then
           (let pdpt = kaddr (remove_flag table_entry);
                table_entry = rd st (slot pdpt (get_index vAddress PDPT_INDEX))
            in if present table_entry \<and> table_entry AND COW = 0 then
                 (let pd = kaddr (remove_flag table_entry);
                      table_entry = rd st (slot pd (get_index vAddress PD_INDEX))
                  in if present table_entry \<and> table_entry AND COW = 0 then
                       (let pt = kaddr (remove_flag table_entry);
                            pt_index = get_index vAddress PT_INDEX;
                            table_entry = rd st (slot pt pt_index)
                        in if table_entry AND COW = 0 \<and> present table_entry \<and> table_entry < 0x989680 then
                             (let table_entry = remove_flag table_entry;
                                  st = st\<lparr>free_map := kset_bit (free_map st) (table_entry div PAGE_SIZE)\<rparr>;
                                  st = wr (slot pt pt_index) 0 st
                              in memset_page (kaddr table_entry) st)
                           else st)
                     else st)
               else st)
         else st)"

definition free_kernel_page :: "u64 \<Rightarrow> 'a paging_scheme \<Rightarrow> 'a paging_scheme" where
  "free_kernel_page vAddress st =
     (let pml4 = kaddr (reg_cr3 st);
          table_entry = rd st (slot pml4 (get_index vAddress PML4_INDEX))
      in if present table_entry then
           (let pdpt = kaddr (remove_flag table_entry);
                table_entry = rd st (slot pdpt (get_index vAddress PDPT_INDEX))
            in if present table_entry then
                 (let pd = kaddr (remove_flag table_entry);
                      table_entry = rd st (slot pd (get_index vAddress PD_INDEX))
                  in if present table_entry then
                       (let pt = kaddr (remove_flag table_entry);
                            pt_index = get_index vAddress PT_INDEX;
                            table_entry = rd st (slot pt pt_index)
                        in if present table_entry then
                             (let table_entry = remove_flag table_entry;
                                  st = st\<lparr>free_map := kset_bit (free_map st) (table_entry div PAGE_SIZE)\<rparr>;
                                  st = wr (slot pt pt_index) 0 st
                              in memset_page (kaddr table_entry) st)
                           else st)
                     else st)
               else st)
         else st)"

section \<open>The software walk\<close>

text \<open>Below a well-formed root, a kernel pointer read of a table slot is a read of physical memory.\<close>

lemma rd_slot: "wf_tables (pm st) r L \<Longrightarrow> L t = Some l \<Longrightarrow> rd st (slot (kaddr t) i) = pm st (slot t i)"
  using wf_tables_low [of "pm st" r L t l] by (simp add: rd_def addr_simps)

lemma leaf_of_cases:
  assumes wf: "wf_tables f r L"
  obtains (no4) "\<not> present (f (slot r (get_index va 39)))" "leaf_of f r (indices va) = None"
  | (no3) p where "present (f (slot r (get_index va 39)))" "p = remove_flag (f (slot r (get_index va 39)))"
      "L p = Some 3" "\<not> present (f (slot p (get_index va 30)))" "leaf_of f r (indices va) = None"
  | (no2) p q where "present (f (slot r (get_index va 39)))" "p = remove_flag (f (slot r (get_index va 39)))"
      "L p = Some 3" "present (f (slot p (get_index va 30)))" "q = remove_flag (f (slot p (get_index va 30)))"
      "L q = Some 2" "\<not> present (f (slot q (get_index va 21)))" "leaf_of f r (indices va) = None"
  | (leaf) p q t where "present (f (slot r (get_index va 39)))" "p = remove_flag (f (slot r (get_index va 39)))"
      "L p = Some 3" "present (f (slot p (get_index va 30)))" "q = remove_flag (f (slot p (get_index va 30)))"
      "L q = Some 2" "present (f (slot q (get_index va 21)))" "t = remove_flag (f (slot q (get_index va 21)))"
      "L t = Some 1" "leaf_of f r (indices va) = Some (t, get_index va 12)"
proof (cases "present (f (slot r (get_index va 39)))")
  case False
  with no4 show ?thesis by (simp add: indices_def)
next
  case p4: True
  let ?p = "remove_flag (f (slot r (get_index va 39)))"
  have r: "L r = Some (Suc (Suc 2))" using wf_tables_root [OF wf] by simp
  have p: "L ?p = Some (Suc (Suc 1))"
    using wf_tables_child [OF wf r get_index_less p4] by (simp add: numeral_2_eq_2)
  show ?thesis
  proof (cases "present (f (slot ?p (get_index va 30)))")
    case False
    with no3 p4 p show ?thesis by (simp add: indices_def)
  next
    case p3: True
    let ?q = "remove_flag (f (slot ?p (get_index va 30)))"
    have q: "L ?q = Some (Suc (Suc 0))"
      using wf_tables_child [OF wf p get_index_less p3] by simp
    show ?thesis
    proof (cases "present (f (slot ?q (get_index va 21)))")
      case False
      with no2 p4 p p3 q show ?thesis by (simp add: indices_def)
    next
      case p2: True
      from wf_tables_child [OF wf q get_index_less p2] leaf p4 p p3 q p2 show ?thesis
        by (simp add: indices_def)
    qed
  qed
qed

lemma virt_to_phys_eq:
  assumes inv: "table_inv (pm st) (avail st) (reg_cr3 st) L"
  shows "virt_to_phys va st =
    (case translate (pm st) (reg_cr3 st) va of None \<Rightarrow> 0
     | Some e \<Rightarrow> if e AND COW \<noteq> 0 then remove_flag e else 999)"
proof -
  note wf = table_inv_wf [OF inv]
  note root = rd_slot [OF wf wf_tables_root [OF wf]]
  show ?thesis
    by (cases rule: leaf_of_cases [OF wf, of va])
      (auto simp: virt_to_phys_def Let_def root rd_slot [OF wf] translate_def entry_at_def)
qed

section \<open>Mapping a private copy\<close>

lemma allocate_virt_page_globals [simp]:
  "allocate_virt_page (st\<lparr>g_pdpt := x\<rparr>) = apfst (\<lambda>s. s\<lparr>g_pdpt := x\<rparr>) (allocate_virt_page st)"
  "allocate_virt_page (st\<lparr>g_pd := x\<rparr>) = apfst (\<lambda>s. s\<lparr>g_pd := x\<rparr>) (allocate_virt_page st)"
  "allocate_virt_page (st\<lparr>g_pt := x\<rparr>) = apfst (\<lambda>s. s\<lparr>g_pt := x\<rparr>) (allocate_virt_page st)"
  by (simp_all add: allocate_virt_page_def Let_def)

lemma remove_flag_shift:
  assumes "remove_flag x = a" "page_aligned b"
  shows "remove_flag (x - a + b) = b"
proof -
  have "x - a + b = b + (x AND mask 12)"
    using remove_flag_plus_low [of x] assms(1) by (metis add.commute add_diff_cancel_left')
  moreover have "b + (x AND mask 12) = b OR (x AND mask 12)"
  proof (rule disjunctive_add_eq_or)
    have "b AND NOT (mask 12) = b"
      using assms(2) unfolding page_aligned_iff_remove_flag remove_flag_def page_mask_eq by simp
    then show "b AND (x AND mask 12) = 0"
      by (auto simp: bit_eq_iff bit_simps)
  qed
  moreover have "x AND mask 12 < 4096"
    by (simp add: word_less_nat_alt unat_low12)
  ultimately show ?thesis
    using assms(2) remove_flag_or by simp
qed

text \<open>Clearing the frame \<open>a\<close> and copying the frame \<open>b\<close> into it.\<close>

definition copy_frame :: "u64 \<Rightarrow> u64 \<Rightarrow> (u64 \<Rightarrow> u64) \<Rightarrow> (u64 \<Rightarrow> u64)" where
  "copy_frame b a f = (\<lambda>x. if remove_flag x = a then clear_page f a (x - a + b) else f x)"

lemma memcpy_memset:
  assumes "unat a < 2 ^ 31" "unat b < 2 ^ 31"
  shows "memcpy_page (kaddr b) (kaddr a) (memset_page (kaddr a) st) = st\<lparr>pm := copy_frame b a (pm st)\<rparr>"
  unfolding memcpy_page_def memset_page_def copy_frame_def kphys_kaddr [OF assms(1)] kphys_kaddr [OF assms(2)]
  by (simp add: fun_eq_iff clear_page_def cong: if_cong)

lemma map_phys_to_user_virt_addr_eq:
  assumes inv: "table_inv (pm st) (avail st) r L"
    and n: "path_cost (pm st) r va \<le> card (avail st)"
    and e: "ensure_path 7 r va st = (s, p, q, t)" and a: "allocate_virt_page s = (s1, a)"
    and low: "unat a < 2 ^ 31" "unat phys < 2 ^ 31" "unat t < 2 ^ 31"
  shows "map_phys_to_user_virt_addr va phys r st =
    s1\<lparr>g_pdpt := kaddr p, g_pd := kaddr q, g_pt := kaddr t,
       pm := (copy_frame phys a (pm s1))(slot t (get_index va 12) := a OR 7)\<rparr>"
proof -
  obtain x1 x2 where x: "level_virt 7 (kaddr r) (get_index va 39) st = (x1, kaddr p)"
    "level_virt 7 (kaddr p) (get_index va 30) x1 = (x2, kaddr q)"
    "level_virt 7 (kaddr q) (get_index va 21) x2 = (s, kaddr t)"
    using level_virt_path [OF inv _ n e] by auto
  show ?thesis
    unfolding map_phys_to_user_virt_addr_def get_index_def [symmetric]
    by (simp add: Let_def x a memcpy_memset [OF low(1,2)] wr_def kphys_slot_kaddr [OF low(3)])
qed

text \<open>
  The function clears a fresh frame, copies the frame at \<open>phys\<close> into it and maps the copy: the page
  never names \<open>phys\<close> itself.
\<close>

lemma map_phys_to_user_virt_addr_maps:
  assumes inv: "table_inv (pm st) (avail st) r L"
    and n: "path_cost (pm st) r va + 1 \<le> card (avail st)"
    and phys: "page_aligned phys" "unat phys < 2 ^ 26" "phys \<notin> dom L" "phys \<notin> avail st"
    and st': "st' = map_phys_to_user_virt_addr va phys r st"
  obtains L' a where "a \<in> avail st" "a \<notin> avail st'"
    "maps_page r va (a OR 7) (pm st) (avail st) L (pm st') (avail st') L'" "L' a = None"
    "\<forall>i < 512. pm st' (slot a i) = pm st (slot phys i)"
    "card (avail st) \<le> card (avail st') + path_cost (pm st) r va + 1" "reg_cr3 st' = reg_cr3 st"
proof -
  let ?i = "get_index va 12"
  obtain s p q t where e: "ensure_path 7 r va st = (s, p, q, t)"
    by (metis prod_cases4)
  have n': "path_cost (pm st) r va \<le> card (avail st)" using n by simp
  obtain L' where g: "grows r (pm st) (avail st) L (pm s) (avail s) L'"
    and leaf: "leaf_of (pm s) r (indices va) = Some (t, ?i)"
    and c: "card (avail st) \<le> card (avail s) + path_cost (pm st) r va"
    by (rule ensure_path_leaf [OF inv _ n' e]) simp_all
  note wf' = table_inv_wf [OF grows_inv [OF g]]
  have r: "L' r = Some (length (indices va))"
    using wf_tables_root [OF wf'] by (simp add: indices_def)
  have t: "L' t = Some 1" using leaf_of_level [OF wf' r indices_less leaf] by simp
  have t_low: "unat t < 2 ^ 26" using wf_tables_low [OF wf' t] .
  obtain s1 a where a: "allocate_virt_page s = (s1, a)" by fastforce
  have "avail s \<noteq> {}" using n c by auto
  note alloc = allocate_virt_page_avail [OF this a]
  have a_in: "a \<in> avail st" using alloc(1) grows_pool [OF g] by blast
  have a_low: "page_aligned a" "unat a < 2 ^ 26" using a_in by (simp_all add: avail_def)
  have La: "L' a = None" using table_inv_free [OF grows_inv [OF g] alloc(1)] .
  have pm1: "pm s1 = pm s" by (subst alloc(4)) simp
  define h where "h = copy_frame phys a (pm s)"
  have h_eq: "h x = pm s x" if "remove_flag x \<noteq> a" for x using that by (simp add: h_def copy_frame_def)
  have eq: "st' = s1\<lparr>g_pdpt := kaddr p, g_pd := kaddr q, g_pt := kaddr t, pm := h(slot t ?i := a OR 7)\<rparr>"
    unfolding st' h_def pm1 [symmetric]
    by (rule map_phys_to_user_virt_addr_eq [OF inv n' e a]) (use a_low phys(2) t_low in simp_all)
  have pm': "pm st' = h(slot t ?i := a OR 7)" and av: "avail st' = avail s - {a}"
    and cr3: "reg_cr3 st' = reg_cr3 s1"
    unfolding eq by (simp_all add: alloc(3))
  show ?thesis
  proof (rule that)
    show "a \<in> avail st" "a \<notin> avail st'" "L' a = None" using a_in av La by simp_all
    have "leaf_of h r (indices va) = Some (t, ?i)"
      using leaf data_write_leaf_of(1) [OF wf' h_eq La r indices_less] by simp
    moreover have "grows r (pm st) (avail st) L h (avail s - {a}) L'"
      by (rule grows_take [OF g alloc(1)]) (rule h_eq)
    moreover have "present (a OR 7)" by (rule present_or) (simp add: present_def)
    ultimately show "maps_page r va (a OR 7) (pm st) (avail st) L (pm st') (avail st') L'"
      unfolding pm' av by (intro grows_maps_page [OF inv])
    have "reg_cr3 s1 = reg_cr3 s" by (subst alloc(4)) simp
    moreover have "reg_cr3 s = reg_cr3 st" by (subst ensure_path_frame [OF e]) simp
    ultimately show "reg_cr3 st' = reg_cr3 st" using cr3 by simp
    have "card (avail s) = Suc (card (avail st'))"
      unfolding av using alloc(1) by (metis card.remove finite_avail)
    with c show "card (avail st) \<le> card (avail st') + path_cost (pm st) r va + 1" by simp
    show "\<forall>i < 512. pm st' (slot a i) = pm st (slot phys i)"
    proof (intro allI impI)
      fix i :: u64 assume i: "i < 512"
      have "phys \<noteq> a" using a_in phys(4) by auto
      have ai: "remove_flag (slot a i) = a" using remove_flag_slot [OF a_low(1) i] .
      have pi: "remove_flag (slot phys i) = phys" using remove_flag_slot [OF phys(1) i] .
      have "slot a i \<noteq> slot t ?i"
        using ai remove_flag_slot [OF wf_tables_aligned [OF wf' t] get_index_less] t La by auto
      then have "pm st' (slot a i) = clear_page (pm s) a (slot phys i)"
        unfolding pm' using ai by (simp add: h_def copy_frame_def slot_def add.commute)
      also have "\<dots> = pm s (slot phys i)"
        using pi \<open>phys \<noteq> a\<close> by (simp add: clear_page_def)
      also have "\<dots> = pm st (slot phys i)"
        using grows_data [OF g] pi phys(3,4) by simp
      finally show "pm st' (slot a i) = pm st (slot phys i)" .
    qed
  qed
qed

section \<open>Creating an address space\<close>

text \<open>The levels of the new tree: its root, and the tables of levels 1 to 3 it shares with the kernel's.\<close>

definition shared_levels :: "(u64 \<Rightarrow> nat option) \<Rightarrow> u64 \<Rightarrow> (u64 \<Rightarrow> nat option)" where
  "shared_levels L a = (\<lambda>t. if t = a then Some 4
     else case L t of None \<Rightarrow> None | Some l \<Rightarrow> if 1 \<le> l \<and> l \<le> 3 then Some l else None)"

lemma shared_levels_cases:
  assumes "shared_levels L a t = Some l"
  obtains "t = a" "l = 4" | "t \<noteq> a" "L t = Some l" "1 \<le> l" "l \<le> 3"
  using assms by (auto simp: shared_levels_def split: if_splits option.splits)

text \<open>The new root holds a single entry, the one of the kernel's half.\<close>

definition share_kernel :: "(u64 \<Rightarrow> u64) \<Rightarrow> u64 \<Rightarrow> u64 \<Rightarrow> (u64 \<Rightarrow> u64)" where
  "share_kernel f r a = (clear_page f a)(slot a 511 := f (slot r 511))"

lemma share_kernel_other: "remove_flag x \<noteq> a \<Longrightarrow> page_aligned a \<Longrightarrow> share_kernel f r a x = f x"
  using remove_flag_slot [of a 511] by (auto simp: share_kernel_def clear_page_def)

lemma share_kernel_root:
  assumes "page_aligned a" "i < 512"
  shows "share_kernel f r a (slot a i) = (if i = 511 then f (slot r 511) else 0)"
  using remove_flag_slot [OF assms] slot_inj [OF assms assms(1), of 511]
  by (auto simp: share_kernel_def clear_page_def)

lemma share_kernel_old:
  assumes "wf_tables f r L" "page_aligned a" "L a = None" "L t = Some l" "i < 512"
  shows "share_kernel f r a (slot t i) = f (slot t i)"
proof (rule share_kernel_other)
  have "remove_flag (slot t i) = t"
    using remove_flag_slot [OF wf_tables_aligned [OF assms(1,4)] assms(5)] .
  with assms(3,4) show "remove_flag (slot t i) \<noteq> a" by auto
qed (rule assms(2))

text \<open>Every present entry of the new tree is an entry of the old one, at \<open>r\<close> for the new root.\<close>

lemma share_kernel_entry:
  assumes wf: "wf_tables f r L" and a: "page_aligned a" "L a = None"
    and h: "shared_levels L a t = Some (Suc (Suc l))" "i < 512" "present (share_kernel f r a (slot t i))"
  obtains t0 where "L t0 = Some (Suc (Suc l))" "share_kernel f r a (slot t i) = f (slot t0 i)"
    "l \<le> 2" "t0 = (if t = a then r else t)" "t \<noteq> a \<longrightarrow> t \<noteq> r"
  using h(1)
proof (cases rule: shared_levels_cases)
  case 1
  have i: "i = 511"
    using share_kernel_root [OF a(1) h(2), of f r] h(3) 1(1) by (cases "i = 511") simp_all
  with 1 share_kernel_root [OF a(1) h(2), of f r] wf_tables_root [OF wf] show ?thesis
    by (intro that [of r]) simp_all
next
  case 2
  with share_kernel_old [OF wf a 2(2) h(2)] wf_tables_root [OF wf] show ?thesis
    by (intro that [of t]) auto
qed

lemma share_kernel_wf:
  assumes wf: "wf_tables f r L" and a: "page_aligned a" "unat a < 2 ^ 26" "L a = None"
  shows "wf_tables (share_kernel f r a) a (shared_levels L a)"
proof (rule wf_tablesI)
  let ?g = "share_kernel f r a" and ?L = "shared_levels L a"
  note entry = share_kernel_entry [OF wf a(1,3)]
  show "?L a = Some 4" by (simp add: shared_levels_def)
  show "page_aligned t \<and> unat t < 2 ^ 26" if "?L t = Some l" for t l
    using that
  proof (cases rule: shared_levels_cases)
    case 2
    with wf_tables_aligned [OF wf 2(2)] wf_tables_low [OF wf 2(2)] show ?thesis by simp
  qed (use a in simp)
  show "?L (remove_flag (?g (slot t i))) = Some (Suc l)"
    if t: "?L t = Some (Suc (Suc l))" "i < 512" "present (?g (slot t i))" for t l i
  proof -
    obtain t0 where 0: "L t0 = Some (Suc (Suc l))" "?g (slot t i) = f (slot t0 i)" "l \<le> 2"
      using entry [OF t] by metis
    then have "L (remove_flag (?g (slot t i))) = Some (Suc l)"
      using wf_tables_child [OF wf 0(1) t(2)] t(3) by simp
    with 0(3) a(3) show ?thesis by (auto simp: shared_levels_def)
  qed
  show "t = t' \<and> i = i'"
    if t: "?L t = Some (Suc (Suc l))" "i < 512" "present (?g (slot t i))"
      and t': "?L t' = Some (Suc (Suc l'))" "i' < 512" "present (?g (slot t' i'))"
      and eq: "remove_flag (?g (slot t i)) = remove_flag (?g (slot t' i'))" for t l i t' l' i'
  proof -
    obtain t0 where 0: "L t0 = Some (Suc (Suc l))" "?g (slot t i) = f (slot t0 i)" "l \<le> 2"
        "t0 = (if t = a then r else t)" "t \<noteq> a \<longrightarrow> t \<noteq> r"
      by (rule entry [OF t])
    obtain t1 where 1: "L t1 = Some (Suc (Suc l'))" "?g (slot t' i') = f (slot t1 i')" "l' \<le> 2"
        "t1 = (if t' = a then r else t')" "t' \<noteq> a \<longrightarrow> t' \<noteq> r"
      by (rule entry [OF t'])
    have "t0 = t1 \<and> i = i'"
      by (rule wf_tables_parent [OF wf 0(1) 1(1) t(2) t'(2)]) (use t(3) t'(3) eq in \<open>simp_all only: 0(2) 1(2)\<close>)
    then show ?thesis using 0(4,5) 1(4,5) by (cases "t = a"; cases "t' = a") simp_all
  qed
qed

lemma share_kernel_translate:
  assumes wf: "wf_tables f r L" and a: "page_aligned a" "L a = None"
  shows "translate (share_kernel f r a) a va =
    (if get_index va 39 = 511 then translate (share_kernel f r a) r va else None)"
proof (cases "get_index va 39 = 511")
  case True
  have "share_kernel f r a (slot a 511) = share_kernel f r a (slot r 511)"
    using share_kernel_root [OF a(1), of 511 f r] share_kernel_old [OF wf a wf_tables_root [OF wf], of 511]
    by simp
  with True show ?thesis
    unfolding translate_def indices_def by (subst (1 2) entry_at_step) simp
next
  case False
  with share_kernel_root [OF a(1), of "get_index va 39" f r] show ?thesis
    unfolding translate_def indices_def by (subst entry_at_step) simp
qed

text \<open>
  \<open>create_user_address_space\<close> maps the new root frame into the kernel's direct map, clears it and
  copies the kernel's entry 511: the new tree is well-formed, agrees with the kernel's on its half
  and maps nothing else.
\<close>

lemma create_user_address_space_spec:
  assumes inv: "table_inv (pm st) (avail st) (reg_cr3 st) L"
    and n: "4 \<le> card (avail st)" and c: "create_user_address_space st = (st', a)"
  obtains L' where "a \<in> avail st" "a \<notin> avail st'" "L \<subseteq>\<^sub>m L'" "reg_cr3 st' = reg_cr3 st"
    "table_inv (pm st') (avail st') (reg_cr3 st) L'"
    "\<And>va. translate (pm st') (reg_cr3 st) va =
       (if indices va = indices (kaddr a) then Some (a OR 3) else translate (pm st) (reg_cr3 st) va)"
    "table_inv (pm st') (avail st') a (shared_levels L' a)"
    "\<And>va. translate (pm st') a va =
       (if get_index va 39 = 511 then translate (pm st') (reg_cr3 st) va else None)"
proof -
  let ?r = "reg_cr3 st"
  obtain s a' where alloc: "allocate_virt_page st = (s, a')" by fastforce
  have "avail st \<noteq> {}" using n by auto
  note s = allocate_virt_page_avail [OF this alloc]
  define s1 where "s1 = s\<lparr>virt_addr := kaddr a'\<rparr>"
  define s2 where "s2 = map_phys_to_virt_addr (kaddr a') a' s1"
  have s1: "pm s1 = pm st" "avail s1 = avail st - {a'}" "reg_cr3 s1 = ?r"
    unfolding s1_def by (simp_all add: s(3), (subst s(4), simp)+)
  have a': "page_aligned a'" "unat a' < 2 ^ 26" "L a' = None"
    using s(1) table_inv_free [OF inv] by (auto simp: avail_def)
  have inv1: "table_inv (pm s1) (avail s1) (reg_cr3 s1) L"
    using inv unfolding s1 table_inv_def by blast
  have "card (avail st) = Suc (card (avail s1))"
    unfolding s1 using s(1) by (metis card.remove finite_avail)
  with n have afford: "path_cost (pm s1) (reg_cr3 s1) (kaddr a') \<le> card (avail s1)"
    by (simp add: path_cost_def)
  obtain L' where m: "maps_page ?r (kaddr a') (a' OR 3) (pm st) (avail s1) L (pm s2) (avail s2) L'"
    and r2: "reg_cr3 s2 = ?r"
    by (rule map_phys_to_virt_addr_maps [OF inv1 afford s2_def]) (simp add: s1)
  have wf2: "wf_tables (pm s2) ?r L'" using table_inv_wf [OF maps_page_inv [OF m]] .
  have r: "L' ?r = Some 4" using wf_tables_root [OF wf2] .
  have La': "L' a' = None" using maps_page_dom [OF m] a'(3) unfolding s1 by blast
  have v2: "virt_addr s2 = kaddr a'"
  proof -
    obtain s3 p q t where e: "ensure_path 3 (reg_cr3 s1) (kaddr a') s1 = (s3, p, q, t)"
      by (metis prod_cases4)
    have "virt_addr s3 = virt_addr s1" by (subst ensure_path_frame [OF e]) simp
    then show ?thesis
      by (simp add: s2_def map_phys_to_virt_addr_eq [OF inv1 afford e]) (simp add: s1_def)
  qed
  have "remove_flag (slot ?r 511) \<noteq> a'"
    using remove_flag_slot [OF wf_tables_aligned [OF wf2 r], of 511] r La' by auto
  moreover have "map_phys_to_virt_addr (virt_addr s1) a' s1 = s2" by (simp add: s1_def s2_def)
  ultimately have "create_user_address_space st = (s2\<lparr>pm := share_kernel (pm s2) ?r a'\<rparr>, a')"
    using a'(2) wf_tables_low [OF wf2 r]
    unfolding create_user_address_space_def alloc
    by (simp only: prod.case Let_def s1_def [symmetric])
      (simp add: memset_page_def wr_def rd_def r2 v2 addr_simps share_kernel_def clear_page_def)
  with c have eq: "st' = s2\<lparr>pm := share_kernel (pm s2) ?r a'\<rparr>" "a = a'" by auto
  have same: "\<And>x. remove_flag x \<noteq> a' \<Longrightarrow> share_kernel (pm s2) ?r a' x = pm s2 x"
    using share_kernel_other a'(1) by simp
  have out: "dom L' \<inter> avail s2 = {}" "avail s2 \<subseteq> avail s1"
    using maps_page_inv [OF m] maps_page_pool [OF m] by (auto simp: table_inv_def)
  show ?thesis
  proof (rule that)
    show "a \<in> avail st" "a \<notin> avail st'" "L \<subseteq>\<^sub>m L'" "reg_cr3 st' = ?r"
      using s(1) out(2) maps_page_le [OF m] r2 by (auto simp: eq s1)
    show "table_inv (pm st') (avail st') ?r L'"
      using data_write_wf [OF wf2 same La'] out(1) by (simp add: eq table_inv_def)
    show "translate (pm st') ?r va =
       (if indices va = indices (kaddr a) then Some (a OR 3) else translate (pm st) ?r va)" for va
    proof -
      have "entry_at (share_kernel (pm s2) ?r a') ?r (indices va) = entry_at (pm s2) ?r (indices va)"
        by (rule data_write_leaf_of(2) [OF wf2 same La' _ indices_less]) (simp_all add: r indices_def)
      with maps_page_translate [OF m, of va] show ?thesis by (simp add: eq translate_def)
    qed
    show "table_inv (pm st') (avail st') a (shared_levels L' a)"
      using share_kernel_wf [OF wf2 a'(1,2) La'] out s(1) s1(2)
      by (auto simp: eq table_inv_def elim!: shared_levels_cases)
    show "translate (pm st') a va =
       (if get_index va 39 = 511 then translate (pm st') ?r va else None)" for va
      using share_kernel_translate [OF wf2 a'(1) La'] by (simp add: eq)
  qed
qed

section \<open>Freeing a page\<close>

lemma get_index_remove_flag: "12 \<le> k \<Longrightarrow> get_index (remove_flag va) k = get_index va k"
proof -
  assume k: "12 \<le> k"
  have "drop_bit k (remove_flag va) = drop_bit k va"
    unfolding remove_flag_def page_mask_eq by (rule bit_eqI) (use k in \<open>auto simp: bit_simps dest: bit_imp_le_length\<close>)
  then show ?thesis by (simp add: get_index_def)
qed

text \<open>What both routines do at the leaf slot they find, when its entry passes their tests.\<close>

definition drop_page :: "u64 \<Rightarrow> u64 \<Rightarrow> 'a paging_scheme \<Rightarrow> 'a paging_scheme" where
  "drop_page t i st =
     (let a = remove_flag (pm st (slot t i))
      in (release_frame a st)\<lparr>pm := clear_page ((pm st)(slot t i := 0)) a\<rparr>)"

lemma drop_page_code:
  assumes "unat t < 2 ^ 31" "unat (remove_flag (pm st (slot t i))) < 2 ^ 31"
  shows "memset_page (kaddr (remove_flag (pm st (slot t i)))) (wr (slot (kaddr t) i) 0
    (st\<lparr>free_map := kset_bit (free_map st) (remove_flag (pm st (slot t i)) div PAGE_SIZE)\<rparr>)) = drop_page t i st"
  using assms by (simp add: drop_page_def release_frame_def memset_page_def wr_def Let_def addr_simps)

definition no_cow :: "(u64 \<Rightarrow> u64) \<Rightarrow> (u64 \<Rightarrow> nat option) \<Rightarrow> bool" where
  "no_cow f L \<longleftrightarrow> (\<forall>t l i. L t = Some (Suc (Suc l)) \<and> i < 512 \<longrightarrow> f (slot t i) AND COW = 0)"

lemma no_cowD: "no_cow f L \<Longrightarrow> L t = Some l \<Longrightarrow> 2 \<le> l \<Longrightarrow> i < 512 \<Longrightarrow> f (slot t i) AND COW = 0"
  unfolding no_cow_def using le_Suc_ex [of 2 l] by auto

lemma free_page_eq:
  assumes wf: "wf_tables (pm st) r L" and nc: "no_cow (pm st) L"
  shows "free_page va r st =
    (case leaf_of (pm st) r (indices va) of None \<Rightarrow> st
     | Some (t, i) \<Rightarrow>
         if present (pm st (slot t i)) \<and> pm st (slot t i) AND COW = 0 \<and> pm st (slot t i) < 0x989680
         then drop_page t i st else st)"
proof -
  note root = rd_slot [OF wf wf_tables_root [OF wf]]
  note nc4 = no_cowD [OF nc wf_tables_root [OF wf] _ get_index_less]
  note nc' = no_cowD [OF nc _ _ get_index_less]
  show ?thesis
  proof (rule leaf_of_cases [OF wf, of va], goal_cases)
    case leaf: (4 p q t)
    let ?e = "pm st (slot t (get_index va 12))"
    have "remove_flag ?e \<le> ?e" by (simp add: remove_flag_def word_and_le2)
    then have "?e < 0x989680 \<Longrightarrow> unat (remove_flag ?e) < 2 ^ 31"
      by (simp add: word_le_nat_alt word_less_nat_alt)
    moreover have "unat t < 2 ^ 31" using wf_tables_low [OF wf leaf(9)] by simp
    ultimately have code: "?e < 0x989680 \<Longrightarrow> memset_page (kaddr (remove_flag ?e)) (wr (slot (kaddr t) (get_index va 12)) 0
      (st\<lparr>free_map := kset_bit (free_map st) (remove_flag ?e div PAGE_SIZE)\<rparr>)) = drop_page t (get_index va 12) st"
      by (intro drop_page_code) simp_all
    have "pm st (slot p (get_index va 30)) AND COW = 0" "pm st (slot q (get_index va 21)) AND COW = 0"
      using nc' [OF leaf(3)] nc' [OF leaf(6)] by simp_all
    with nc4 code show ?thesis
      by (simp add: free_page_def Let_def root rd_slot [OF wf leaf(3)] rd_slot [OF wf leaf(6)]
          rd_slot [OF wf leaf(9)] get_index_remove_flag leaf(1,4,7,10) leaf(2,5,8) [symmetric])
  qed (use nc4 nc' root rd_slot [OF wf] in \<open>simp_all add: free_page_def Let_def get_index_remove_flag\<close>)
qed

lemma free_kernel_page_eq:
  assumes wf: "wf_tables (pm st) (reg_cr3 st) L"
    and low: "\<And>e. translate (pm st) (reg_cr3 st) va = Some e \<Longrightarrow> unat (remove_flag e) < 2 ^ 26"
  shows "free_kernel_page va st =
    (case leaf_of (pm st) (reg_cr3 st) (indices va) of None \<Rightarrow> st
     | Some (t, i) \<Rightarrow> if present (pm st (slot t i)) then drop_page t i st else st)"
proof -
  note root = rd_slot [OF wf wf_tables_root [OF wf]]
  show ?thesis
  proof (rule leaf_of_cases [OF wf, of va], goal_cases)
    case leaf: (4 p q t)
    let ?e = "pm st (slot t (get_index va 12))"
    have "present ?e \<Longrightarrow> unat (remove_flag ?e) < 2 ^ 31"
      using low [of ?e] leaf(10) by (simp add: translate_def entry_at_def)
    moreover have "unat t < 2 ^ 31" using wf_tables_low [OF wf leaf(9)] by simp
    ultimately have code: "present ?e \<Longrightarrow> memset_page (kaddr (remove_flag ?e)) (wr (slot (kaddr t) (get_index va 12)) 0
      (st\<lparr>free_map := kset_bit (free_map st) (remove_flag ?e div PAGE_SIZE)\<rparr>)) = drop_page t (get_index va 12) st"
      by (intro drop_page_code) simp_all
    then show ?thesis
      by (simp add: free_kernel_page_def Let_def root rd_slot [OF wf leaf(3)] rd_slot [OF wf leaf(6)]
          rd_slot [OF wf leaf(9)] leaf(1,4,7,10) leaf(2,5,8) [symmetric])
  qed (use root rd_slot [OF wf] in \<open>simp_all add: free_kernel_page_def Let_def\<close>)
qed

text \<open>The page is unmapped, its frame is free again and cleared, and nothing else is mapped differently.\<close>

lemma drop_page_spec:
  assumes inv: "table_inv (pm st) (avail st) r L" and leaf: "leaf_of (pm st) r (indices va) = Some (t, i)"
    and a: "a = remove_flag (pm st (slot t i))" "unat a < 2 ^ 26" "L a = None"
  shows "avail (drop_page t i st) = insert a (avail st)"
    and "table_inv (pm (drop_page t i st)) (avail (drop_page t i st)) r L"
    and "translate (pm (drop_page t i st)) r va' =
           (if indices va' = indices va then None else translate (pm st) r va')"
    and "j < 512 \<Longrightarrow> pm (drop_page t i st) (slot a j) = 0"
proof -
  have al: "page_aligned a" by (simp add: a(1))
  let ?f = "(pm st)(slot t i := 0)"
  have eq: "drop_page t i st = (release_frame a st)\<lparr>pm := clear_page ?f a\<rparr>"
    unfolding drop_page_def a(1) Let_def ..
  show av: "avail (drop_page t i st) = insert a (avail st)"
    unfolding eq using al a(2) by (simp add: avail_release_frame all_frames_def)
  note clr = translate_leaf_clear [OF inv leaf]
  note wf = table_inv_wf [OF clr(2)]
  have same: "\<And>x. remove_flag x \<noteq> a \<Longrightarrow> clear_page ?f a x = ?f x" by (simp add: clear_page_def)
  have pm: "pm (drop_page t i st) = clear_page ?f a" by (simp add: eq)
  show "table_inv (pm (drop_page t i st)) (avail (drop_page t i st)) r L"
  proof -
    have "wf_tables (clear_page ?f a) r L" by (rule data_write_wf [OF wf same a(3)])
    moreover have "dom L \<inter> avail st = {}" using inv by (simp add: table_inv_def)
    ultimately show ?thesis unfolding pm av table_inv_def using a(3) by auto
  qed
  have r: "L r = Some (length (indices va'))"
    using wf_tables_root [OF wf] by (simp add: indices_def)
  show "translate (pm (drop_page t i st)) r va' =
           (if indices va' = indices va then None else translate (pm st) r va')"
  proof -
    have "entry_at (clear_page ?f a) r (indices va') = entry_at ?f r (indices va')"
      by (rule data_write_leaf_of(2) [OF wf same a(3) r indices_less])
    with clr(1) [of va'] show ?thesis unfolding pm translate_def by simp
  qed
  show "pm (drop_page t i st) (slot a j) = 0" if "j < 512"
    unfolding pm clear_page_def using remove_flag_slot [OF al that] by simp
qed

lemma drop_page_no_cow:
  assumes wf: "wf_tables (pm st) r L" and t: "L t = Some 1" "i < 512"
    and a: "L (remove_flag (pm st (slot t i))) = None" and nc: "no_cow (pm st) L"
  shows "no_cow (pm (drop_page t i st)) L"
  unfolding no_cow_def
proof (intro allI impI, elim conjE)
  fix t' l i' assume t': "L t' = Some (Suc (Suc l))" "i' < (512 :: u64)"
  have "remove_flag (slot t' i') = t'"
    using remove_flag_slot [OF wf_tables_aligned [OF wf t'(1)] t'(2)] .
  with a t' have "remove_flag (slot t' i') \<noteq> remove_flag (pm st (slot t i))" by auto
  moreover have "((pm st)(slot t i := 0)) (slot t' i') = pm st (slot t' i')"
    by (rule leaf_write_other [OF wf t t'])
  ultimately have "pm (drop_page t i st) (slot t' i') = pm st (slot t' i')"
    by (simp add: drop_page_def clear_page_def Let_def)
  with no_cowD [OF nc t'(1) _ t'(2)] show "pm (drop_page t i st) (slot t' i') AND COW = 0" by simp
qed

text \<open>When \<open>free_page\<close> acts on a leaf entry.\<close>

definition freeable :: "u64 option \<Rightarrow> bool" where
  "freeable x \<longleftrightarrow> (case x of None \<Rightarrow> False | Some e \<Rightarrow> e AND COW = 0 \<and> e < 0x989680)"

lemma free_page_spec:
  assumes inv: "table_inv (pm st) (avail st) r L" and nc: "no_cow (pm st) L"
    and data: "\<forall>e. translate (pm st) r va = Some e \<longrightarrow> L (remove_flag e) = None"
    and st': "st' = free_page va r st"
  shows "case translate (pm st) r va of None \<Rightarrow> st' = st
    | Some e \<Rightarrow>
        if e AND 0x200 = 0 \<and> e < 0x989680 then
          avail st' = insert (remove_flag e) (avail st) \<and> table_inv (pm st') (avail st') r L \<and>
          (\<forall>va'. translate (pm st') r va' = (if indices va' = indices va then None else translate (pm st) r va')) \<and>
          (\<forall>j<512. pm st' (slot (remove_flag e) j) = 0) \<and> no_cow (pm st') L
        else st' = st"
proof (cases "leaf_of (pm st) r (indices va)")
  case None
  with free_page_eq [OF table_inv_wf [OF inv] nc] st' show ?thesis by (simp add: translate_def entry_at_def)
next
  case (Some x)
  then obtain t i where leaf: "leaf_of (pm st) r (indices va) = Some (t, i)" by (cases x) auto
  let ?e = "pm st (slot t i)"
  have tr: "translate (pm st) r va = (if present ?e then Some ?e else None)"
    using leaf by (simp add: translate_def entry_at_def)
  note eq = free_page_eq [OF table_inv_wf [OF inv] nc, of va, unfolded leaf]
  show ?thesis
  proof (cases "present ?e \<and> ?e AND 0x200 = 0 \<and> ?e < 0x989680")
    case True
    have "remove_flag ?e \<le> ?e" by (simp add: remove_flag_def word_and_le2)
    with True have "unat (remove_flag ?e) < 2 ^ 26"
      by (simp add: word_le_nat_alt word_less_nat_alt)
    moreover have La: "L (remove_flag ?e) = None" using data tr True by simp
    ultimately have "avail (drop_page t i st) = insert (remove_flag ?e) (avail st)"
      "table_inv (pm (drop_page t i st)) (avail (drop_page t i st)) r L"
      "\<forall>va'. translate (pm (drop_page t i st)) r va' =
         (if indices va' = indices va then None else translate (pm st) r va')"
      "\<forall>j<512. pm (drop_page t i st) (slot (remove_flag ?e) j) = 0"
      using drop_page_spec [OF inv leaf refl] by blast+
    moreover have "no_cow (pm (drop_page t i st)) L"
    proof (rule drop_page_no_cow [OF table_inv_wf [OF inv] _ _ _ nc])
      have "L r = Some (length (indices va))"
        using wf_tables_root [OF table_inv_wf [OF inv]] by (simp add: indices_def)
      from leaf_of_level [OF table_inv_wf [OF inv] this indices_less leaf]
      show "L t = Some 1" "i < 512" by auto
    qed (rule La)
    ultimately show ?thesis using True tr eq st' by simp
  next
    case False
    with tr eq st' show ?thesis by (auto split: option.splits)
  qed
qed

text \<open>The invariant a sequence of frees keeps, and what one of them does to the meaning of the tree.\<close>

definition free_inv :: "u64 \<Rightarrow> (u64 \<Rightarrow> nat option) \<Rightarrow> 'a paging_scheme \<Rightarrow> bool" where
  "free_inv r L st \<longleftrightarrow> table_inv (pm st) (avail st) r L \<and> no_cow (pm st) L"

lemma free_page_step:
  assumes "free_inv r L st" and "\<forall>e. translate (pm st) r va = Some e \<longrightarrow> L (remove_flag e) = None"
  shows "free_inv r L (free_page va r st) \<and> avail st \<subseteq> avail (free_page va r st) \<and>
    (\<forall>va'. translate (pm (free_page va r st)) r va' =
       (if indices va' = indices va \<and> freeable (translate (pm st) r va) then None else translate (pm st) r va'))"
  using free_page_spec [OF _ _ assms(2) refl] assms(1)
  by (auto simp: free_inv_def freeable_def split: option.splits if_splits)

end
