(* ===== verification/KernelHeap.thy ===== *)
theory KernelHeap
  imports AddrSpace
begin

text \<open>
  The kernel heap: \<open>kmalloc\<close> of \<^verbatim>\<open>sys/paging.c\<close> hands out the lowest free frames, each mapped at its
  direct-map address and cleared. The pages of one request are contiguous only when the frames are.
\<close>

unbundle bit_operations_syntax

section \<open>Direct-map addresses of frames\<close>

lemma frame_no:
  assumes "a \<in> all_frames"
  shows "unat a div 4096 < 16384" and "unat a = unat a div 4096 * 4096"
  using assms unfolding all_frames_def page_aligned_def by auto

lemma kaddr_direct:
  assumes "a \<in> all_frames"
  shows "kaddr a = direct (unat a div 4096)"
proof -
  have "(of_nat (unat a div 4096 * 4096) :: u64) = a"
    unfolding frame_no(2) [OF assms, symmetric] by simp
  moreover have "unat a < 2 ^ 31" using assms by (simp add: all_frames_def)
  ultimately show ?thesis by (simp add: kaddr_plus direct_def)
qed

lemma indices_kaddr_eq:
  assumes "a \<in> all_frames" "b \<in> all_frames"
  shows "indices (kaddr a) = indices (kaddr b) \<longleftrightarrow> a = b"
proof -
  have "indices (kaddr a) = indices (kaddr b) \<longleftrightarrow> unat a div 4096 = unat b div 4096"
    unfolding kaddr_direct [OF assms(1)] kaddr_direct [OF assms(2)]
    using frame_no(1) [OF assms(1)] frame_no(1) [OF assms(2)] by (intro indices_direct_eq) simp_all
  also have "\<dots> \<longleftrightarrow> a = b"
    using frame_no(2) [OF assms(1)] frame_no(2) [OF assms(2)] word_unat_eq_iff by metis
  finally show ?thesis .
qed

lemma avail_all_frames: "a \<in> avail st \<Longrightarrow> a \<in> all_frames"
  by (simp add: avail_def all_frames_def)

section \<open>One page\<close>

text \<open>The tables of the direct map are there for every free frame.\<close>

definition direct_ready :: "'a paging_scheme \<Rightarrow> bool" where
  "direct_ready st \<longleftrightarrow> (\<forall>a \<in> avail st. leaf_of (pm st) (reg_cr3 st) (indices (kaddr a)) \<noteq> None)"

text \<open>The body of the loop.\<close>

definition kmalloc_page :: "'a paging_scheme \<Rightarrow> 'a paging_scheme" where
  "kmalloc_page st =
     (let (st, page_addr) = allocate_virt_page st;
          st = st\<lparr>virt_addr := kaddr page_addr\<rparr>;
          st = map_phys_to_virt_addr (virt_addr st) page_addr st
      in memset_page (virt_addr st) st)"

lemma map_phys_to_virt_addr_virt_addr:
  assumes inv: "table_inv (pm st) (avail st) (reg_cr3 st) L"
    and n: "path_cost (pm st) (reg_cr3 st) va \<le> card (avail st)"
  shows "virt_addr (map_phys_to_virt_addr va phys st) = virt_addr st"
proof -
  obtain s p q t where e: "ensure_path 3 (reg_cr3 st) va st = (s, p, q, t)"
    by (metis prod_cases4)
  have "virt_addr s = virt_addr st" by (subst ensure_path_frame [OF e]) simp
  then show ?thesis by (simp add: map_phys_to_virt_addr_eq [OF inv n e])
qed

lemma kmalloc_page_spec:
  assumes inv: "table_inv (pm st) (avail st) (reg_cr3 st) L" and ready: "direct_ready st"
    and ne: "avail st \<noteq> {}" and a: "a = Min (avail st)" and st': "st' = kmalloc_page st"
  obtains L' where "snd (allocate_virt_page st) = a"
    "table_inv (pm st') (avail st') (reg_cr3 st) L'" "dom L' \<subseteq> dom L \<union> (avail st - {a})"
    "avail st' = avail st - {a}"
    "reg_cr3 st' = reg_cr3 st" "direct_ready st'"
    "\<forall>va. translate (pm st') (reg_cr3 st) va =
       (if indices va = indices (kaddr a) then Some (a OR 3) else translate (pm st) (reg_cr3 st) va)"
    "\<forall>j < 512. pm st' (slot a j) = 0"
    "\<forall>x. remove_flag x \<notin> dom L \<and> remove_flag x \<notin> avail st \<longrightarrow> pm st' x = pm st x"
proof -
  let ?r = "reg_cr3 st"
  obtain s a' where alloc: "allocate_virt_page st = (s, a')" by fastforce
  note s = allocate_virt_page_avail [OF ne alloc]
  have aa: "a' = a" unfolding a using s(1,2) by (intro Min_eqI [symmetric]) auto
  define s1 where "s1 = s\<lparr>virt_addr := kaddr a\<rparr>"
  define s2 where "s2 = map_phys_to_virt_addr (kaddr a) a s1"
  have s1: "pm s1 = pm st" "avail s1 = avail st - {a}" "reg_cr3 s1 = ?r"
    unfolding s1_def by (simp_all add: s(3) aa, (subst s(4), simp)+)
  have low: "page_aligned a" "unat a < 2 ^ 26" "L a = None"
    using s(1) table_inv_free [OF inv] unfolding aa by (auto simp: avail_def)
  have inv1: "table_inv (pm s1) (avail s1) (reg_cr3 s1) L"
    using inv unfolding s1 table_inv_def by blast
  have free: "path_cost (pm s1) (reg_cr3 s1) (kaddr a) = 0"
    using ready s(1) unfolding s1 aa by (auto simp: direct_ready_def path_cost_def)
  then have afford: "path_cost (pm s1) (reg_cr3 s1) (kaddr a) \<le> card (avail s1)" by simp
  obtain L' where m: "maps_page ?r (kaddr a) (a OR 3) (pm st) (avail s1) L (pm s2) (avail s2) L'"
    and c2: "card (avail s1) \<le> card (avail s2)" and r2: "reg_cr3 s2 = ?r"
    by (rule map_phys_to_virt_addr_maps [OF inv1 afford s2_def]) (simp_all add: s1 free [unfolded s1])
  have v2: "virt_addr s2 = kaddr a"
    unfolding s2_def map_phys_to_virt_addr_virt_addr [OF inv1 afford] by (simp add: s1_def)
  have wf2: "wf_tables (pm s2) ?r L'" using table_inv_wf [OF maps_page_inv [OF m]] .
  have La': "L' a = None" using maps_page_dom [OF m] low(3) unfolding s1 by blast
  have eq: "st' = s2\<lparr>pm := clear_page (pm s2) a\<rparr>"
    unfolding st' kmalloc_page_def alloc using low(2)
    by (simp add: aa s1_def [symmetric] s2_def [symmetric] Let_def memset_page_def v2 addr_simps)
  have same: "\<And>x. remove_flag x \<noteq> a \<Longrightarrow> clear_page (pm s2) a x = pm s2 x" by (simp add: clear_page_def)
  have r: "L' ?r = Some (length (indices va))" for va
    using wf_tables_root [OF wf2] by (simp add: indices_def)
  note tree = data_write_leaf_of [OF wf2 same La' r indices_less]
  show ?thesis
  proof (rule that)
    show "snd (allocate_virt_page st) = a" using alloc aa by simp
    show "table_inv (pm st') (avail st') ?r L'"
      using data_write_wf [OF wf2 same La'] maps_page_inv [OF m] by (simp add: eq table_inv_def)
    show "dom L' \<subseteq> dom L \<union> (avail st - {a})" using maps_page_dom [OF m] unfolding s1 .
    have "avail st' = avail s1"
      using maps_page_pool [OF m] c2 by (simp add: eq card_seteq)
    then show sub: "avail st' = avail st - {a}" by (simp add: s1)
    show "reg_cr3 st' = ?r" by (simp add: eq r2)
    show "direct_ready st'"
      unfolding direct_ready_def
    proof
      fix b assume "b \<in> avail st'"
      with sub ready obtain y where "leaf_of (pm st) ?r (indices (kaddr b)) = Some y"
        unfolding direct_ready_def by blast
      from maps_page_leaves [OF m this] tree(1) [of "kaddr b"]
      show "leaf_of (pm st') (reg_cr3 st') (indices (kaddr b)) \<noteq> None" by (simp add: eq r2)
    qed
    show "\<forall>va. translate (pm st') ?r va =
       (if indices va = indices (kaddr a) then Some (a OR 3) else translate (pm st) ?r va)"
      using maps_page_translate [OF m] tree(2) by (simp add: eq translate_def)
    show "\<forall>j < 512. pm st' (slot a j) = 0"
      using remove_flag_slot [OF low(1)] by (simp add: eq clear_page_def)
    show "\<forall>x. remove_flag x \<notin> dom L \<and> remove_flag x \<notin> avail st \<longrightarrow> pm st' x = pm st x"
    proof (intro allI impI, elim conjE)
      fix x assume x: "remove_flag x \<notin> dom L" "remove_flag x \<notin> avail st"
      have "remove_flag x \<noteq> a" using x(2) s(1) aa by auto
      with maps_page_data [OF m] x show "pm st' x = pm st x" by (simp add: eq clear_page_def s1)
    qed
  qed
qed

section \<open>A request\<close>

lemma kmalloc_loop_Suc:
  "kmalloc_loop (Suc n) i ret st =
     kmalloc_loop n (Suc i) (if i = 0 then kaddr (snd (allocate_virt_page st)) else ret) (kmalloc_page st)"
  by (simp add: kmalloc_page_def Let_def split: prod.split)

text \<open>What the frames \<open>as\<close> handed out in one request change.\<close>

definition hands_out ::
  "u64 \<Rightarrow> u64 list \<Rightarrow> 'a paging_scheme \<Rightarrow> 'a paging_scheme \<Rightarrow> bool" where
  "hands_out r as st st' \<longleftrightarrow>
     avail st' = avail st - set as \<and> reg_cr3 st' = reg_cr3 st \<and>
     (\<forall>a \<in> set as. translate (pm st') r (kaddr a) = Some (a OR 3)) \<and>
     (\<forall>va. (\<forall>a \<in> set as. indices va \<noteq> indices (kaddr a)) \<longrightarrow>
        translate (pm st') r va = translate (pm st) r va) \<and>
     (\<forall>a \<in> set as. \<forall>j < 512. pm st' (slot a j) = 0)"

lemma kmalloc_loop_spec:
  assumes "table_inv (pm st) (avail st) (reg_cr3 st) L" and "direct_ready st"
    and "n \<le> card (avail st)" and "as = take n (sorted_list_of_set (avail st))"
  shows "\<exists>st' L'. kmalloc_loop n i ret st = (st', if i = 0 \<and> 0 < n then kaddr (hd as) else ret) \<and>
     table_inv (pm st') (avail st') (reg_cr3 st) L' \<and> direct_ready st' \<and>
     hands_out (reg_cr3 st) as st st' \<and>
     (\<forall>x. remove_flag x \<notin> dom L \<and> remove_flag x \<notin> avail st \<longrightarrow> pm st' x = pm st x)"
  using assms
proof (induction n arbitrary: i ret st L as)
  case 0
  then show ?case by (auto simp: hands_out_def)
next
  case (Suc n)
  let ?r = "reg_cr3 st"
  define a where "a = Min (avail st)"
  define st1 where "st1 = kmalloc_page st"
  have ne: "avail st \<noteq> {}" using Suc.prems(3) by auto
  obtain L1 where alloc: "snd (allocate_virt_page st) = a"
    and inv1: "table_inv (pm st1) (avail st1) ?r L1" and L1: "dom L1 \<subseteq> dom L \<union> (avail st - {a})"
    and av1: "avail st1 = avail st - {a}" and r1: "reg_cr3 st1 = ?r" and ready1: "direct_ready st1"
    and tr1: "\<forall>va. translate (pm st1) ?r va =
       (if indices va = indices (kaddr a) then Some (a OR 3) else translate (pm st) ?r va)"
    and zero1: "\<forall>j < 512. pm st1 (slot a j) = 0"
    and data1: "\<forall>x. remove_flag x \<notin> dom L \<and> remove_flag x \<notin> avail st \<longrightarrow> pm st1 x = pm st x"
    by (rule kmalloc_page_spec [OF Suc.prems(1,2) ne a_def st1_def])
  have a_in: "a \<in> avail st" unfolding a_def by (rule Min_in [OF finite_avail ne])
  define bs where "bs = take n (sorted_list_of_set (avail st1))"
  have as: "as = a # bs"
    using sorted_list_of_set_nonempty [OF finite_avail ne] by (simp add: Suc.prems(4) bs_def av1 a_def)
  have "n \<le> card (avail st1)" using Suc.prems(3) a_in by (simp add: av1)
  from Suc.IH [OF inv1 [folded r1] ready1 this bs_def, of "Suc i" "if i = 0 then kaddr a else ret"]
  obtain st' L' where st': "kmalloc_loop n (Suc i) (if i = 0 then kaddr a else ret) st1 =
      (st', if i = 0 then kaddr a else ret)"
    and inv': "table_inv (pm st') (avail st') ?r L'" "direct_ready st'"
    and out: "hands_out ?r bs st1 st'"
    and data: "\<forall>x. remove_flag x \<notin> dom L1 \<and> remove_flag x \<notin> avail st1 \<longrightarrow> pm st' x = pm st1 x"
    unfolding r1 by (elim exE conjE) simp
  have bs: "set bs \<subseteq> avail st - {a}"
    unfolding bs_def av1 [symmetric] using set_take_subset by fastforce
  have apart: "\<forall>b \<in> set bs. indices (kaddr a) \<noteq> indices (kaddr b)"
  proof
    fix b assume "b \<in> set bs"
    with bs have "b \<in> avail st" "a \<noteq> b" by auto
    then show "indices (kaddr a) \<noteq> indices (kaddr b)"
      using indices_kaddr_eq [OF avail_all_frames [OF a_in] avail_all_frames [OF \<open>b \<in> avail st\<close>]] by simp
  qed
  have out: "avail st' = avail st1 - set bs" "reg_cr3 st' = reg_cr3 st1"
    "\<forall>b \<in> set bs. translate (pm st') ?r (kaddr b) = Some (b OR 3)"
    "\<And>va. \<forall>b \<in> set bs. indices va \<noteq> indices (kaddr b) \<Longrightarrow> translate (pm st') ?r va = translate (pm st1) ?r va"
    "\<forall>b \<in> set bs. \<forall>j < 512. pm st' (slot b j) = 0"
    using out unfolding hands_out_def by blast+
  have "hands_out ?r as st st'"
    unfolding hands_out_def as
  proof (intro conjI)
    show "avail st' = avail st - set (a # bs)" using out(1) by (auto simp: av1)
    show "reg_cr3 st' = reg_cr3 st" using out(2) r1 by simp
    show "\<forall>b \<in> set (a # bs). translate (pm st') ?r (kaddr b) = Some (b OR 3)"
      using out(3) out(4) [OF apart] tr1 by simp
    show "\<forall>va. (\<forall>b \<in> set (a # bs). indices va \<noteq> indices (kaddr b)) \<longrightarrow>
        translate (pm st') ?r va = translate (pm st) ?r va"
      using out(4) tr1 by simp
    have "pm st' (slot a j) = 0" if "j < 512" for j
    proof -
      have "remove_flag (slot a j) = a" using avail_page_aligned [OF a_in] that by (rule remove_flag_slot)
      moreover have "a \<notin> dom L1" "a \<notin> avail st1"
        using L1 av1 table_inv_free [OF Suc.prems(1) a_in] by auto
      ultimately show ?thesis using data zero1 that by simp
    qed
    with out(5) show "\<forall>b \<in> set (a # bs). \<forall>j < 512. pm st' (slot b j) = 0" by simp
  qed
  moreover have "pm st' x = pm st x" if x: "remove_flag x \<notin> dom L" "remove_flag x \<notin> avail st" for x
  proof -
    have "remove_flag x \<notin> dom L1" "remove_flag x \<notin> avail st1"
      using x L1 unfolding av1 by blast+
    with data data1 x show ?thesis by simp
  qed
  moreover have "kmalloc_loop (Suc n) i ret st = (st', if i = 0 \<and> 0 < Suc n then kaddr (hd as) else ret)"
    unfolding kmalloc_loop_Suc st1_def [symmetric] using st' by (cases "i = 0") (simp_all add: alloc as)
  ultimately show ?case using inv' by blast
qed

text \<open>The page count: a request of \<open>sz > 0\<close> bytes takes as many pages as cover it.\<close>

lemma num_pages_eq:
  assumes "0 \<le> sz" "sz < 2 ^ 31"
  shows "num_pages sz = (sz + 4095) div 4096"
proof -
  have "sz sdiv 4096 = sz div 4096"
    by (cases "sz = 0") (use assms in \<open>simp_all add: signed_divide_int_def\<close>)
  moreover have "sz smod 4096 = sz mod 4096"
    by (cases "sz = 0") (use assms in \<open>simp_all add: signed_modulo_int_def\<close>)
  moreover have "i32 (sz div 4096 + 1) = sz div 4096 + 1"
    using assms by (intro i32_id) (simp add: in_i32_def)
  moreover have "(sz + 4095) div 4096 = (if sz mod 4096 = 0 then sz div 4096 else sz div 4096 + 1)"
  proof -
    have "(sz mod 4096 + 4095) div 4096 = (if sz mod 4096 = 0 then 0 else 1)"
      by (auto intro!: int_div_pos_eq [where r = "sz mod 4096 - 1"])
    moreover have "sz + 4095 = (sz mod 4096 + 4095) + 4096 * (sz div 4096)"
      using mod_mult_div_eq [of sz 4096] by simp
    then have "(sz + 4095) div 4096 = (sz mod 4096 + 4095) div 4096 + sz div 4096"
      by (metis div_mult_self2 zero_neq_numeral add.commute)
    ultimately show ?thesis by simp
  qed
  ultimately show ?thesis by (simp add: num_pages_def)
qed

end
