(* ===== verification/CString.thy ===== *)
theory CString
  imports Prelude
begin

text \<open>
  NUL-terminated strings in a byte memory, and the kernel's string routines (\<^verbatim>\<open>sys/string.c\<close>).
  A loop that looks for a NUL need not end, so the routines are \<open>option\<close> functions; their
  specifications show that they return on strings. \<open>nul\<close> is the address of the literal
  \<^verbatim>\<open>"\0"\<close> that two routines pass to \<open>strcat\<close>.
\<close>

unbundle bit_operations_syntax

section \<open>Strings in memory\<close>

type_synonym mem = "u64 \<Rightarrow> u8"

fun c_string :: "mem \<Rightarrow> u64 \<Rightarrow> u8 list \<Rightarrow> bool" where
  "c_string m p [] \<longleftrightarrow> m p = 0"
| "c_string m p (c # cs) \<longleftrightarrow> c \<noteq> 0 \<and> m p = c \<and> c_string m (p + 1) cs"

fun write_bytes :: "mem \<Rightarrow> u64 \<Rightarrow> u8 list \<Rightarrow> mem" where
  "write_bytes m p [] = m"
| "write_bytes m p (b # bs) = write_bytes (m(p := b)) (p + 1) bs"

text \<open>The \<open>k\<close> bytes at \<open>a\<close> and the \<open>l\<close> bytes at \<open>b\<close> do not overlap.\<close>

definition apart :: "u64 \<Rightarrow> nat \<Rightarrow> u64 \<Rightarrow> nat \<Rightarrow> bool" where
  "apart a k b l \<longleftrightarrow> (\<forall>i<k. \<forall>j<l. a + of_nat i \<noteq> b + of_nat j)"

named_theorems strings \<open>strings in memory\<close>

lemma apart_sym: "apart a k b l \<longleftrightarrow> apart b l a k"
  unfolding apart_def by metis

lemma apart_mono: "apart a k b l \<Longrightarrow> k' \<le> k \<Longrightarrow> l' \<le> l \<Longrightarrow> apart a k' b l'"
  unfolding apart_def by auto

lemma apart_head: "apart a k b l \<Longrightarrow> 0 < k \<Longrightarrow> j < l \<Longrightarrow> a \<noteq> b + of_nat j"
  unfolding apart_def by force

lemma apart_Suc_left: "apart a (Suc k) b l \<Longrightarrow> apart (a + 1) k b l"
  unfolding apart_def
proof (intro allI impI)
  fix i j assume h: "\<forall>i<Suc k. \<forall>j<l. a + of_nat i \<noteq> b + of_nat j" "i < k" "j < l"
  then have "a + of_nat (Suc i) \<noteq> b + of_nat j" by blast
  then show "a + 1 + of_nat i \<noteq> b + of_nat j" by (simp add: add.assoc)
qed

lemma apart_Suc_right: "apart a k b (Suc l) \<Longrightarrow> apart a k (b + 1) l"
  using apart_Suc_left apart_sym by blast

lemma c_string_cong:
  assumes "\<And>i. i \<le> length s \<Longrightarrow> m' (p + of_nat i) = m (p + of_nat i)"
  shows "c_string m' p s \<longleftrightarrow> c_string m p s"
  using assms
proof (induction s arbitrary: p)
  case Nil
  then show ?case using Nil [of 0] by simp
next
  case (Cons c cs)
  have "c_string m' (p + 1) cs = c_string m (p + 1) cs"
  proof (rule Cons.IH)
    fix i assume "i \<le> length cs"
    then show "m' (p + 1 + of_nat i) = m (p + 1 + of_nat i)"
      using Cons.prems [of "Suc i"] by (simp add: add.assoc)
  qed
  then show ?case using Cons.prems [of 0] by simp
qed

lemma c_string_upd [strings]:
  assumes "\<And>j. j < Suc (length s) \<Longrightarrow> q \<noteq> p + of_nat j"
  shows "c_string (m(q := b)) p s \<longleftrightarrow> c_string m p s"
proof (rule c_string_cong)
  fix i assume "i \<le> length s"
  then have "q \<noteq> p + of_nat i" by (intro assms) simp
  then show "(m(q := b)) (p + of_nat i) = m (p + of_nat i)" by simp
qed

lemma write_bytes_other:
  assumes "\<And>i. i < length bs \<Longrightarrow> p + of_nat i \<noteq> x"
  shows "write_bytes m p bs x = m x"
  using assms
proof (induction bs arbitrary: m p)
  case (Cons b bs)
  have "write_bytes (m(p := b)) (p + 1) bs x = (m(p := b)) x"
  proof (rule Cons.IH)
    fix i assume "i < length bs"
    then show "p + 1 + of_nat i \<noteq> x" using Cons.prems [of "Suc i"] by (simp add: add.assoc)
  qed
  moreover have "p \<noteq> x" using Cons.prems [of 0] by simp
  ultimately show ?case by simp
qed simp

lemma offset_neq:
  assumes "n < 2 ^ 64" "0 < n"
  shows "(p :: u64) + of_nat n \<noteq> p"
proof
  assume "p + of_nat n = p"
  then have "unat (of_nat n :: u64) = 0" by simp
  moreover have "unat (of_nat n :: u64) = n" using assms(1) by (simp add: unat_of_nat take_bit_nat_eq_self)
  ultimately show False using assms(2) by simp
qed

lemma offset_inj:
  assumes "i < 2 ^ 64" "j < 2 ^ 64"
  shows "(p :: u64) + of_nat i = p + of_nat j \<longleftrightarrow> i = j"
proof
  assume "p + of_nat i = p + of_nat j"
  then have "unat (of_nat i :: u64) = unat (of_nat j :: u64)" by simp
  with assms show "i = j" by (simp add: unat_of_nat take_bit_nat_eq_self)
qed simp

lemma write_bytes_at:
  assumes "i < length bs" "length bs \<le> 2 ^ 64"
  shows "write_bytes m p bs (p + of_nat i) = bs ! i"
  using assms
proof (induction bs arbitrary: m p i)
  case (Cons b bs)
  show ?case
  proof (cases i)
    case 0
    have "write_bytes (m(p := b)) (p + 1) bs p = (m(p := b)) p"
    proof (rule write_bytes_other)
      fix k assume "k < length bs"
      then have "p + of_nat (Suc k) \<noteq> p" using Cons.prems(2) by (intro offset_neq) simp_all
      then show "p + 1 + of_nat k \<noteq> p" by (simp add: add.assoc)
    qed
    with 0 show ?thesis by simp
  next
    case (Suc k)
    with Cons.prems have "write_bytes (m(p := b)) (p + 1) bs (p + 1 + of_nat k) = bs ! k"
      by (intro Cons.IH) simp_all
    with Suc show ?thesis by (simp add: add.assoc)
  qed
qed simp

lemma write_bytes_append:
  "write_bytes m p (xs @ ys) = write_bytes (write_bytes m p xs) (p + of_nat (length xs)) ys"
  by (induction xs arbitrary: m p) (simp_all add: add.assoc)

lemma c_string_iff:
  "c_string m p s \<longleftrightarrow> (\<forall>i<length s. m (p + of_nat i) = s ! i) \<and> 0 \<notin> set s \<and> m (p + of_nat (length s)) = 0"
proof (induction s arbitrary: p)
  case (Cons c cs)
  have "(\<forall>i<length (c # cs). m (p + of_nat i) = (c # cs) ! i) \<longleftrightarrow>
      m p = c \<and> (\<forall>i<length cs. m (p + 1 + of_nat i) = cs ! i)"
    by (simp add: All_less_Suc2 add.assoc)
  then show ?case using Cons.IH [of "p + 1"] by (auto simp: add.assoc)
qed simp

text \<open>Writing a string and a NUL, with whatever follows, leaves that string there.\<close>

lemma c_string_write:
  assumes "0 \<notin> set s" and "length s + 1 + length t \<le> 2 ^ 64"
  shows "c_string (write_bytes m p (s @ 0 # t)) p s"
  unfolding c_string_iff
proof (intro conjI allI impI)
  fix i assume "i < length s"
  then show "write_bytes m p (s @ 0 # t) (p + of_nat i) = s ! i"
    using assms(2) by (subst write_bytes_at) (simp_all add: nth_append)
next
  show "write_bytes m p (s @ 0 # t) (p + of_nat (length s)) = 0"
    using assms(2) by (subst write_bytes_at) simp_all
qed (rule assms(1))

lemma c_string_write_other:
  assumes "c_string m q s" and "apart p (length bs) q (Suc (length s))"
  shows "c_string (write_bytes m p bs) q s"
proof -
  have "write_bytes m p bs (q + of_nat i) = m (q + of_nat i)" if "i \<le> length s" for i
    using that assms(2) by (intro write_bytes_other) (auto simp: apart_def)
  with assms(1) c_string_cong show ?thesis by metis
qed

lemma c_string_unique: "c_string m p s \<Longrightarrow> c_string m p s' \<Longrightarrow> s = s'"
proof (induction s arbitrary: p s')
  case Nil
  then show ?case by (cases s') auto
next
  case (Cons c cs)
  then show ?case by (cases s') auto
qed

section \<open>The loops\<close>

text \<open>\<^verbatim>\<open>while (*tmp != '\0') tmp++\<close>\<close>

partial_function (option) skip_string :: "mem \<Rightarrow> u64 \<Rightarrow> u64 option" where
  "skip_string m tmp = (if m tmp \<noteq> 0 then skip_string m (tmp + 1) else Some tmp)"

text \<open>\<^verbatim>\<open>while (*sr != '\0') *tmp++ = *sr++\<close>\<close>

partial_function (option) copy_loop :: "u64 \<Rightarrow> u64 \<Rightarrow> mem \<Rightarrow> (mem \<times> u64) option" where
  "copy_loop sr tmp m =
     (if m sr \<noteq> 0 then copy_loop (sr + 1) (tmp + 1) (m(tmp := m sr)) else Some (m, tmp))"

lemma skip_string_eq: "c_string m p s \<Longrightarrow> skip_string m p = Some (p + of_nat (length s))"
proof (induction s arbitrary: p)
  case Nil
  then show ?case by (subst skip_string.simps) simp
next
  case (Cons c cs)
  then show ?case by (subst skip_string.simps) (simp add: add.assoc)
qed

lemma copy_loop_eq:
  assumes "c_string m sr s" and "apart tmp (length s) sr (Suc (length s))"
  shows "copy_loop sr tmp m = Some (write_bytes m tmp s, tmp + of_nat (length s))"
  using assms
proof (induction s arbitrary: sr tmp m)
  case Nil
  then show ?case by (subst copy_loop.simps) simp
next
  case (Cons c cs)
  have h: "tmp \<noteq> sr + of_nat j" if "j < Suc (length (c # cs))" for j
    using apart_head [OF Cons.prems(2)] that by simp
  have "c_string (m(tmp := c)) (sr + 1) cs = c_string m (sr + 1) cs"
  proof (rule c_string_upd)
    fix j assume "j < Suc (length cs)"
    then show "tmp \<noteq> sr + 1 + of_nat j" using h [of "Suc j"] by (simp add: add.assoc)
  qed
  with Cons.prems(1) have c: "c_string (m(tmp := c)) (sr + 1) cs" by simp
  have "apart (tmp + 1) (length cs) (sr + 1) (Suc (length cs))"
    using Cons.prems(2) by (auto intro: apart_Suc_left apart_Suc_right)
  from Cons.IH [OF c this] have "copy_loop (sr + 1) (tmp + 1) (m(tmp := c)) =
      Some (write_bytes (m(tmp := c)) (tmp + 1) cs, tmp + 1 + of_nat (length cs))" .
  then show ?case
    using Cons.prems(1) by (subst copy_loop.simps) (simp add: add.assoc)
qed

section \<open>Contracts\<close>

text \<open>
  What both C libraries of the repository promise of their copy routine: the string and two NULs
  are written at the destination, and nothing else. \<open>ok\<close> is what a library asks of the
  memory beside that.
\<close>

locale string_copy =
  fixes cpy :: "u64 \<Rightarrow> u64 \<Rightarrow> mem \<Rightarrow> mem option"
    and ok :: "u64 \<Rightarrow> nat \<Rightarrow> mem \<Rightarrow> bool"
  assumes cpy_eq: "c_string m src s \<Longrightarrow> apart dst (length s) src (Suc (length s)) \<Longrightarrow> ok dst (length s) m \<Longrightarrow>
    cpy src dst m = Some (write_bytes m dst (s @ [0, 0]))"
begin

lemma cpy_string:
  assumes "c_string m src s" "apart dst (length s + 2) src (Suc (length s))" "ok dst (length s) m"
    and "length s + 2 \<le> 2 ^ 64"
  obtains m' where "cpy src dst m = Some m'" "c_string m' dst s" "c_string m' src s"
    "\<And>x. (\<And>i. i < length s + 2 \<Longrightarrow> dst + of_nat i \<noteq> x) \<Longrightarrow> m' x = m x"
proof (rule that)
  let ?m' = "write_bytes m dst (s @ [0, 0])"
  have "apart dst (length s) src (Suc (length s))" using assms(2) by (rule apart_mono) simp_all
  from cpy_eq [OF assms(1) this assms(3)] show "cpy src dst m = Some ?m'" .
  have "0 \<notin> set s" using assms(1) by (simp add: c_string_iff)
  with assms(4) show "c_string ?m' dst s" by (intro c_string_write) simp_all
  show "c_string ?m' src s" using assms(1,2) by (intro c_string_write_other) simp_all
  show "?m' x = m x" if "\<And>i. i < length s + 2 \<Longrightarrow> dst + of_nat i \<noteq> x" for x
    using that by (intro write_bytes_other) simp
qed

end

text \<open>A comparison that tells strings apart, 0 for equal and 1 for different.\<close>

locale string_compare =
  fixes cmp :: "mem \<Rightarrow> u64 \<Rightarrow> u64 \<Rightarrow> cint option"
  assumes cmp_eq: "c_string m p s \<Longrightarrow> c_string m q t \<Longrightarrow> cmp m p q = Some (if s = t then 0 else 1)"
begin

lemma cmp_zero: "c_string m p s \<Longrightarrow> c_string m q t \<Longrightarrow> cmp m p q = Some 0 \<longleftrightarrow> s = t"
  by (simp add: cmp_eq)

lemma cmp_sym: "c_string m p s \<Longrightarrow> c_string m q t \<Longrightarrow> cmp m p q = cmp m q p"
  by (auto simp: cmp_eq)

end

text \<open>A copy compares equal to its source.\<close>

locale string_lib = string_copy + string_compare
begin

lemma cmp_copy:
  assumes "c_string m src s" "apart dst (length s + 2) src (Suc (length s))" "ok dst (length s) m"
    and "length s + 2 \<le> 2 ^ 64"
  shows "\<exists>m'. cpy src dst m = Some m' \<and> cmp m' dst src = Some 0"
proof -
  obtain m' where "cpy src dst m = Some m'" "c_string m' dst s" "c_string m' src s"
    by (rule cpy_string [OF assms])
  then show ?thesis by (simp add: cmp_eq)
qed

end

end
