(* ===== verification/KString.thy ===== *)
theory KString
  imports CString
begin

text \<open>
  The kernel's string routines, \<^verbatim>\<open>sys/string.c\<close>, and the number conversions of
  \<^verbatim>\<open>sys/utils.c\<close>, on the byte memory of \<open>CString\<close>.
\<close>

unbundle bit_operations_syntax

section \<open>Definitions\<close>

definition strcat :: "u64 \<Rightarrow> u64 \<Rightarrow> mem \<Rightarrow> mem option" where
  "strcat dst src m =
     (case skip_string m dst of None \<Rightarrow> None
      | Some tmp \<Rightarrow>
          (case copy_loop src tmp m of None \<Rightarrow> None
           | Some (m, tmp) \<Rightarrow> Some (m(tmp := 0, tmp + 1 := 0))))"

partial_function (option) strlen_loop :: "mem \<Rightarrow> u64 \<Rightarrow> cint \<Rightarrow> (cint \<times> u64) option" where
  "strlen_loop m temp i =
     (if m temp \<noteq> 0 then strlen_loop m (temp + 1) (i32 (i + 1)) else Some (i, temp))"

definition strlen :: "u64 \<Rightarrow> u64 \<Rightarrow> mem \<Rightarrow> (mem \<times> cint) option" where
  "strlen nul str m =
     (case strlen_loop m str 0 of None \<Rightarrow> None
      | Some (i, temp) \<Rightarrow>
          (case strcat temp nul m of None \<Rightarrow> None | Some m \<Rightarrow> Some (m, i)))"

definition strcpy :: "u64 \<Rightarrow> u64 \<Rightarrow> u64 \<Rightarrow> mem \<Rightarrow> mem option" where
  "strcpy nul src dst m =
     (case copy_loop src dst m of None \<Rightarrow> None
      | Some (m, temp) \<Rightarrow> strcat temp nul (m(temp := 0)))"

partial_function (option) strcmp :: "mem \<Rightarrow> u64 \<Rightarrow> u64 \<Rightarrow> cint option" where
  "strcmp m str1 str2 =
     (if m str1 \<noteq> 0 \<and> m str2 \<noteq> 0 then
        (if m str1 \<noteq> m str2 then Some 1 else strcmp m (str1 + 1) (str2 + 1))
      else if m str1 \<noteq> 0 \<or> m str2 \<noteq> 0 then Some 1
      else Some 0)"

text \<open>\<^verbatim>\<open>char\<close> is signed.\<close>

partial_function (option) atoi_loop :: "mem \<Rightarrow> u64 \<Rightarrow> cint \<Rightarrow> cint option" where
  "atoi_loop m str val =
     (if m str \<noteq> 0 then atoi_loop m (str + 1) (i32 (i32 (val * 10) + (sint (m str) - 48))) else Some val)"

definition atoi :: "mem \<Rightarrow> u64 \<Rightarrow> cint option" where
  "atoi m str = atoi_loop m str 0"

text \<open>The scan of \<open>substr_tillchar\<close>, down from the NUL; the result is the final \<open>i\<close>.\<close>

function back_scan :: "mem \<Rightarrow> u64 \<Rightarrow> u8 \<Rightarrow> int \<Rightarrow> cint \<Rightarrow> cint" where
  "back_scan m s c count i =
     (if count < 2 \<and> 0 \<le> i
      then back_scan m s c (if m (s + of_int i) = c then count + 1 else count) (i - 1)
      else i)"
  by pat_completeness auto
termination
  by (relation "measure (\<lambda>(m, s, c, count, i). nat (i + 1))") auto

declare back_scan.simps [simp del]

definition substr_tillchar :: "u64 \<Rightarrow> u64 \<Rightarrow> u8 \<Rightarrow> mem \<Rightarrow> (mem \<times> cint) option" where
  "substr_tillchar nul s c m =
     (case strlen nul s m of None \<Rightarrow> None
      | Some (m, len) \<Rightarrow>
          let i = back_scan m s c 0 len
          in if i < 0 then Some (m(s := 0), -1)
             else let i = i + 2
                  in Some (m(s + of_int i := 0, s + of_int (i + 1) := 0), 0))"

text \<open>\<^verbatim>\<open>pow\<close> recurses on its exponent down to 0; a negative one would first have to wrap around.\<close>

partial_function (option) pow :: "cint \<Rightarrow> cint \<Rightarrow> cint option" where
  "pow base e =
     (if e = 0 then Some 1
      else Option.bind (pow base (i32 (e - 1))) (\<lambda>v. Some (i32 (base * v))))"

partial_function (option) octtodec_loop :: "cint \<Rightarrow> cint \<Rightarrow> cint \<Rightarrow> cint option" where
  "octtodec_loop octal_val int_val pow_eight =
     (if 0 < octal_val then
        Option.bind (pow 8 pow_eight)
          (\<lambda>p. octtodec_loop (octal_val div 10)
             (i32 (int_val + i32 (octal_val mod 10 * p))) (i32 (pow_eight + 1)))
      else Some int_val)"

definition octtodec :: "cint \<Rightarrow> cint option" where
  "octtodec octal_val = octtodec_loop octal_val 0 0"

section \<open>Strings\<close>

lemma upd_absorb: "m p = b \<Longrightarrow> m(p := b) = m"
  by auto

lemma strcat_eq:
  assumes d: "c_string m dst t" and s: "c_string m src s"
    and a: "apart (dst + of_nat (length t)) (length s) src (Suc (length s))"
  shows "strcat dst src m = Some (write_bytes m (dst + of_nat (length t)) (s @ [0, 0]))"
  using skip_string_eq [OF d] copy_loop_eq [OF s a]
  by (simp add: strcat_def write_bytes_append)

text \<open>\<open>strlen\<close> returns the length, and writes a NUL one byte past the terminator.\<close>

lemma strlen_loop_eq:
  "c_string m p s \<Longrightarrow> 0 \<le> i \<Longrightarrow> i + int (length s) < 2 ^ 31 \<Longrightarrow>
     strlen_loop m p i = Some (i + int (length s), p + of_nat (length s))"
proof (induction s arbitrary: p i)
  case Nil
  then show ?case by (subst strlen_loop.simps) simp
next
  case (Cons c cs)
  have "i32 (i + 1) = i + 1" using Cons.prems by (intro i32_id) (simp add: in_i32_def)
  moreover have "strlen_loop m (p + 1) (i + 1) = Some (i + 1 + int (length cs), p + 1 + of_nat (length cs))"
    using Cons.prems by (intro Cons.IH) simp_all
  ultimately show ?case
    using Cons.prems by (subst strlen_loop.simps) (simp add: add.assoc)
qed

lemma strlen_eq:
  assumes s: "c_string m p s" and n: "length s < 2 ^ 31" and nul: "m nul = 0"
  shows "strlen nul p m = Some (m(p + of_nat (length s) + 1 := 0), int (length s))"
proof -
  have e: "c_string m (p + of_nat (length s)) []" using s by (simp add: c_string_iff)
  have "strcat (p + of_nat (length s)) nul m = Some (m(p + of_nat (length s) := 0, p + of_nat (length s) + 1 := 0))"
    using strcat_eq [OF e, of nul "[]"] nul by (simp add: apart_def)
  also have "m(p + of_nat (length s) := 0) = m" using e by (intro upd_absorb) simp
  finally show ?thesis
    using strlen_loop_eq [OF s, of 0] n by (simp add: strlen_def fun_upd_def)
qed

lemma strcpy_eq:
  assumes s: "c_string m src s" and a: "apart dst (length s) src (Suc (length s))"
    and nul: "write_bytes m dst (s @ [0]) nul = 0"
  shows "strcpy nul src dst m = Some (write_bytes m dst (s @ [0, 0]))"
proof -
  let ?m = "write_bytes m dst (s @ [0])"
  have e: "c_string ?m (dst + of_nat (length s)) []" by (simp add: write_bytes_append)
  have "strcat (dst + of_nat (length s)) nul ?m = Some (write_bytes ?m (dst + of_nat (length s)) [0, 0])"
    using strcat_eq [OF e, of nul "[]"] nul by (simp add: apart_def)
  moreover have "write_bytes ?m (dst + of_nat (length s)) [0, 0] = write_bytes m dst (s @ [0, 0])"
    by (simp add: write_bytes_append)
  ultimately show ?thesis
    using copy_loop_eq [OF s a] by (simp add: strcpy_def write_bytes_append)
qed

lemma strcmp_eq:
  "c_string m p s \<Longrightarrow> c_string m q t \<Longrightarrow> strcmp m p q = Some (if s = t then 0 else 1)"
proof (induction s arbitrary: p q t)
  case Nil
  then show ?case by (subst strcmp.simps) (cases t, auto)
next
  case (Cons c cs)
  show ?case
  proof (cases t)
    case Nil
    with Cons.prems show ?thesis by (subst strcmp.simps) simp
  next
    case (Cons d ds)
    with Cons.prems Cons.IH [of "p + 1" "q + 1" ds] show ?thesis by (subst strcmp.simps) simp
  qed
qed

text \<open>The kernel's library meets the contract of \<open>CString\<close>, when the literal is not written over.\<close>

definition nul_kept :: "u64 \<Rightarrow> u64 \<Rightarrow> nat \<Rightarrow> mem \<Rightarrow> bool" where
  "nul_kept nul dst n m \<longleftrightarrow> m nul = 0 \<and> (\<forall>i<n. dst + of_nat i \<noteq> nul)"

lemma nul_kept_write:
  assumes "nul_kept nul dst (length s) m"
  shows "write_bytes m dst (s @ [0]) nul = 0"
proof -
  have "write_bytes m dst s nul = 0"
    using assms write_bytes_other [of s dst nul m] by (simp add: nul_kept_def)
  then show ?thesis by (simp add: write_bytes_append)
qed

interpretation kstr: string_lib "strcpy nul" "nul_kept nul" strcmp
  by unfold_locales (simp_all add: strcpy_eq nul_kept_write strcmp_eq)

section \<open>Path ends\<close>

lemma back_scan_skip:
  assumes "count < 2" "0 \<le> k" "k \<le> i + 1" "\<And>j. k \<le> j \<Longrightarrow> j \<le> i \<Longrightarrow> m (s + of_int j) \<noteq> c"
  shows "back_scan m s c count i = back_scan m s c count (k - 1)"
  using assms
proof (induction "nat (i + 1 - k)" arbitrary: i)
  case 0
  then have "i = k - 1" by simp
  then show ?case by simp
next
  case (Suc n)
  then have "k \<le> i" by simp
  then have "back_scan m s c count i = back_scan m s c count (i - 1)"
    using Suc.prems by (subst back_scan.simps) simp
  also have "\<dots> = back_scan m s c count (k - 1)"
    using Suc.hyps Suc.prems by (intro Suc.hyps(1)) simp_all
  finally show ?case .
qed

lemma back_scan_path:
  assumes s: "c_string m p (pre @ c # mid @ [c])" and c: "c \<noteq> 0" "c \<notin> set mid"
  shows "back_scan m p c 0 (int (length (pre @ c # mid @ [c]))) = int (length pre) - 1"
proof -
  define s where "s = pre @ c # mid @ [c]"
  define n where "n = int (length s)"
  have at: "m (p + of_nat i) = s ! i" if "i < length s" for i
    using s that by (simp add: c_string_iff s_def)
  have at': "m (p + of_int j) = s ! nat j" if "0 \<le> j" "j < n" for j
    using at [of "nat j"] that by (simp add: n_def)
  have "m (p + of_int n) = 0" using s by (simp add: c_string_iff n_def s_def add.assoc)
  then have "back_scan m p c 0 n = back_scan m p c 0 (n - 1)"
    using c(1) by (subst back_scan.simps) (simp add: n_def)
  also have "\<dots> = back_scan m p c 1 (n - 2)"
  proof -
    have "m (p + of_int (n - 1)) = c"
    proof -
      have "nat (n - 1) = length (pre @ c # mid)" by (simp add: n_def s_def)
      moreover have "s ! length (pre @ c # mid) = c"
        unfolding s_def by (simp only: append_Cons [symmetric] append_assoc [symmetric] nth_append_length)
      ultimately show ?thesis using at' [of "n - 1"] by (simp add: n_def s_def)
    qed
    then show ?thesis by (subst back_scan.simps) (simp add: n_def s_def)
  qed
  also have "\<dots> = back_scan m p c 1 (int (length pre) + 1 - 1)"
  proof (rule back_scan_skip)
    fix j assume j: "int (length pre) + 1 \<le> j" "j \<le> n - 2"
    then have "s ! nat j = mid ! (nat j - length pre - 1)" "nat j - length pre - 1 < length mid"
      by (auto simp: s_def n_def nth_append nth_Cons' )
    with at' [of j] j c(2) show "m (p + of_int j) \<noteq> c" by (auto simp: in_set_conv_nth)
  qed (simp_all add: n_def s_def)
  also have "\<dots> = int (length pre) - 1"
  proof -
    have "m (p + of_int (int (length pre))) = c"
      using at [of "length pre"] by (simp add: s_def)
    then show ?thesis
      by (subst back_scan.simps, subst back_scan.simps) simp
  qed
  finally show ?thesis by (simp add: n_def s_def)
qed

text \<open>\<open>substr_tillchar\<close> on a list: the string is laid out at address 0 and scanned.\<close>

definition mem_of :: "u8 list \<Rightarrow> mem" where
  "mem_of s = (\<lambda>a. if unat a < length s then s ! unat a else 0)"

definition cut :: "u8 list \<Rightarrow> u8 \<Rightarrow> u8 list \<times> cint" where
  "cut s c =
     (let i = back_scan (mem_of s) 0 c 0 (int (length s))
      in if i < 0 then ([], -1) else (take (nat (i + 2)) s, 0))"

lemma mem_of_at: "i < 2 ^ 64 \<Longrightarrow> mem_of s (of_nat i) = (if i < length s then s ! i else 0)"
  by (simp add: mem_of_def unat_of_nat take_bit_nat_eq_self)

lemma c_string_mem_of: "0 \<notin> set s \<Longrightarrow> length s < 2 ^ 64 \<Longrightarrow> c_string (mem_of s) 0 s"
  by (simp add: c_string_iff mem_of_at)

lemma c_string_at:
  assumes "c_string m p s" "i \<le> length s"
  shows "m (p + of_nat i) = (if i < length s then s ! i else 0)"
  using assms by (auto simp: c_string_iff)

lemma back_scan_mem_of:
  assumes s: "c_string m p s" "length s < 2 ^ 63"
  shows "k \<le> int (length s) \<Longrightarrow> back_scan m p c n k = back_scan (mem_of s) 0 c n k"
proof (induction "nat (k + 1)" arbitrary: k n)
  case 0
  then show ?case by (subst (1 2) back_scan.simps) simp
next
  case (Suc x)
  then have "0 \<le> k" by simp
  then obtain i where k: "k = int i" by (rule nonneg_int_cases)
  have "m (p + of_nat i) = mem_of s (of_nat i)"
    using Suc.prems s c_string_at [OF s(1), of i] by (simp add: mem_of_at k)
  then show ?case
    using Suc k by (subst (1 2) back_scan.simps) simp
qed

lemma back_scan_bound:
  "n \<le> 2 \<Longrightarrow> -1 \<le> k \<Longrightarrow> 0 \<le> back_scan m p c n k \<Longrightarrow> back_scan m p c n k \<le> k - (2 - n)"
proof (induction "nat (k + 1)" arbitrary: k n)
  case 0
  then show ?case by (subst (asm) back_scan.simps) simp
next
  case (Suc x)
  show ?case
  proof (cases "n < 2")
    case True
    define n' where "n' = (if m (p + of_int k) = c then n + 1 else n)"
    have k: "0 \<le> k" "x = nat (k - 1 + 1)" using Suc.hyps(2) by auto
    then have e: "back_scan m p c n k = back_scan m p c n' (k - 1)"
      using True by (subst back_scan.simps) (simp add: n'_def)
    have n': "n' \<le> 2" "n' \<le> n + 1" using True by (simp_all add: n'_def)
    have "0 \<le> back_scan m p c n' (k - 1)" using Suc.prems(3) unfolding e .
    from Suc.hyps(1) [OF k(2) n'(1) _ this] k(1) n'(2) show ?thesis unfolding e by simp
  next
    case False
    then show ?thesis using Suc.prems(1) by (subst back_scan.simps) simp
  qed
qed

text \<open>The routine implements \<open>cut\<close>.\<close>

lemma substr_tillchar_cut:
  assumes s: "c_string m p s" and n: "length s < 2 ^ 31 - 2" and nul: "m nul = 0"
  shows "\<exists>m'. substr_tillchar nul p c m = Some (m', snd (cut s c)) \<and> c_string m' p (fst (cut s c))"
proof -
  define m1 where "m1 = m(p + of_nat (length s) + 1 := 0)"
  have len: "strlen nul p m = Some (m1, int (length s))"
    unfolding m1_def using s n nul by (intro strlen_eq) simp_all
  have "p + of_nat (length s) + 1 \<noteq> p + of_nat j" if "j < Suc (length s)" for j
    using offset_inj [of "Suc (length s)" j p] that n by (simp add: add.assoc add.commute)
  then have s1: "c_string m1 p s"
    unfolding m1_def using s by (subst c_string_upd) simp_all
  define r where "r = back_scan (mem_of s) 0 c 0 (int (length s))"
  have scan: "back_scan m1 p c 0 (int (length s)) = r"
    unfolding r_def using n by (intro back_scan_mem_of [OF s1]) simp_all
  show ?thesis
  proof (cases "r < 0")
    case True
    with len scan show ?thesis by (simp add: substr_tillchar_def cut_def Let_def flip: r_def)
  next
    case False
    define k where "k = nat (r + 2)"
    have k: "r + 2 = int k" "k \<le> length s"
      using False back_scan_bound [of 0 "int (length s)" "mem_of s" 0 c] by (simp_all add: k_def flip: r_def)
    have "of_int (r + 2) = (of_nat k :: u64)" "of_int (r + 2 + 1) = (of_nat (Suc k) :: u64)"
      unfolding k(1) by simp_all
    moreover have "substr_tillchar nul p c m = Some (m1(p + of_int (r + 2) := 0, p + of_int (r + 2 + 1) := 0), 0)"
      using False len scan by (simp add: substr_tillchar_def Let_def del: of_int_add)
    ultimately have "substr_tillchar nul p c m = Some (m1(p + of_nat k := 0, p + of_nat (Suc k) := 0), 0)"
      by (simp only:)
    moreover have "cut s c = (take k s, 0)" using False by (simp add: cut_def k_def Let_def flip: r_def)
    moreover have "c_string (m1(p + of_nat k := 0, p + of_nat (Suc k) := 0)) p (take k s)"
      unfolding c_string_iff
    proof (intro conjI allI impI)
      fix i assume "i < length (take k s)"
      then have i: "i < k" using k(2) by simp
      then have "p + of_nat i \<noteq> p + of_nat k" "p + of_nat i \<noteq> p + of_nat (Suc k)"
        using n k(2) by (subst offset_inj; simp)+
      then show "(m1(p + of_nat k := 0, p + of_nat (Suc k) := 0)) (p + of_nat i) = take k s ! i"
        using s1 i k(2) by (simp add: c_string_iff)
    next
      show "0 \<notin> set (take k s)" using s1 by (auto simp: c_string_iff dest: in_set_takeD)
    qed (use k(2) in simp)
    ultimately show ?thesis by simp
  qed
qed

text \<open>It drops the last component of a path that ends in the separator.\<close>

lemma cut_path:
  assumes "0 \<notin> set (pre @ mid)" and c: "c \<noteq> 0" "c \<notin> set mid" and n: "length pre + length mid < 2 ^ 63"
  shows "cut (pre @ c # mid @ [c]) c = (if pre = [] then ([], -1) else (pre @ [c], 0))"
proof -
  let ?s = "pre @ c # mid @ [c]"
  have "c_string (mem_of ?s) 0 ?s" using assms by (intro c_string_mem_of) auto
  from back_scan_path [OF this c] have "back_scan (mem_of ?s) 0 c 0 (int (length ?s)) = int (length pre) - 1" .
  then show ?thesis by (cases pre) (simp_all add: cut_def nat_add_distrib)
qed

lemma cut_single:
  assumes "0 \<notin> set mid" and c: "c \<noteq> 0" "c \<notin> set mid" and n: "length mid < 2 ^ 63"
  shows "cut (mid @ [c]) c = ([], -1)"
proof -
  let ?s = "mid @ [c]"
  have at: "mem_of ?s (of_int (int i)) = (if i < length mid then mid ! i else if i = length mid then c else 0)"
    if "i \<le> Suc (length mid)" for i
    using that n by (simp add: mem_of_at nth_append)
  have "back_scan (mem_of ?s) 0 c 0 (int (length ?s)) = back_scan (mem_of ?s) 0 c 0 (int (length mid))"
    using at [of "Suc (length mid)"] c(1) by (subst back_scan.simps) simp
  also have "\<dots> = back_scan (mem_of ?s) 0 c 1 (int (length mid) - 1)"
    using at [of "length mid"] by (subst back_scan.simps) simp
  also have "\<dots> = back_scan (mem_of ?s) 0 c 1 (0 - 1)"
  proof (rule back_scan_skip)
    fix j assume "0 \<le> j" "j \<le> int (length mid) - 1"
    then obtain i where "j = int i" "i < length mid" using nonneg_int_cases [of j] by auto
    then show "mem_of ?s (0 + of_int j) \<noteq> c" using at [of i] c(2) by auto
  qed simp_all
  also have "\<dots> = -1" by (subst back_scan.simps) simp
  finally show ?thesis by (simp add: cut_def)
qed

section \<open>Numbers\<close>

text \<open>The value a digit string denotes to \<open>atoi\<close>, from a value already read.\<close>

definition dval :: "int \<Rightarrow> u8 list \<Rightarrow> int" where
  "dval v ds = foldl (\<lambda>a d. a * 10 + (uint d - 48)) v ds"

definition is_digit :: "u8 \<Rightarrow> bool" where
  "is_digit d \<longleftrightarrow> 48 \<le> d \<and> d \<le> 57"

lemma dval_simps [simp]: "dval v [] = v" "dval v (d # ds) = dval (v * 10 + (uint d - 48)) ds"
  "dval v (ds @ [d]) = dval v ds * 10 + (uint d - 48)"
  by (simp_all add: dval_def)

lemma is_digit_uint: "is_digit d \<Longrightarrow> 48 \<le> uint d \<and> uint d \<le> 57"
  by (simp add: is_digit_def word_le_def)

lemma sint_digit: "is_digit d \<Longrightarrow> sint d = uint d"
  using is_digit_uint [of d] by (simp add: sint_uint signed_take_bit_int_eq_self)

lemma dval_mono: "0 \<le> v \<Longrightarrow> list_all is_digit ds \<Longrightarrow> v \<le> dval v ds"
proof (induction ds arbitrary: v)
  case (Cons d ds)
  then have "v \<le> v * 10 + (uint d - 48)" using is_digit_uint [of d] by simp
  also have "\<dots> \<le> dval (v * 10 + (uint d - 48)) ds"
    using Cons is_digit_uint [of d] by (intro Cons.IH) simp_all
  finally show ?case by simp
qed simp

lemma atoi_loop_eq:
  "c_string m p ds \<Longrightarrow> list_all is_digit ds \<Longrightarrow> 0 \<le> v \<Longrightarrow> dval v ds < 2 ^ 31 \<Longrightarrow>
     atoi_loop m p v = Some (dval v ds)"
proof (induction ds arbitrary: p v)
  case Nil
  then show ?case by (subst atoi_loop.simps) simp
next
  case (Cons d ds)
  define w where "w = v * 10 + (uint d - 48)"
  have d: "48 \<le> uint d" "uint d \<le> 57" "sint d = uint d"
    using Cons.prems(2) is_digit_uint [of d] sint_digit [of d] by simp_all
  have "w \<le> dval w ds" "0 \<le> w" "v * 10 \<le> w"
    using Cons.prems d by (auto simp: w_def intro!: dval_mono)
  with Cons.prems have "i32 (v * 10) = v * 10" "i32 w = w"
    by (auto intro!: i32_id simp: in_i32_def w_def [symmetric])
  then have "i32 (i32 (v * 10) + (sint d - 48)) = w" by (simp add: w_def d)
  moreover have "atoi_loop m (p + 1) w = Some (dval w ds)"
    using Cons.prems \<open>0 \<le> w\<close> by (intro Cons.IH) (simp_all add: w_def)
  ultimately show ?case
    using Cons.prems by (subst atoi_loop.simps) (simp add: w_def)
qed

lemma atoi_eq:
  "c_string m p ds \<Longrightarrow> list_all is_digit ds \<Longrightarrow> dval 0 ds < 2 ^ 31 \<Longrightarrow> atoi m p = Some (dval 0 ds)"
  by (simp add: atoi_def atoi_loop_eq)

text \<open>\<open>pow\<close> is the power, wrapped; \<open>octtodec\<close> reads decimal digits as octal ones.\<close>

lemma i32_mult: "i32 (a * i32 b) = i32 (a * b)"
  and i32_add: "i32 (i32 a + b) = i32 (a + b)" "i32 (a + i32 b) = i32 (a + b)"
  unfolding i32_def by (simp_all add: signed_take_bit_mult [of 31 a b, symmetric] signed_take_bit_add [of 31 a b, symmetric]
    signed_take_bit_mult [of 31 a "signed_take_bit 31 b", symmetric]
    signed_take_bit_add [of 31 "signed_take_bit 31 a" b, symmetric] signed_take_bit_add [of 31 a "signed_take_bit 31 b", symmetric])

lemma pow_eq: "n < 2 ^ 31 \<Longrightarrow> pow b (int n) = Some (i32 (b ^ n))"
proof (induction n)
  case 0
  have "i32 1 = 1" by (intro i32_id) (simp add: in_i32_def)
  then show ?case by (subst pow.simps) simp
next
  case (Suc n)
  have "i32 (int (Suc n) - 1) = int n" using Suc.prems by (simp add: i32_id in_i32_def)
  with Suc show ?case by (subst pow.simps) (simp add: i32_mult)
qed

fun octval :: "nat \<Rightarrow> nat" where
  "octval n = (if n = 0 then 0 else n mod 10 + 8 * octval (n div 10))"

declare octval.simps [simp del]

lemma octval_step: "octval n = n mod 10 + 8 * octval (n div 10)"
  by (cases "n = 0") (simp_all add: octval.simps)

lemma octtodec_loop_eq:
  "n < 2 ^ 31 \<Longrightarrow> e + n < 2 ^ 31 \<Longrightarrow>
     octtodec_loop (int n) (i32 v) (int e) = Some (i32 (v + int (octval n * 8 ^ e)))"
proof (induction n arbitrary: v e rule: less_induct)
  case (less n)
  show ?case
  proof (cases "n = 0")
    case True
    then show ?thesis by (subst octtodec_loop.simps) (simp add: octval.simps)
  next
    case False
    let ?w = "v + int (n mod 10) * 8 ^ e"
    have "octtodec_loop (int (n div 10)) (i32 ?w) (int (Suc e)) =
        Some (i32 (?w + int (octval (n div 10) * 8 ^ Suc e)))"
      by (rule less.IH) (use False less.prems in auto)
    also have "?w + int (octval (n div 10) * 8 ^ Suc e) = v + int (octval n * 8 ^ e)"
      using octval_step [of n] by (simp add: algebra_simps)
    finally have "octtodec_loop (int (n div 10)) (i32 ?w) (int (Suc e)) =
        Some (i32 (v + int (octval n * 8 ^ e)))" .
    moreover have "i32 (int e + 1) = int (Suc e)"
      using less.prems False by (simp add: i32_id in_i32_def)
    moreover have "i32 (i32 v + i32 (int (n mod 10) * i32 (8 ^ e))) = i32 ?w"
      by (simp only: i32_mult i32_add)
    moreover have "int n mod 10 = int (n mod 10)" "int n div 10 = int (n div 10)"
      by (simp_all add: zmod_int zdiv_int)
    ultimately show ?thesis
      using False less.prems pow_eq [of e 8] by (subst octtodec_loop.simps) simp
  qed
qed

lemma octtodec_eq: "n < 2 ^ 31 \<Longrightarrow> octtodec (int n) = Some (i32 (int (octval n)))"
  using octtodec_loop_eq [of n 0 0] by (simp add: octtodec_def i32_id in_i32_def)

text \<open>An octal numeral, read as decimal and converted, has its octal value.\<close>

definition oval :: "u8 list \<Rightarrow> nat" where
  "oval ds = foldl (\<lambda>a d. a * 8 + (unat d - 48)) 0 ds"

lemma octval_dval:
  "list_all is_digit ds \<Longrightarrow> octval (nat (dval 0 ds)) = oval ds"
proof (induction ds rule: rev_induct)
  case Nil
  then show ?case by (simp add: octval.simps oval_def)
next
  case (snoc d ds)
  have d: "48 \<le> uint d" "uint d \<le> 57" using is_digit_uint [of d] snoc.prems by simp_all
  define x k where "x = nat (dval 0 ds)" and "k = unat d - 48"
  have k: "uint d - 48 = int k" "k < 10"
    using d unfolding k_def by (simp_all add: of_nat_diff word_le_nat_alt nat_le_iff flip: nat_uint_eq)
  have "dval 0 ds = int x" using dval_mono [of 0 ds] snoc.prems by (simp add: x_def)
  then have "nat (dval 0 (ds @ [d])) = x * 10 + k" by (simp add: k(1) nat_add_distrib nat_mult_distrib)
  then have "octval (nat (dval 0 (ds @ [d]))) = k + 8 * octval x"
    using k(2) by (subst octval_step) simp
  then show ?case using snoc by (simp add: oval_def k_def x_def)
qed

lemma octtodec_atoi:
  assumes s: "c_string m p ds" and d: "list_all is_digit ds" and n: "dval 0 ds < 2 ^ 31" "oval ds < 2 ^ 31"
  shows "Option.bind (atoi m p) octtodec = Some (int (oval ds))"
proof -
  have "0 \<le> dval 0 ds" using dval_mono [of 0 ds] d by simp
  then have v: "dval 0 ds = int (nat (dval 0 ds))" by simp
  have "nat (dval 0 ds) < 2 ^ 31" using n(1) by simp
  from octtodec_eq [OF this] have "octtodec (dval 0 ds) = Some (i32 (int (oval ds)))"
    using \<open>0 \<le> dval 0 ds\<close> by (simp add: octval_dval [OF d])
  with atoi_eq [OF s d n(1)] n(2) show ?thesis
    by (simp add: i32_id in_i32_nat)
qed

end
