(* ===== verification/Kernel.thy ===== *)
theory Kernel
  imports KernelHeap KString
begin

text \<open>
  The kernel's objects and its global state: the structures of \<^verbatim>\<open>include/sys/process.h\<close> and
  \<^verbatim>\<open>include/sys/tarfs.h\<close> as records, one heap per structure type, and the globals of
  \<^verbatim>\<open>sys/process.c\<close> and \<^verbatim>\<open>sys/tarfs.c\<close>, as an extension of the state of the memory manager.

  A pointer is an address; 0 is \<^verbatim>\<open>NULL\<close>. An object that \<open>kmalloc\<close> just returned has every
  field 0. A \<^verbatim>\<open>char\<close> array that holds a string is the list of the bytes before its NUL; copying
  into an array of \<open>n\<close> bytes a string that does not fit (\<open>strcpy\<close> writes two NULs) is an error,
  \<open>None\<close>. \<open>out\<close> is the text given to \<open>kprintf\<close>.
\<close>

record vma =
  vm_mm :: u64
  vm_next :: u64
  vm_start :: u64
  vm_end :: u64
  vm_type :: u64
  vm_flags :: u64
  vm_file :: u64
  file_start :: u64
  file_size :: u64

definition null_vma :: vma where
  "null_vma = \<lparr>vm_mm = 0, vm_next = 0, vm_start = 0, vm_end = 0, vm_type = 0, vm_flags = 0,
     vm_file = 0, file_start = 0, file_size = 0\<rparr>"

record mm_struct =
  code_start :: u64
  code_end :: u64
  data_start :: u64
  data_end :: u64
  start_brk :: u64
  stack_start :: u64
  arg_start :: u64
  arg_end :: u64
  env_start :: u64
  env_end :: u64
  mm_rip :: u64
  vm_total :: u64
  mm_vma :: u64
  vma_count :: u64
  mmap_start_addr :: u64
  mmap_end_addr :: u64
  mmap_alloc_addr :: u64

definition null_mm :: mm_struct where
  "null_mm = \<lparr>code_start = 0, code_end = 0, data_start = 0, data_end = 0, start_brk = 0, stack_start = 0,
     arg_start = 0, arg_end = 0, env_start = 0, env_end = 0, mm_rip = 0, vm_total = 0, mm_vma = 0, vma_count = 0, mmap_start_addr = 0,
     mmap_end_addr = 0, mmap_alloc_addr = 0\<rparr>"

record tarfile =
  t_name :: "u8 list"
  t_size :: u64
  t_addr :: u64
  read_addr :: u64
  inode :: u64
  p_inode :: u64
  t_type :: u64

definition null_tarfile :: tarfile where
  "null_tarfile = \<lparr>t_name = [], t_size = 0, t_addr = 0, read_addr = 0, inode = 0, p_inode = 0, t_type = 0\<rparr>"

text \<open>The states of a process, \<^verbatim>\<open>TASK_*\<close>; a fresh block holds 0, which is none of them.\<close>

datatype task_state =
  TASK_NONE | TASK_NEW | TASK_READY | TASK_RUNNING | TASK_WAITING | TASK_STOPPED | TASK_ZOMBIE

record pcb =
  pid :: cint
  ppid :: cint
  p_name :: "u8 list"
  init_kernel :: u64
  user_stack :: u64
  rsp :: u64
  kern_rsp :: u64
  fd :: "tarfile list"
  fd_count :: u64
  rip :: u64
  cr3 :: u64
  state :: task_state
  n_child :: cint
  curr_dir :: "u8 list"
  temp_curr_dir :: "u8 list"
  echo_var_key :: "u8 list list"
  echo_var :: "u8 list list"
  echo_count :: cint
  next_proc :: u64
  mm :: u64

definition null_pcb :: pcb where
  "null_pcb = \<lparr>pid = 0, ppid = 0, p_name = [], init_kernel = 0, user_stack = 0, rsp = 0, kern_rsp = 0,
     fd = replicate 5 null_tarfile, fd_count = 0, rip = 0, cr3 = 0, state = TASK_NONE, n_child = 0,
     curr_dir = [], temp_curr_dir = [], echo_var_key = replicate 5 [], echo_var = replicate 5 [],
     echo_count = 0, next_proc = 0, mm = 0\<rparr>"

record kernel = paging +
  vmas :: "u64 \<Rightarrow> vma"
  mms :: "u64 \<Rightarrow> mm_struct"
  pcbs :: "u64 \<Rightarrow> pcb"
  processID :: u64
  first_process :: u64
  curr_process :: u64
  next_process :: u64
  stopped_process :: u64
  forked_process :: u64
  zombie :: u64
  rsp_pointer :: u64
  tss_rsp0 :: u64
  global_tarfs :: "tarfile list"
  file_count :: cint
  out :: "u8 list"

definition fits :: "nat \<Rightarrow> u8 list \<Rightarrow> bool" where
  "fits n s \<longleftrightarrow> length s + 2 \<le> n"

definition upd_pcb :: "u64 \<Rightarrow> (pcb \<Rightarrow> pcb) \<Rightarrow> kernel \<Rightarrow> kernel" where
  "upd_pcb p f st = st\<lparr>pcbs := (pcbs st)(p := f (pcbs st p))\<rparr>"

definition print :: "u8 list \<Rightarrow> kernel \<Rightarrow> kernel" where
  "print s st = st\<lparr>out := out st @ s\<rparr>"

text \<open>String literals as bytes.\<close>

definition bytes :: "string \<Rightarrow> u8 list" where
  "bytes s = map of_char s"

text \<open>A kernel with no objects, over a state of the memory manager.\<close>

definition bare_kernel :: "paging \<Rightarrow> kernel" where
  "bare_kernel p = \<lparr>free_map = free_map p, pm = pm p, reg_cr3 = reg_cr3 p, g_cr3 = g_cr3 p,
     g_pml4 = g_pml4 p, g_pdpt = g_pdpt p, g_pd = g_pd p, g_pt = g_pt p,
     physfree_start = physfree_start p, physfree_end = physfree_end p, virt_addr = virt_addr p,
     vmas = (\<lambda>_. null_vma), mms = (\<lambda>_. null_mm), pcbs = (\<lambda>_. null_pcb), processID = 0,
     first_process = 0, curr_process = 0, next_process = 0, stopped_process = 0, forked_process = 0,
     zombie = 0, rsp_pointer = 0, tss_rsp0 = 0, global_tarfs = replicate 100 null_tarfile, file_count = 3, out = []\<rparr>"

lemma bare_kernel_simps [simp]:
  "pm (bare_kernel p) = pm p" "reg_cr3 (bare_kernel p) = reg_cr3 p" "avail (bare_kernel p) = avail p"
  "processID (bare_kernel p) = 0" "pcbs (bare_kernel p) = (\<lambda>_. null_pcb)" "free_map (bare_kernel p) = free_map p"
  by (simp_all add: bare_kernel_def avail_def)

lemma avail_kernel [simp]:
  "avail (st\<lparr>processID := d\<rparr>) = avail st" "avail (st\<lparr>curr_process := e\<rparr>) = avail st"
  "avail (st\<lparr>out := f\<rparr>) = avail st"
  "avail (st\<lparr>vmas := a\<rparr>) = avail st" "avail (st\<lparr>mms := b\<rparr>) = avail st" "avail (st\<lparr>pcbs := c\<rparr>) = avail st"
  by (simp_all add: avail_def)

text \<open>The user stack and the heap of a process have fixed places.\<close>

abbreviation (input) STACK_ADDR :: u64 where "STACK_ADDR \<equiv> 0x444ff000000"
abbreviation (input) STACK_END :: u64 where "STACK_END \<equiv> 0x444ff010000"
abbreviation (input) HEAP_ADDR :: u64 where "HEAP_ADDR \<equiv> 0x400ee000000"
abbreviation (input) HEAP_END :: u64 where "HEAP_END \<equiv> 0x400ee010000"

end
