(* ===== verification/PagingSpec.thy ===== *)
theory PagingSpec
  imports KernelHeap
begin

text \<open>
  The properties of the memory manager, stated over its operations, and a small machine state on
  which their hypotheses hold: the direct map of one 2 MiB region (tables at 0x1000 to 0x4000) and
  seven free frames above it.
\<close>

unbundle bit_operations_syntax

section \<open>A concrete state\<close>

definition demo_pm :: "u64 \<Rightarrow> u64" where
  "demo_pm x =
     (if x = 0x1FF8 then 0x2003 else if x = 0x2FF0 then 0x3003 else if x = 0x3000 then 0x4003 else 0)"

definition demo_levels :: "u64 \<Rightarrow> nat option" where
  "demo_levels t =
     (if t = 0x1000 then Some 4 else if t = 0x2000 then Some 3 else if t = 0x3000 then Some 2
      else if t = 0x4000 then Some 1 else None)"

definition demo :: paging where
  "demo = \<lparr>free_map = (\<lambda>i. if i = 0 then 0xFE0 else 0), pm = demo_pm, reg_cr3 = 0x1000, g_cr3 = 0x1000,
     g_pml4 = 0x1000, g_pdpt = 0, g_pd = 0, g_pt = 0, physfree_start = 0, physfree_end = 0x3000,
     virt_addr = 0\<rparr>"

lemma demo_simps [simp]:
  "pm demo = demo_pm" "reg_cr3 demo = 0x1000" "g_pml4 demo = 0x1000" "physfree_end demo = 0x3000"
  by (simp_all add: demo_def)

lemma demo_slot:
  assumes "demo_levels t = Some l" "i < 512"
  shows "demo_pm (slot t i) =
    (if t = 0x1000 \<and> i = 511 then 0x2003 else if t = 0x2000 \<and> i = 510 then 0x3003
     else if t = 0x3000 \<and> i = 0 then 0x4003 else 0)"
proof -
  have t: "page_aligned t"
    using assms(1) by (auto simp: demo_levels_def page_aligned_def split: if_splits)
  have eq: "(0x1FF8 :: u64) = slot 0x1000 511" "(0x2FF0 :: u64) = slot 0x2000 510" "(0x3000 :: u64) = slot 0x3000 0"
    by (simp_all add: slot_def)
  have al: "page_aligned 0x1000" "page_aligned 0x2000" "page_aligned 0x3000"
    by (simp_all add: page_aligned_def)
  have "slot t i = 0x1FF8 \<longleftrightarrow> t = 0x1000 \<and> i = 511" "slot t i = 0x2FF0 \<longleftrightarrow> t = 0x2000 \<and> i = 510"
    unfolding eq using t al assms(2) by (simp_all add: slot_inj)
  moreover have "slot t i = 0x3000 \<longleftrightarrow> t = 0x3000 \<and> i = 0"
    by (subst eq(3), subst slot_inj) (simp_all add: t al assms(2))
  ultimately show ?thesis by (simp add: demo_pm_def slot_def)
qed

lemma demo_remove_flag [simp]:
  "remove_flag 0x2003 = 0x2000" "remove_flag 0x3003 = 0x3000" "remove_flag 0x4003 = 0x4000"
  "present 0x2003" "present 0x3003" "present 0x4003"
  by (simp_all add: remove_flag_def present_def)

lemma demo_wf: "wf_tables demo_pm 0x1000 demo_levels"
proof (rule wf_tablesI)
  show "demo_levels 0x1000 = Some 4" by (simp add: demo_levels_def)
  show "page_aligned t \<and> unat t < 2 ^ 26" if "demo_levels t = Some l" for t l
    using that by (auto simp: demo_levels_def page_aligned_def split: if_splits)
  show "demo_levels (remove_flag (demo_pm (slot t i))) = Some (Suc l)"
    if "demo_levels t = Some (Suc (Suc l))" "i < 512" "present (demo_pm (slot t i))" for t l i
    using that demo_slot [OF that(1,2)] by (auto simp: demo_levels_def split: if_splits)
  show "t = t' \<and> i = i'"
    if t: "demo_levels t = Some (Suc (Suc l))" "i < 512" "present (demo_pm (slot t i))"
      and t': "demo_levels t' = Some (Suc (Suc l'))" "i' < 512" "present (demo_pm (slot t' i'))"
      and eq: "remove_flag (demo_pm (slot t i)) = remove_flag (demo_pm (slot t' i'))" for t l i t' l' i'
    using t(3) t'(3) eq demo_slot [OF t(1,2)] demo_slot [OF t'(1,2)] by (auto split: if_splits)
qed

lemma demo_avail: "avail demo = {0x5000, 0x6000, 0x7000, 0x8000, 0x9000, 0xA000, 0xB000}"
proof -
  have bits: "page_bit (free_map demo) n \<longleftrightarrow> n \<in> {5, 6, 7, 8, 9, 10, 11}" if n: "n < 16384" for n
  proof (cases "n < 64")
    case True
    have eq: "(0xFE0 :: u64) = push_bit 5 (mask 7)" by (simp add: mask_eq_exp_minus_1)
    have "bit (0xFE0 :: u64) n \<longleftrightarrow> 5 \<le> n \<and> n < 12"
      unfolding eq bit_push_bit_iff bit_mask_iff using True by auto
    then have "page_bit (free_map demo) n \<longleftrightarrow> 5 \<le> n \<and> n < 12"
      using True by (simp add: page_bit_def demo_def)
    then show ?thesis by auto
  next
    case False
    have "unat (of_nat (n div 64) :: u64) = n div 64" using n by (intro unat_of_nat64) simp
    with False have "(of_nat (n div 64) :: u64) \<noteq> 0" by (auto simp: word_unat_eq_iff)
    with False show ?thesis by (auto simp: page_bit_def demo_def)
  qed
  then have "free_frames (free_map demo) = {5, 6, 7, 8, 9, 10, 11}"
    by (auto simp: free_frames_def)
  then show ?thesis by (simp add: avail_image)
qed

lemma demo_free: "free_frames (free_map demo) = {5, 6, 7, 8, 9, 10, 11}"
proof -
  have "free_frames (free_map demo) = (\<lambda>a. unat a div 4096) ` avail demo"
    by (auto simp: avail_image image_image frame_addr free_frames_def)
  then show ?thesis by (simp add: demo_avail)
qed

lemma demo_inv: "table_inv (pm demo) (avail demo) 0x1000 demo_levels"
  using demo_wf by (auto simp: table_inv_def demo_avail demo_levels_def split: if_splits)

lemma demo_card: "card (avail demo) = 7"
  by (simp add: demo_avail)

lemma demo_cost: "path_cost demo_pm 0x1000 va \<le> 3"
  by (simp add: path_cost_def)

text \<open>The same state with frame 0xC000 mapped at page 5 of the direct map, and once more with the mark of a shared page.\<close>

definition demo_mapped :: "u64 \<Rightarrow> paging" where
  "demo_mapped e = demo\<lparr>pm := demo_pm(slot 0x4000 5 := e)\<rparr>"

lemma demo_leaf: "leaf_of demo_pm 0x1000 (indices 0xFFFFFFFF80005000) = Some (0x4000, 5)"
proof -
  have "get_index 0xFFFFFFFF80005000 39 = 511" "get_index 0xFFFFFFFF80005000 30 = 510"
    "get_index 0xFFFFFFFF80005000 21 = 0" "get_index 0xFFFFFFFF80005000 12 = 5"
    by (simp_all add: get_index_def word_unat_eq_iff)
  moreover have "demo_pm (slot 0x1000 511) = 0x2003" "demo_pm (slot 0x2000 510) = 0x3003"
    "demo_pm (slot 0x3000 0) = 0x4003"
    by (simp_all add: demo_pm_def slot_def)
  ultimately show ?thesis by (simp add: indices_def)
qed

lemma demo_mapped_facts:
  assumes "present e"
  shows "table_inv (pm (demo_mapped e)) (avail (demo_mapped e)) 0x1000 demo_levels"
    and "translate (pm (demo_mapped e)) 0x1000 0xFFFFFFFF80005000 = Some e"
    and "no_cow (pm (demo_mapped e)) demo_levels"
    and "avail (demo_mapped e) = avail demo" and "reg_cr3 (demo_mapped e) = 0x1000"
proof -
  note w = translate_leaf_write [OF demo_inv [simplified] demo_leaf assms]
  show "table_inv (pm (demo_mapped e)) (avail (demo_mapped e)) 0x1000 demo_levels"
    "translate (pm (demo_mapped e)) 0x1000 0xFFFFFFFF80005000 = Some e"
    using w by (simp_all add: demo_mapped_def)
  show "no_cow (pm (demo_mapped e)) demo_levels"
    unfolding no_cow_def
  proof (intro allI impI, elim conjE)
    fix t i :: u64 and l assume t: "demo_levels t = Some (Suc (Suc l))" "i < 512"
    have "(demo_pm(slot 0x4000 5 := e)) (slot t i) = demo_pm (slot t i)"
      by (rule leaf_write_other [OF demo_wf _ _ t]) (simp_all add: demo_levels_def)
    then show "pm (demo_mapped e) (slot t i) AND 0x200 = 0"
      by (simp add: demo_mapped_def demo_slot [OF t])
  qed
qed (simp_all add: demo_mapped_def)

lemma demo_unmapped: "translate demo_pm 0x1000 va = None"
proof (cases "leaf_of demo_pm 0x1000 (indices va)")
  case None
  then show ?thesis by (simp add: translate_def entry_at_def)
next
  case (Some x)
  then obtain t i where leaf: "leaf_of demo_pm 0x1000 (indices va) = Some (t, i)" by (cases x) auto
  have "demo_levels 0x1000 = Some (length (indices va))" by (simp add: demo_levels_def indices_def)
  from leaf_of_level [OF demo_wf this indices_less leaf] have t: "demo_levels t = Some 1" "i < 512" by auto
  then have "t = 0x4000" by (auto simp: demo_levels_def split: if_splits)
  with leaf demo_slot [OF t] show ?thesis by (simp add: translate_def entry_at_def)
qed

lemma demo_no_cow: "no_cow demo_pm demo_levels"
  unfolding no_cow_def by (auto simp: demo_slot)

section \<open>The frame allocator\<close>

text \<open>C1: \<open>allocate_virt_page\<close> hands out the lowest free frame and takes exactly that frame out of the free set; nothing but the bitmap changes.\<close>

theorem allocate_virt_page_lowest:
  assumes "avail st \<noteq> {}" and "allocate_virt_page st = (st', a)"
  shows "a = Min (avail st) \<and> avail st' = avail st - {a} \<and> st' = st\<lparr>free_map := free_map st'\<rparr>"
  using allocate_virt_page_avail [OF assms] by (auto intro!: Min_eqI [symmetric])

theorem allocate_virt_page_lowest_witness:
  "snd (allocate_virt_page demo) = 0x5000"
proof -
  have "avail demo \<noteq> {}" by (simp add: demo_avail)
  from allocate_virt_page_lowest [OF this, of "fst (allocate_virt_page demo)" "snd (allocate_virt_page demo)"]
  show ?thesis by (simp add: demo_avail)
qed



text \<open>\<open>n\<close> allocations in a row, with at least \<open>n\<close> frames free, give \<open>n\<close> different frames, all free before and none free after.\<close>

theorem allocations_distinct:
  assumes "n \<le> card (avail st)" and "alloc_seq allocate_virt_page n st = (st', as)"
  shows "length as = n \<and> distinct as \<and> set as \<subseteq> avail st \<and> avail st' = avail st - set as"
  using assms by (rule frames.alloc_seq_distinct)

theorem allocations_distinct_witness:
  "distinct (snd (alloc_seq allocate_virt_page 7 demo))"
  using allocations_distinct [of 7 demo "fst (alloc_seq allocate_virt_page 7 demo)"
      "snd (alloc_seq allocate_virt_page 7 demo)"]
  by (simp add: demo_card)

text \<open>C9: \<open>init_paging\<close> marks as free exactly the frames from the end of the bitmap up to the end of memory (as long as memory has fewer than 2^19 frames); words of the bitmap past its 256 keep the bits they had.\<close>

theorem init_paging_bits:
  assumes "unat ((base + len) div PAGE_SIZE) \<le> 2 ^ 19" and "n < 2 ^ 64"
  shows "page_bit (free_map (init_paging physbase physfree base len st)) n \<longleftrightarrow>
    (16384 \<le> n \<and> page_bit (free_map st) n) \<or>
    (n < unat ((base + len) div PAGE_SIZE) \<and> unat (physfree + 2048) \<le> n * 4096)"
  using assms by (rule init_paging_page_bit)

theorem init_paging_bits_witness:
  "page_bit (free_map (init_paging 0 0 0 0x100000 demo)) 255 \<and> \<not> page_bit (free_map (init_paging 0 0 0 0x100000 demo)) 256"
proof -
  have "(0x100000 :: u64) div PAGE_SIZE = 256" by (simp add: word_unat_eq_iff unat_div)
  then show ?thesis
    using init_paging_bits [of 0 "0x100000" 255 0 0 demo] init_paging_bits [of 0 "0x100000" 256 0 0 demo]
    by (simp add: page_bit_def demo_def)
qed

section \<open>Mapping\<close>

text \<open>C2: \<open>map_virt_to_phys_addr\<close> is the update of a function: the page of the address is then mapped to the given frame, present and writable, every other page is mapped as before, the table tree stays well-formed and apart from the free frames, and no memory outside the tables and the frames taken changes.\<close>

theorem map_virt_to_phys_addr_correct:
  assumes "table_inv (pm st) (avail st) (g_pml4 st) L"
    and "path_cost (pm st) (g_pml4 st) va \<le> card (avail st)"
    and "st' = map_virt_to_phys_addr va phys st"
  shows "(\<exists>L'. table_inv (pm st') (avail st') (g_pml4 st) L' \<and> L \<subseteq>\<^sub>m L' \<and> dom L' \<subseteq> dom L \<union> avail st) \<and>
    (\<forall>va'. translate (pm st') (g_pml4 st) va' =
       (if indices va' = indices va then Some (phys OR 3) else translate (pm st) (g_pml4 st) va')) \<and>
    (\<forall>x. remove_flag x \<notin> dom L \<and> remove_flag x \<notin> avail st \<longrightarrow> pm st' x = pm st x)"
proof -
  obtain L' where m: "maps_page (g_pml4 st) va (phys OR 3) (pm st) (avail st) L (pm st') (avail st') L'"
    by (rule map_virt_to_phys_addr_maps [OF assms])
  show ?thesis
    using maps_page_inv [OF m] maps_page_le [OF m] maps_page_dom [OF m] maps_page_translate [OF m]
      maps_page_data [OF m] by blast
qed

theorem map_virt_to_phys_addr_correct_witness:
  "translate (pm (map_virt_to_phys_addr 0x400000 0xC000 demo)) 0x1000 0x400000 = Some (0xC000 OR 3)"
  using map_virt_to_phys_addr_correct [where st = demo and L = demo_levels and va = "0x400000" and phys = "0xC000", OF _ _ refl]
    demo_inv demo_card demo_cost [of "0x400000"] by simp

text \<open>C3: The same holds of \<open>map_phys_to_virt_addr\<close>, which walks the live tree of \<^verbatim>\<open>cr3\<close> through the direct map.\<close>

theorem map_phys_to_virt_addr_correct:
  assumes "table_inv (pm st) (avail st) (reg_cr3 st) L"
    and "path_cost (pm st) (reg_cr3 st) va \<le> card (avail st)"
    and "st' = map_phys_to_virt_addr va phys st"
  shows "(\<exists>L'. table_inv (pm st') (avail st') (reg_cr3 st) L' \<and> L \<subseteq>\<^sub>m L' \<and> dom L' \<subseteq> dom L \<union> avail st) \<and>
    (\<forall>va'. translate (pm st') (reg_cr3 st) va' =
       (if indices va' = indices va then Some (phys OR 3) else translate (pm st) (reg_cr3 st) va')) \<and>
    (\<forall>x. remove_flag x \<notin> dom L \<and> remove_flag x \<notin> avail st \<longrightarrow> pm st' x = pm st x)"
proof -
  obtain L' where m: "maps_page (reg_cr3 st) va (phys OR 3) (pm st) (avail st) L (pm st') (avail st') L'"
    by (rule map_phys_to_virt_addr_maps [OF assms])
  show ?thesis
    using maps_page_inv [OF m] maps_page_le [OF m] maps_page_dom [OF m] maps_page_translate [OF m]
      maps_page_data [OF m] by blast
qed

theorem map_phys_to_virt_addr_correct_witness:
  "translate (pm (map_phys_to_virt_addr 0x400000 0xC000 demo)) 0x1000 0x400000 = Some (0xC000 OR 3)"
  using map_phys_to_virt_addr_correct [where st = demo and L = demo_levels and va = "0x400000" and phys = "0xC000", OF _ _ refl]
    demo_inv demo_card demo_cost [of "0x400000"] by simp

text \<open>C4: \<open>set_identity_paging\<close> returns, and then every page of physical memory is mapped at \<^verbatim>\<open>KERNEL_ADDR\<close> plus its address, and no other page is mapped differently, given three frames for each 2 MiB of memory.\<close>

theorem set_identity_paging_correct:
  assumes "table_inv (pm st) (avail st) (g_pml4 st) L"
    and "n = (unat (physfree_end st) + 4095) div 4096" and "n \<le> 2 ^ 19"
    and "direct_cost 0 n \<le> card (avail st)"
  shows "\<exists>st'. set_identity_paging st = Some st' \<and>
    (\<forall>j<n. translate (pm st') (g_pml4 st) (KERNEL_ADDR + of_nat (j * 4096)) = Some (of_nat (j * 4096) OR 3)) \<and>
    (\<forall>va. (\<forall>j<n. indices va \<noteq> indices (KERNEL_ADDR + of_nat (j * 4096))) \<longrightarrow>
       translate (pm st') (g_pml4 st) va = translate (pm st) (g_pml4 st) va)"
proof -
  have "\<exists>st' L'. identity_loop (direct 0) (of_nat (0 * 4096)) st = Some st' \<and>
     table_inv (pm st') (avail st') (g_pml4 st) L' \<and> g_pml4 st' = g_pml4 st \<and>
     directly_mapped (g_pml4 st) 0 n (pm st) (pm st')"
    by (rule identity_loop_maps [OF assms(1,3,2)]) (use assms(4) in \<open>simp_all add: region_ready_def\<close>)
  then show ?thesis
    unfolding set_identity_paging_def directly_mapped_def direct_def by simp blast
qed

theorem set_identity_paging_correct_witness:
  "\<exists>st'. set_identity_paging demo = Some st' \<and>
     translate (pm st') 0x1000 0xFFFFFFFF80002000 = Some 0x2003"
proof -
  obtain st' where "set_identity_paging demo = Some st'"
    "\<forall>j<3. translate (pm st') 0x1000 (KERNEL_ADDR + of_nat (j * 4096)) = Some (of_nat (j * 4096) OR 3)"
    using set_identity_paging_correct [of demo demo_levels 3] demo_inv demo_card
    by (auto simp: direct_cost_def)
  from this(1) this(2) [rule_format, of 2] show ?thesis by (intro exI [of _ st']) simp
qed

section \<open>Address spaces\<close>

text \<open>C6: \<open>map_phys_to_user_virt_addr\<close> maps, writable for user code, not the frame it is given but a fresh copy of it, which holds the same contents; every other page of the address space is mapped as before.\<close>

theorem map_phys_to_user_virt_addr_correct:
  assumes "table_inv (pm st) (avail st) r L"
    and "path_cost (pm st) r va + 1 \<le> card (avail st)"
    and "page_aligned phys" "unat phys < 2 ^ 26" "phys \<notin> dom L" "phys \<notin> avail st"
    and "st' = map_phys_to_user_virt_addr va phys r st"
  shows "\<exists>a L'. a \<in> avail st \<and> a \<notin> avail st' \<and> a \<noteq> phys \<and>
    table_inv (pm st') (avail st') r L' \<and> L' a = None \<and>
    (\<forall>va'. translate (pm st') r va' =
       (if indices va' = indices va then Some (a OR 7) else translate (pm st) r va')) \<and>
    (\<forall>i<512. pm st' (slot a i) = pm st (slot phys i))"
proof -
  obtain L' a where "a \<in> avail st" "a \<notin> avail st'" and
    m: "maps_page r va (a OR 7) (pm st) (avail st) L (pm st') (avail st') L'" and "L' a = None"
    "\<forall>i < 512. pm st' (slot a i) = pm st (slot phys i)"
    by (rule map_phys_to_user_virt_addr_maps [OF assms])
  moreover from this assms(6) have "a \<noteq> phys" by auto
  ultimately show ?thesis
    using maps_page_inv [OF m] maps_page_translate [OF m] by blast
qed

theorem map_phys_to_user_virt_addr_correct_witness:
  "\<exists>a. a \<noteq> 0xC000 \<and>
     translate (pm (map_phys_to_user_virt_addr 0x400000 0xC000 0x1000 demo)) 0x1000 0x400000 = Some (a OR 7)"
proof -
  have "page_aligned 0xC000" "(0xC000 :: u64) \<notin> dom demo_levels" "(0xC000 :: u64) \<notin> avail demo"
    by (simp_all add: page_aligned_def dom_def demo_levels_def demo_avail)
  then show ?thesis
    using map_phys_to_user_virt_addr_correct [where st = demo and L = demo_levels and r = "0x1000"
        and va = "0x400000" and phys = "0xC000", OF _ _ _ _ _ _ refl]
      demo_inv demo_card demo_cost [of "0x400000"] by fastforce
qed

text \<open>C5: \<open>create_user_address_space\<close> returns the root of a well-formed tree that maps the kernel's half of the address space (entry 511) exactly as the current tree does and maps nothing else; the current tree gains only the direct-map page of the new root.\<close>

theorem create_user_address_space_correct:
  assumes "table_inv (pm st) (avail st) (reg_cr3 st) L"
    and "4 \<le> card (avail st)" and "create_user_address_space st = (st', a)"
  shows "a \<in> avail st \<and> a \<notin> avail st' \<and>
    (\<exists>L'. table_inv (pm st') (avail st') (reg_cr3 st) L' \<and>
       table_inv (pm st') (avail st') a (shared_levels L' a)) \<and>
    (\<forall>va. translate (pm st') (reg_cr3 st) va =
       (if indices va = indices (kaddr a) then Some (a OR 3) else translate (pm st) (reg_cr3 st) va)) \<and>
    (\<forall>va. translate (pm st') a va =
       (if get_index va 39 = 511 then translate (pm st') (reg_cr3 st) va else None))"
  by (rule create_user_address_space_spec [OF assms]) blast

theorem create_user_address_space_correct_witness:
  "snd (create_user_address_space demo) \<in> avail demo \<and>
   translate (pm (fst (create_user_address_space demo))) (snd (create_user_address_space demo)) 0x400000 = None"
proof -
  have "get_index 0x400000 39 = 0" by (simp add: get_index_def)
  then show ?thesis
    using create_user_address_space_correct [of demo demo_levels "fst (create_user_address_space demo)"
        "snd (create_user_address_space demo)"] demo_inv demo_card
    by simp
qed

text \<open>\<open>virt_to_phys\<close> is the page-table walk: 0 for an unmapped page, the frame for a page shared by \<^verbatim>\<open>fork\<close>, and 999 for a mapped page that is not shared.\<close>

theorem virt_to_phys_correct:
  assumes "table_inv (pm st) (avail st) (reg_cr3 st) L"
  shows "virt_to_phys va st =
    (case translate (pm st) (reg_cr3 st) va of None \<Rightarrow> 0
     | Some e \<Rightarrow> if e AND 0x200 \<noteq> 0 then remove_flag e else 999)"
  using assms by (rule virt_to_phys_eq)

theorem virt_to_phys_correct_witness:
  "virt_to_phys 0xFFFFFFFF80005000 (demo_mapped 0xC203) = 0xC000 \<and>
   virt_to_phys 0xFFFFFFFF80005000 (demo_mapped 0xC003) = 999 \<and> virt_to_phys 0xFFFFFFFF80005000 demo = 0"
proof -
  have p: "present 0xC203" "present 0xC003" by (simp_all add: present_def)
  have "translate demo_pm 0x1000 0xFFFFFFFF80005000 = None"
    unfolding translate_def entry_at_def demo_leaf by (simp add: demo_pm_def slot_def)
  then show ?thesis
    using virt_to_phys_correct [of "demo_mapped 0xC203" demo_levels] virt_to_phys_correct [of "demo_mapped 0xC003" demo_levels]
      virt_to_phys_correct [of demo demo_levels] demo_mapped_facts [OF p(1)] demo_mapped_facts [OF p(2)] demo_inv
    by (simp add: remove_flag_def)
qed

text \<open>C7: \<open>free_page\<close> of a mapped, unshared page whose entry is below 0x989680 unmaps that page only, gives its frame back to the allocator and clears it; a page that is unmapped, shared or higher up is left as it is.\<close>

theorem free_page_correct:
  assumes inv: "table_inv (pm st) (avail st) r L" and nc: "no_cow (pm st) L"
    and data: "\<forall>e. translate (pm st) r va = Some e \<longrightarrow> L (remove_flag e) = None"
    and st': "st' = free_page va r st"
  shows "case translate (pm st) r va of None \<Rightarrow> st' = st
    | Some e \<Rightarrow>
        if e AND 0x200 = 0 \<and> e < 0x989680 then
          avail st' = insert (remove_flag e) (avail st) \<and> table_inv (pm st') (avail st') r L \<and>
          (\<forall>va'. translate (pm st') r va' = (if indices va' = indices va then None else translate (pm st) r va')) \<and>
          (\<forall>j<512. pm st' (slot (remove_flag e) j) = 0)
        else st' = st"
  using free_page_spec [OF assms] by (auto split: option.splits if_splits)

theorem free_page_correct_witness:
  "avail (free_page 0xFFFFFFFF80005000 0x1000 (demo_mapped 0xC003)) = insert 0xC000 (avail demo)"
proof -
  have p: "present 0xC003" "remove_flag 0xC003 = 0xC000" by (simp_all add: present_def remove_flag_def)
  then show ?thesis
    using free_page_correct [of "demo_mapped 0xC003" "0x1000" demo_levels "0xFFFFFFFF80005000", OF _ _ _ refl]
      demo_mapped_facts [OF p(1)] by (simp add: demo_levels_def)
qed

section \<open>The kernel heap\<close>

text \<open>C8: \<open>kmalloc\<close> takes as many frames as cover the request, the lowest free ones; it maps each at its direct-map address, clears it, and returns the address of the lowest; no other page is mapped differently.\<close>

theorem kmalloc_correct:
  assumes "table_inv (pm st) (avail st) (reg_cr3 st) L" and "direct_ready st"
    and "0 < sz" "sz < 2 ^ 31" and "nat ((sz + 4095) div 4096) \<le> card (avail st)"
    and "as = take (nat ((sz + 4095) div 4096)) (sorted_list_of_set (avail st))"
    and "kmalloc sz st = (st', p)"
  shows "p = kaddr (Min (avail st)) \<and> avail st' = avail st - set as \<and>
    (\<forall>a \<in> set as. translate (pm st') (reg_cr3 st) (kaddr a) = Some (a OR 3)) \<and>
    (\<forall>va. (\<forall>a \<in> set as. indices va \<noteq> indices (kaddr a)) \<longrightarrow>
       translate (pm st') (reg_cr3 st) va = translate (pm st) (reg_cr3 st) va) \<and>
    (\<forall>a \<in> set as. \<forall>j<512. pm st' (slot a j) = 0) \<and>
    direct_ready st' \<and> (\<exists>L'. table_inv (pm st') (avail st') (reg_cr3 st) L')"
proof -
  have n: "num_pages sz = (sz + 4095) div 4096" "0 < nat ((sz + 4095) div 4096)"
    using assms(3,4) num_pages_eq [of sz] by simp_all
  have ne: "avail st \<noteq> {}" using n(2) assms(5) by auto
  have "hd as = Min (avail st)"
    using n(2) sorted_list_of_set_nonempty [OF finite_avail ne]
    unfolding assms(6) by (cases "nat ((sz + 4095) div 4096)") simp_all
  with kmalloc_loop_spec [OF assms(1,2,5,6), of 0 0] n assms(7) show ?thesis
    unfolding kmalloc_def hands_out_def by auto
qed

lemma demo_ready: "direct_ready demo"
  unfolding direct_ready_def
proof
  fix a assume a: "a \<in> avail demo"
  have "unat a div 4096 div 512 = 0" using a by (auto simp: demo_avail)
  have f: "a \<in> all_frames" using a by (rule avail_all_frames)
  have five: "(0xFFFFFFFF80005000 :: u64) = direct 5" by (simp add: direct_def)
  have "unat a div 4096 < 512" using a by (auto simp: demo_avail)
  then have "page_no (direct (unat a div 4096)) div 512 = page_no (direct 5) div 512"
    by (intro direct_region) simp_all
  with leaf_of_same_region [OF demo_leaf, of "kaddr a"]
  show "leaf_of (pm demo) (reg_cr3 demo) (indices (kaddr a)) \<noteq> None"
    unfolding kaddr_direct [OF f] five by simp
qed

theorem kmalloc_correct_witness:
  "snd (kmalloc 6000 demo) = 0xFFFFFFFF80005000 \<and> avail (fst (kmalloc 6000 demo)) = {0x7000, 0x8000, 0x9000, 0xA000, 0xB000}"
proof -
  have "sorted_list_of_set (avail demo) = [0x5000, 0x6000, 0x7000, 0x8000, 0x9000, 0xA000, 0xB000]"
    by (simp add: demo_avail insort_insert_insort sorted_list_of_set.fold_insort_key.insert_remove)
  moreover have "nat ((6000 + 4095) div 4096) = 2" by simp
  ultimately show ?thesis
    using kmalloc_correct [of demo demo_levels 6000 "[0x5000, 0x6000]" "fst (kmalloc 6000 demo)" "snd (kmalloc 6000 demo)"]
      demo_inv demo_ready demo_card by (simp add: demo_avail kaddr_def)
qed

text \<open>A request of two pages when the frame after the lowest free one is in use: the second page of the block that \<open>kmalloc\<close> returns is the page that was there before, neither mapped nor cleared by the call, so the caller shares it with its owner.\<close>

theorem kmalloc_gap:
  assumes inv: "table_inv (pm st) (avail st) (reg_cr3 st) L" and ready: "direct_ready st"
    and sz: "4096 < sz" "sz \<le> 8192" and two: "2 \<le> card (avail st)" and a: "a = Min (avail st)"
    and used: "a + 4096 \<in> all_frames" "a + 4096 \<notin> avail st" "a + 4096 \<notin> dom L"
    and k: "kmalloc sz st = (st', p)"
  shows "p = kaddr a \<and> p + 4096 = kaddr (a + 4096) \<and>
    translate (pm st') (reg_cr3 st) (p + 4096) = translate (pm st) (reg_cr3 st) (p + 4096) \<and>
    (\<forall>j<512. pm st' (slot (a + 4096) j) = pm st (slot (a + 4096) j))"
proof -
  define as where "as = take 2 (sorted_list_of_set (avail st))"
  have n: "num_pages sz = 2" using sz num_pages_eq [of sz] by simp
  have ne: "avail st \<noteq> {}" using two by auto
  have hd: "hd as = a"
    using sorted_list_of_set_nonempty [OF finite_avail ne] by (simp add: as_def a numeral_2_eq_2)
  have sub: "set as \<subseteq> avail st" unfolding as_def using set_take_subset by fastforce
  obtain L' where k': "kmalloc_loop 2 0 0 st = (st', kaddr a)"
    and out: "hands_out (reg_cr3 st) as st st'"
    and data: "\<forall>x. remove_flag x \<notin> dom L \<and> remove_flag x \<notin> avail st \<longrightarrow> pm st' x = pm st x"
    using kmalloc_loop_spec [OF inv ready two as_def, of 0 0] k by (auto simp: kmalloc_def n hd)
  have p: "p = kaddr a" using k k' by (simp add: kmalloc_def n)
  have fa: "a \<in> all_frames" using avail_all_frames Min_in [OF finite_avail ne] a by simp
  have next_page: "kaddr a + 4096 = kaddr (a + 4096)"
    using fa used(1) by (simp add: kaddr_plus all_frames_def)
  have "\<forall>b \<in> set as. indices (kaddr (a + 4096)) \<noteq> indices (kaddr b)"
  proof
    fix b assume "b \<in> set as"
    with sub used(2) have "b \<in> avail st" "a + 4096 \<noteq> b" by auto
    then show "indices (kaddr (a + 4096)) \<noteq> indices (kaddr b)"
      using indices_kaddr_eq [OF used(1) avail_all_frames [OF \<open>b \<in> avail st\<close>]] by simp
  qed
  with out have "translate (pm st') (reg_cr3 st) (kaddr (a + 4096)) = translate (pm st) (reg_cr3 st) (kaddr (a + 4096))"
    unfolding hands_out_def by blast
  moreover have "pm st' (slot (a + 4096) j) = pm st (slot (a + 4096) j)" if "j < 512" for j
  proof -
    have "remove_flag (slot (a + 4096) j) = a + 4096"
      using used(1) that by (intro remove_flag_slot) (simp_all add: all_frames_def)
    with data used(2,3) show ?thesis by simp
  qed
  ultimately show ?thesis by (simp add: p next_page)
qed

definition demo_hole :: paging where
  "demo_hole = demo\<lparr>free_map := kunset_bit (free_map demo) 6\<rparr>"

lemma demo_hole_avail: "avail demo_hole = {0x5000, 0x7000, 0x8000, 0x9000, 0xA000, 0xB000}"
proof -
  have "free_frames (free_map demo_hole) = free_frames (free_map demo) - {6}"
    using page_bit_kunset_bit [of 6] by (auto simp: free_frames_def demo_hole_def)
  also have "\<dots> = {5, 7, 8, 9, 10, 11}" by (auto simp: demo_free)
  finally show ?thesis by (simp add: avail_image)
qed

theorem kmalloc_gap_witness:
  "snd (kmalloc 6000 demo_hole) = 0xFFFFFFFF80005000 \<and>
   translate (pm (fst (kmalloc 6000 demo_hole))) 0x1000 0xFFFFFFFF80006000 = translate demo_pm 0x1000 0xFFFFFFFF80006000"
proof -
  have same: "pm demo_hole = demo_pm" "reg_cr3 demo_hole = 0x1000" by (simp_all add: demo_hole_def)
  have "table_inv (pm demo_hole) (avail demo_hole) (reg_cr3 demo_hole) demo_levels"
    using demo_inv by (auto simp: same table_inv_def demo_avail demo_hole_avail)
  moreover have "direct_ready demo_hole"
    using demo_ready by (simp add: direct_ready_def same demo_avail demo_hole_avail)
  moreover have "2 \<le> card (avail demo_hole)" "0x5000 = Min (avail demo_hole)"
    "0x5000 + 4096 \<notin> avail demo_hole"
    by (simp_all add: demo_hole_avail)
  moreover have "0x5000 + 4096 \<in> all_frames" "0x5000 + 4096 \<notin> dom demo_levels"
    by (simp_all add: all_frames_def page_aligned_def dom_def demo_levels_def)
  ultimately have "snd (kmalloc 6000 demo_hole) = kaddr 0x5000 \<and>
      translate (pm (fst (kmalloc 6000 demo_hole))) (reg_cr3 demo_hole) (snd (kmalloc 6000 demo_hole) + 4096) =
      translate (pm demo_hole) (reg_cr3 demo_hole) (snd (kmalloc 6000 demo_hole) + 4096)"
    using kmalloc_gap [of demo_hole demo_levels 6000 "0x5000" "fst (kmalloc 6000 demo_hole)" "snd (kmalloc 6000 demo_hole)"]
    by auto
  then show ?thesis by (auto simp: kaddr_def same)
qed

end
