(* ===== verification/Vma.thy ===== *)
theory Vma
  imports Kernel PagingSpec
begin

text \<open>
  Virtual memory areas, \<^verbatim>\<open>sys/vma.c\<close>: the list of areas of a process, kept in the order of
  their addresses by \<open>add_mmstruct\<close>, and the release of their pages by \<open>free_vma\<close>. Lists are
  followed through the heap \<open>vmas\<close>; a loop over a cyclic list would not end, so the loops are
  \<open>option\<close> functions.
\<close>

unbundle bit_operations_syntax

section \<open>Definitions\<close>

text \<open>\<^verbatim>\<open>kmalloc(sizeof(vma_t *))\<close> asks for 8 bytes; it gets a page.\<close>

definition create_vma :: "u64 \<Rightarrow> u64 \<Rightarrow> cint \<Rightarrow> kernel \<Rightarrow> kernel \<times> u64" where
  "create_vma start stop p_flags st =
     (let (st, p) = kmalloc 8 st
      in (st\<lparr>vmas := (vmas st)(p := null_vma\<lparr>vm_start := start, vm_end := stop,
            vm_flags := of_int p_flags OR PT_U\<rparr>)\<rparr>, p))"

text \<open>Linking \<open>v\<close> in after \<open>cur\<close>, and the bookkeeping every successful branch does.\<close>

definition link_after :: "u64 \<Rightarrow> u64 \<Rightarrow> u64 \<Rightarrow> kernel \<Rightarrow> kernel" where
  "link_after m cur v st =
     (let st = st\<lparr>vmas := (vmas st)(cur := (vmas st cur)\<lparr>vm_next := v\<rparr>)\<rparr>;
          st = st\<lparr>vmas := (vmas st)(v := (vmas st v)\<lparr>vm_mm := m\<rparr>)\<rparr>
      in st\<lparr>mms := (mms st)(m := (mms st m)\<lparr>vma_count := vma_count (mms st m) + 1\<rparr>)\<rparr>)"

partial_function (option) add_loop :: "u64 \<Rightarrow> u64 \<Rightarrow> u64 \<Rightarrow> kernel \<Rightarrow> (kernel \<times> cint) option" where
  "add_loop m v cur st =
     (if cur \<noteq> 0 then
        (let nxt = vm_next (vmas st cur)
         in if nxt \<noteq> 0 \<and> vm_end (vmas st v) \<le> vm_start (vmas st nxt) then
              Some (link_after m cur v (st\<lparr>vmas := (vmas st)(v := (vmas st v)\<lparr>vm_next := nxt\<rparr>)\<rparr>), 0)
            else if nxt = 0 then Some (link_after m cur v st, 0)
            else add_loop m v nxt st)
      else Some (st, -1))"

definition add_mmstruct :: "u64 \<Rightarrow> u64 \<Rightarrow> kernel \<Rightarrow> (kernel \<times> cint) option" where
  "add_mmstruct m v st =
     (if vm_end (vmas st v) \<le> vm_start (vmas st v) then Some (st, -1)
      else
        (let cur = mm_vma (mms st m)
         in if cur = 0 \<or> vm_end (vmas st v) \<le> vm_end (vmas st cur) then
              Some (st\<lparr>vmas := (vmas st)(v := (vmas st v)\<lparr>vm_next := cur, vm_mm := m\<rparr>),
                       mms := (mms st)(m := (mms st m)\<lparr>mm_vma := v, vma_count := vma_count (mms st m) + 1\<rparr>)\<rparr>, 0)
            else add_loop m v cur st))"

definition mmap_alloc :: "u64 \<Rightarrow> cint \<Rightarrow> u64 \<Rightarrow> u64 \<Rightarrow> u64 \<Rightarrow> u64 \<Rightarrow> cint \<Rightarrow> kernel \<Rightarrow> (kernel \<times> cint) option" where
  "mmap_alloc m fp f_start sz start stop p_flags st =
     (let (st, v) = create_vma start stop p_flags st;
          st = st\<lparr>vmas := (vmas st)(v := (vmas st v)\<lparr>file_start := f_start, file_size := sz, vm_next := 0\<rparr>)\<rparr>
      in map_option (\<lambda>(st, _). (st, 1)) (add_mmstruct m v st))"

partial_function (option) free_range :: "u64 \<Rightarrow> u64 \<Rightarrow> u64 \<Rightarrow> kernel \<Rightarrow> kernel option" where
  "free_range physfree stop cr3_addr st =
     (if physfree < stop then free_range (physfree + PAGE_SIZE) stop cr3_addr (free_page physfree cr3_addr st)
      else Some st)"

partial_function (option) free_vma_loop :: "u64 \<Rightarrow> u64 \<Rightarrow> kernel \<Rightarrow> kernel option" where
  "free_vma_loop cur cr3_addr st =
     (if cur \<noteq> 0 then
        Option.bind (free_range (vm_start (vmas st cur)) (vm_end (vmas st cur)) cr3_addr st)
          (\<lambda>st. free_vma_loop (vm_next (vmas st cur)) cr3_addr st)
      else Some st)"

definition free_vma :: "u64 \<Rightarrow> u64 \<Rightarrow> kernel \<Rightarrow> kernel option" where
  "free_vma m cr3_addr st = (if m = 0 then None else free_vma_loop (mm_vma (mms st m)) cr3_addr st)"

section \<open>Lists of areas\<close>

fun vlist :: "(u64 \<Rightarrow> vma) \<Rightarrow> u64 \<Rightarrow> u64 list \<Rightarrow> bool" where
  "vlist h p [] \<longleftrightarrow> p = 0"
| "vlist h p (q # qs) \<longleftrightarrow> p = q \<and> q \<noteq> 0 \<and> vlist h (vm_next (h q)) qs"

lemma vlist_cong: "(\<And>q. q \<in> set qs \<Longrightarrow> vm_next (h' q) = vm_next (h q)) \<Longrightarrow> vlist h' p qs \<longleftrightarrow> vlist h p qs"
  by (induction qs arbitrary: p) auto

lemma vlist_unique: "vlist h p qs \<Longrightarrow> vlist h p qs' \<Longrightarrow> qs = qs'"
proof (induction qs arbitrary: p qs')
  case Nil
  then show ?case by (cases qs') auto
next
  case (Cons q qs)
  then show ?case by (cases qs') auto
qed

text \<open>Where \<open>add_mmstruct\<close> puts an area: the code's two tests, on the list it walks.\<close>

fun insert_after :: "(u64 \<Rightarrow> vma) \<Rightarrow> u64 \<Rightarrow> u64 list \<Rightarrow> u64 list" where
  "insert_after h v [] = [v]"
| "insert_after h v (q # qs) =
     (if vm_end (h v) \<le> vm_start (h q) then v # q # qs else q # insert_after h v qs)"

fun insert_vma :: "(u64 \<Rightarrow> vma) \<Rightarrow> u64 \<Rightarrow> u64 list \<Rightarrow> u64 list" where
  "insert_vma h v [] = [v]"
| "insert_vma h v (q # qs) =
     (if vm_end (h v) \<le> vm_end (h q) then v # q # qs else q # insert_after h v qs)"

lemma set_insert_vma: "set (insert_vma h v qs) = insert v (set qs)"
proof -
  have "set (insert_after h v ps) = insert v (set ps)" for ps by (induction ps) auto
  then show ?thesis by (cases qs) auto
qed

text \<open>Only links and owners change: ranges, types and flags stay.\<close>

definition same_areas :: "(u64 \<Rightarrow> vma) \<Rightarrow> (u64 \<Rightarrow> vma) \<Rightarrow> bool" where
  "same_areas h h' \<longleftrightarrow> (\<forall>q. h' q = (h q)\<lparr>vm_next := vm_next (h' q), vm_mm := vm_mm (h' q)\<rparr>)"

lemma add_loop_eq:
  assumes "vlist (vmas st) cur (q # qs)" "distinct (q # qs)" "v \<notin> set (q # qs)" "v \<noteq> 0" "vm_next (vmas st v) = 0"
  shows "\<exists>st'. add_loop m v cur st = Some (st', 0) \<and>
    vlist (vmas st') cur (q # insert_after (vmas st) v qs) \<and> same_areas (vmas st) (vmas st') \<and>
    mms st' = (mms st)(m := (mms st m)\<lparr>vma_count := vma_count (mms st m) + 1\<rparr>) \<and>
    (\<forall>x. x \<notin> set (q # qs) \<and> x \<noteq> v \<longrightarrow> vmas st' x = vmas st x) \<and>
    paging.truncate st' = paging.truncate st"
  using assms
proof (induction qs arbitrary: q cur)
  case Nil
  then show ?case
    by (subst add_loop.simps) (auto simp: link_after_def Let_def same_areas_def paging.truncate_def)
next
  case (Cons p ps)
  let ?h = "vmas st"
  have q: "cur = q" "q \<noteq> 0" "vm_next (?h q) = p" "p \<noteq> 0" "vlist ?h p (p # ps)"
    using Cons.prems(1) by auto
  show ?case
  proof (cases "vm_end (?h v) \<le> vm_start (?h p)")
    case True
    define h' where "h' = (?h(v := (?h v)\<lparr>vm_next := p, vm_mm := m\<rparr>))(q := (?h q)\<lparr>vm_next := v\<rparr>)"
    have qv: "q \<noteq> v" using Cons.prems(3) by auto
    have "add_loop m v cur st = Some (st\<lparr>vmas := h',
        mms := (mms st)(m := (mms st m)\<lparr>vma_count := vma_count (mms st m) + 1\<rparr>)\<rparr>, 0)"
      using q True qv by (subst add_loop.simps) (auto simp: link_after_def Let_def h'_def fun_upd_twist)
    moreover have "vlist h' p (p # ps)"
      using q(5) Cons.prems by (subst vlist_cong [of "p # ps" h' ?h]) (auto simp: h'_def)
    then have "vlist h' cur (q # v # p # ps)"
      using q qv Cons.prems(4) by (simp add: h'_def)
    ultimately show ?thesis
      using True by (auto simp: same_areas_def h'_def paging.truncate_def)
  next
    case False
    have "distinct (p # ps)" "v \<notin> set (p # ps)" using Cons.prems(2,3) by auto
    from Cons.IH [OF q(5) this Cons.prems(4,5)] obtain st' where st':
      "add_loop m v p st = Some (st', 0)" "vlist (vmas st') p (p # insert_after ?h v ps)"
      "same_areas ?h (vmas st')" "mms st' = (mms st)(m := (mms st m)\<lparr>vma_count := vma_count (mms st m) + 1\<rparr>)"
      "\<forall>x. x \<notin> set (p # ps) \<and> x \<noteq> v \<longrightarrow> vmas st' x = ?h x" "paging.truncate st' = paging.truncate st"
      by blast
    have "vmas st' q = ?h q" using st'(5) Cons.prems(2,3) by auto
    moreover have "add_loop m v cur st = add_loop m v p st"
      using q False by (subst add_loop.simps) simp
    ultimately show ?thesis using st' q False by auto
  qed
qed

lemma add_mmstruct_eq:
  assumes l: "vlist (vmas st) (mm_vma (mms st m)) qs" and d: "distinct qs" "v \<notin> set qs" "v \<noteq> 0"
    and v: "vm_next (vmas st v) = 0" "vm_start (vmas st v) < vm_end (vmas st v)"
  shows "\<exists>st'. add_mmstruct m v st = Some (st', 0) \<and>
    vlist (vmas st') (mm_vma (mms st' m)) (insert_vma (vmas st) v qs) \<and> same_areas (vmas st) (vmas st') \<and>
    vma_count (mms st' m) = vma_count (mms st m) + 1 \<and>
    (\<forall>x. x \<notin> set qs \<and> x \<noteq> v \<longrightarrow> vmas st' x = vmas st x) \<and> paging.truncate st' = paging.truncate st"
proof (cases qs)
  case Nil
  with l d v show ?thesis by (auto simp: add_mmstruct_def same_areas_def paging.truncate_def)
next
  case (Cons q ps)
  with l have q: "mm_vma (mms st m) = q" "q \<noteq> 0" by auto
  show ?thesis
  proof (cases "vm_end (vmas st v) \<le> vm_end (vmas st q)")
    case True
    define h' where "h' = (vmas st)(v := (vmas st v)\<lparr>vm_next := q, vm_mm := m\<rparr>)"
    have "vlist h' q (q # ps)"
      using l d Cons q by (subst vlist_cong [of "q # ps" h' "vmas st"]) (auto simp: h'_def)
    then have "vlist h' v (v # q # ps)" using d(3) by (simp add: h'_def)
    moreover have "add_mmstruct m v st = Some (st\<lparr>vmas := h',
        mms := (mms st)(m := (mms st m)\<lparr>mm_vma := v, vma_count := vma_count (mms st m) + 1\<rparr>)\<rparr>, 0)"
      using q True v(2) by (simp add: add_mmstruct_def h'_def)
    ultimately show ?thesis
      using True Cons by (auto simp: same_areas_def h'_def paging.truncate_def)
  next
    case False
    moreover have "\<not> vm_end (vmas st v) \<le> vm_start (vmas st v)" using v(2) by (simp add: not_le)
    ultimately have "add_mmstruct m v st = add_loop m v q st" using q by (simp add: add_mmstruct_def)
    moreover have "vlist (vmas st) q (q # ps)" "distinct (q # ps)" "v \<notin> set (q # ps)"
      using l d Cons q by auto
    from add_loop_eq [OF this d(3) v(1), of m] obtain st' where st':
      "add_loop m v q st = Some (st', 0)" "vlist (vmas st') q (q # insert_after (vmas st) v ps)"
      "same_areas (vmas st) (vmas st')" "mms st' = (mms st)(m := (mms st m)\<lparr>vma_count := vma_count (mms st m) + 1\<rparr>)"
      "\<forall>x. x \<notin> set (q # ps) \<and> x \<noteq> v \<longrightarrow> vmas st' x = vmas st x" "paging.truncate st' = paging.truncate st"
      by blast
    ultimately show ?thesis
      using Cons False q by (intro exI [of _ st']) (simp add: st')
  qed
qed

section \<open>Order\<close>

definition before :: "(u64 \<Rightarrow> vma) \<Rightarrow> u64 \<Rightarrow> u64 \<Rightarrow> bool" where
  "before h p q \<longleftrightarrow> vm_end (h p) \<le> vm_start (h q)"

definition ordered :: "(u64 \<Rightarrow> vma) \<Rightarrow> u64 list \<Rightarrow> bool" where
  "ordered h qs \<longleftrightarrow> (\<forall>q \<in> set qs. vm_start (h q) < vm_end (h q)) \<and> sorted_wrt (before h) qs"

lemma before_trans:
  assumes "before h p q" "vm_start (h q) < vm_end (h q)" "before h q r"
  shows "before h p r"
  using order.trans [OF order.trans [OF assms(1) [unfolded before_def] less_imp_le [OF assms(2)]] assms(3) [unfolded before_def]]
  unfolding before_def .

lemma set_insert_after: "set (insert_after h v ps) = insert v (set ps)"
  by (induction ps) auto

lemma insert_after_ordered:
  assumes "ordered h qs" "vm_start (h v) < vm_end (h v)" "\<forall>q \<in> set qs. before h v q \<or> before h q v"
  shows "ordered h (insert_after h v qs)"
  using assms
proof (induction qs)
  case Nil
  then show ?case by (simp add: ordered_def)
next
  case (Cons q qs)
  show ?case
  proof (cases "before h v q")
    case True
    with Cons.prems have "\<forall>p \<in> set qs. before h v p"
      using before_trans by (auto simp: ordered_def)
    with True Cons.prems show ?thesis by (auto simp: ordered_def before_def)
  next
    case False
    with Cons.prems have "before h q v" by auto
    moreover have "ordered h (insert_after h v qs)"
      using Cons by (auto simp: ordered_def)
    ultimately show ?thesis
      using False Cons.prems by (auto simp: ordered_def set_insert_after before_def)
  qed
qed

lemma insert_vma_ordered:
  assumes "ordered h qs" "vm_start (h v) < vm_end (h v)" "\<forall>q \<in> set qs. before h v q \<or> before h q v"
  shows "ordered h (insert_vma h v qs)"
proof (cases qs)
  case Nil
  with assms show ?thesis by (simp add: ordered_def)
next
  case (Cons q ps)
  have q: "vm_start (h q) < vm_end (h q)" "before h v q \<or> before h q v"
    using assms Cons by (auto simp: ordered_def)
  have "vm_end (h v) \<le> vm_end (h q) \<longleftrightarrow> before h v q"
  proof
    assume le: "vm_end (h v) \<le> vm_end (h q)"
    show "before h v q"
    proof (rule ccontr)
      assume "\<not> before h v q"
      with q(2) have "vm_end (h q) \<le> vm_start (h v)" by (simp add: before_def)
      with assms(2) le show False by (meson leD order.trans order.strict_trans2)
    qed
  next
    assume "before h v q"
    with q(1) show "vm_end (h v) \<le> vm_end (h q)" by (simp add: before_def order.trans [OF _ less_imp_le])
  qed
  moreover have "ordered h ps" using assms(1) Cons by (auto simp: ordered_def)
  ultimately show ?thesis
    using assms Cons q insert_after_ordered [of h "q # ps" v] insert_after_ordered [of h ps v]
    by (auto simp: before_def)
qed

lemma ordered_same_areas: "same_areas h h' \<Longrightarrow> ordered h' qs \<longleftrightarrow> ordered h qs"
proof -
  assume s: "same_areas h h'"
  have "vm_start (h' q) = vm_start (h q)" "vm_end (h' q) = vm_end (h q)" for q
    using s [unfolded same_areas_def, rule_format, of q]
    by (metis vma.select_convs(3) vma.surjective vma.update_convs(1,2), metis vma.select_convs(4) vma.surjective vma.update_convs(1,2))
  then show ?thesis by (simp add: ordered_def before_def [abs_def])
qed

section \<open>Releasing pages\<close>

lemma free_page_vmas [simp]: "vmas (free_page va r st) = vmas st" "mms (free_page va r st) = mms st"
  by (simp_all add: free_page_def memset_page_def wr_def Let_def)

text \<open>
  The addresses \<open>free_range\<close> visits are \<open>p, p + 4096, ...\<close> below the bound; \<open>free_page\<close> masks
  each to its page. The pages between two visits are not there, but the last page of a range that
  does not start at a page boundary may never be visited.
\<close>

definition visited :: "u64 \<Rightarrow> nat \<Rightarrow> u64 \<Rightarrow> bool" where
  "visited p n va \<longleftrightarrow> (\<exists>k<n. indices va = indices (p + of_nat (k * 4096)))"

lemma visited_Suc: "visited p (Suc n) va \<longleftrightarrow> indices va = indices p \<or> visited (p + 4096) n va"
proof
  assume "visited p (Suc n) va"
  then obtain k where k: "k < Suc n" "indices va = indices (p + of_nat (k * 4096))"
    by (auto simp: visited_def)
  show "indices va = indices p \<or> visited (p + 4096) n va"
  proof (cases k)
    case 0
    with k show ?thesis by simp
  next
    case (Suc j)
    with k have "j < n" "indices va = indices (p + 4096 + of_nat (j * 4096))"
      by (simp_all add: algebra_simps)
    then show ?thesis unfolding visited_def by blast
  qed
next
  assume "indices va = indices p \<or> visited (p + 4096) n va"
  then show "visited p (Suc n) va"
  proof
    assume "indices va = indices p"
    then show ?thesis unfolding visited_def by (intro exI [of _ 0]) simp
  next
    assume "visited (p + 4096) n va"
    then obtain j where "j < n" "indices va = indices (p + 4096 + of_nat (j * 4096))"
      by (auto simp: visited_def)
    then show ?thesis
      unfolding visited_def by (intro exI [of _ "Suc j"]) (simp add: algebra_simps)
  qed
qed

text \<open>How often the loop runs.\<close>

definition visits :: "u64 \<Rightarrow> u64 \<Rightarrow> nat" where
  "visits p e = (unat e - unat p + 4095) div 4096"

lemma visits_step:
  assumes "p < e" "unat e \<le> 2 ^ 64 - 4096"
  shows "visits p e = Suc (visits (p + 4096) e)" and "unat (p + 4096) = unat p + 4096"
proof -
  have lt: "unat p < unat e" using assms(1) by (simp add: word_less_nat_alt)
  then have "unat p + 4096 < 2 ^ 64" using assms(2) by simp
  then show p: "unat (p + 4096) = unat p + 4096" by (simp add: unat_word_ariths)
  have "unat e - unat p + 4095 = (unat e - unat p - 1) + 4096" using lt by simp
  then have "visits p e = (unat e - unat p - 1) div 4096 + 1" unfolding visits_def by simp
  moreover have "(unat e - unat p - 1) div 4096 = (unat e - (unat p + 4096) + 4095) div 4096"
  proof (cases "unat p + 4096 \<le> unat e")
    case True
    then have "unat e - (unat p + 4096) + 4095 = unat e - unat p - 1" by simp
    then show ?thesis by simp
  next
    case False
    then show ?thesis using lt by simp
  qed
  ultimately show "visits p e = Suc (visits (p + 4096) e)" by (simp only: visits_def p Suc_eq_plus1)
qed

lemma free_range_spec:
  assumes "free_inv r L st" and "unat e \<le> 2 ^ 64 - 4096" and "n = visits p e"
    and "\<forall>va x. visited p n va \<and> translate (pm st) r va = Some x \<longrightarrow> L (remove_flag x) = None"
  shows "\<exists>st'. free_range p e r st = Some st' \<and> free_inv r L st' \<and> avail st \<subseteq> avail st' \<and>
    vmas st' = vmas st \<and> mms st' = mms st \<and>
    (\<forall>va. translate (pm st') r va =
       (if visited p n va \<and> freeable (translate (pm st) r va) then None else translate (pm st) r va))"
  using assms
proof (induction n arbitrary: p st)
  case 0
  then have "\<not> p < e" using visits_step(1) [of p e] by auto
  then show ?case using 0 by (subst free_range.simps) (auto simp: visited_def)
next
  case (Suc n)
  have lt: "p < e"
  proof (rule ccontr)
    assume "\<not> p < e"
    then have "unat e - unat p = 0" by (simp add: word_less_nat_alt)
    with Suc.prems(3) show False by (simp add: visits_def)
  qed
  note step = visits_step [OF lt Suc.prems(2)]
  define st1 where "st1 = free_page p r st"
  have "\<forall>x. translate (pm st) r p = Some x \<longrightarrow> L (remove_flag x) = None"
    using Suc.prems(4) visited_Suc by blast
  note fp = free_page_step [OF Suc.prems(1) this, folded st1_def]
  have p': "indices va = indices p \<Longrightarrow> translate f r va = translate f r p" for va f
    by (simp add: translate_def)
  have "\<forall>va x. visited (p + 4096) n va \<and> translate (pm st1) r va = Some x \<longrightarrow> L (remove_flag x) = None"
    using Suc.prems(4) fp visited_Suc by (metis option.distinct(1))
  with Suc.IH [of st1 "p + 4096"] fp step(1) Suc.prems(2,3) obtain st' where st':
    "free_range (p + 4096) e r st1 = Some st'" "free_inv r L st'" "avail st1 \<subseteq> avail st'"
    "vmas st' = vmas st1" "mms st' = mms st1"
    "\<forall>va. translate (pm st') r va =
       (if visited (p + 4096) n va \<and> freeable (translate (pm st1) r va) then None else translate (pm st1) r va)"
    by auto
  have "translate (pm st') r va =
       (if visited p (Suc n) va \<and> freeable (translate (pm st) r va) then None else translate (pm st) r va)" for va
    using st'(6) fp p' [of va] by (auto simp: visited_Suc freeable_def)
  moreover have "free_range p e r st = free_range (p + 4096) e r st1"
    using lt by (subst free_range.simps) (simp add: st1_def)
  ultimately show ?case
    using st' fp by (intro exI [of _ st']) (auto simp: st1_def)
qed

text \<open>The pages of the areas in a list.\<close>

definition area_visited :: "(u64 \<Rightarrow> vma) \<Rightarrow> u64 list \<Rightarrow> u64 \<Rightarrow> bool" where
  "area_visited h qs va \<longleftrightarrow> (\<exists>q \<in> set qs. visited (vm_start (h q)) (visits (vm_start (h q)) (vm_end (h q))) va)"

lemma free_vma_loop_spec:
  assumes "free_inv r L st" and "vlist (vmas st) p qs" and "\<forall>q \<in> set qs. unat (vm_end (vmas st q)) \<le> 2 ^ 64 - 4096"
    and "\<forall>va x. area_visited (vmas st) qs va \<and> translate (pm st) r va = Some x \<longrightarrow> L (remove_flag x) = None"
  shows "\<exists>st'. free_vma_loop p r st = Some st' \<and> free_inv r L st' \<and> avail st \<subseteq> avail st' \<and>
    (\<forall>va. translate (pm st') r va =
       (if area_visited (vmas st) qs va \<and> freeable (translate (pm st) r va) then None else translate (pm st) r va))"
  using assms
proof (induction qs arbitrary: p st)
  case Nil
  then show ?case by (subst free_vma_loop.simps) (simp add: area_visited_def)
next
  case (Cons q qs)
  let ?n = "visits (vm_start (vmas st q)) (vm_end (vmas st q))"
  have q: "p = q" "q \<noteq> 0" "vlist (vmas st) (vm_next (vmas st q)) qs" using Cons.prems(2) by auto
  have e: "unat (vm_end (vmas st q)) \<le> 2 ^ 64 - 4096" using Cons.prems(3) by simp
  have split: "area_visited (vmas st) (q # qs) va \<longleftrightarrow> visited (vm_start (vmas st q)) ?n va \<or> area_visited (vmas st) qs va"
    for va by (simp add: area_visited_def)
  have "\<forall>va x. visited (vm_start (vmas st q)) ?n va \<and> translate (pm st) r va = Some x \<longrightarrow> L (remove_flag x) = None"
    using Cons.prems(4) split by blast
  from free_range_spec [OF Cons.prems(1) e refl this] obtain st1 where st1:
    "free_range (vm_start (vmas st q)) (vm_end (vmas st q)) r st = Some st1" "free_inv r L st1" "avail st \<subseteq> avail st1"
    "vmas st1 = vmas st" and
    tr1: "\<forall>va. translate (pm st1) r va =
       (if visited (vm_start (vmas st q)) ?n va \<and> freeable (translate (pm st) r va) then None else translate (pm st) r va)"
    by blast
  have "\<forall>va x. area_visited (vmas st1) qs va \<and> translate (pm st1) r va = Some x \<longrightarrow> L (remove_flag x) = None"
    using Cons.prems(4) split tr1 st1(4) by (metis option.distinct(1))
  moreover have "vlist (vmas st1) (vm_next (vmas st q)) qs" "\<forall>q \<in> set qs. unat (vm_end (vmas st1 q)) \<le> 2 ^ 64 - 4096"
    using q(3) Cons.prems(3) st1(4) by simp_all
  ultimately obtain st' where st': "free_vma_loop (vm_next (vmas st q)) r st1 = Some st'" "free_inv r L st'"
    "avail st1 \<subseteq> avail st'" and
    tr': "\<forall>va. translate (pm st') r va =
       (if area_visited (vmas st1) qs va \<and> freeable (translate (pm st1) r va) then None else translate (pm st1) r va)"
    using Cons.IH [OF st1(2)] by blast
  have "free_vma_loop p r st = Some st'"
    using q st1 st'(1) by (subst free_vma_loop.simps) simp
  moreover have "translate (pm st') r va =
       (if area_visited (vmas st) (q # qs) va \<and> freeable (translate (pm st) r va) then None else translate (pm st) r va)" for va
    using tr' tr1 st1(4) split [of va] by (auto simp: freeable_def)
  ultimately show ?case using st' st1(3) by blast
qed

text \<open>The page of an area's last byte is missed when the area starts later in its page than it ends.\<close>

lemma late_area:
  assumes "p < e" and late: "(unat e - 1) mod 4096 < unat p mod 4096"
  obtains d where "visits p e = d" "0 < d" "unat p + d * 4096 < unat e + 4096" "page_no (e - 1) = page_no p + d"
    "\<And>k. k < d \<Longrightarrow> page_no (p + of_nat (k * 4096)) = page_no p + k"
proof -
  define a x b y where "a = unat p div 4096" and "x = unat p mod 4096"
    and "b = (unat e - 1) div 4096" and "y = (unat e - 1) mod 4096"
  have lt: "unat p < unat e" using assms(1) by (simp add: word_less_nat_alt)
  have pe: "unat p = 4096 * a + x" "unat e - 1 = 4096 * b + y" "x < 4096" "y < x"
    using late by (simp_all add: a_def x_def b_def y_def)
  then have e: "unat e = 4096 * b + y + 1" using lt by linarith
  have "a < b" using pe e lt by linarith
  then obtain d where d: "b = a + d" "0 < d" using less_imp_add_positive by blast
  have "unat e - unat p + 4095 = 4096 * d + (y + 4096 - x)" using pe e d by simp
  moreover have "(y + 4096 - x) div 4096 = 0" using pe by simp
  ultimately have v: "visits p e = d"
    unfolding visits_def by (simp only: div_mult_self4 mult.commute)
  have pb: "page_no (e - 1) = page_no p + d"
  proof -
    have "unat (e - 1) = unat e - 1" using lt by (simp add: unat_sub word_le_nat_alt)
    then have "page_no (e - 1) = b" by (simp add: page_no_def b_def)
    then show ?thesis by (simp add: page_no_def a_def d(1))
  qed
  have pk: "page_no (p + of_nat (k * 4096)) = page_no p + k" if "k < d" for k
  proof -
    have le: "4096 * a + x + k * 4096 < unat e" using that pe(3) e d by simp
    then have "k * 4096 < 2 ^ 64" using unat_lt64 [of e] by linarith
    then have "unat (of_nat (k * 4096) :: u64) = k * 4096" by (rule unat_of_nat64)
    moreover have "4096 * a + x + k * 4096 < 2 ^ 64" using le unat_lt64 [of e] by linarith
    ultimately have "unat (p + of_nat (k * 4096)) = 4096 * a + x + k * 4096"
      using pe(1) by (simp add: unat_word_ariths(1) del: of_nat_mult)
    then show ?thesis using pe(1,3) by (simp add: page_no_def)
  qed
  show thesis
    by (rule that [OF v d(2) _ pb pk]) (use pe e d in linarith)
qed

lemma last_page_missed:
  assumes "p < e" and "(unat e - 1) mod 4096 < unat p mod 4096" and n: "visits p e < 2 ^ 36"
  shows "\<not> visited p (visits p e) (e - 1)"
proof
  obtain d where d: "visits p e = d" "page_no (e - 1) = page_no p + d"
    and pk: "\<And>k. k < d \<Longrightarrow> page_no (p + of_nat (k * 4096)) = page_no p + k"
    by (rule late_area [OF assms(1,2)]) blast
  assume "visited p (visits p e) (e - 1)"
  then obtain k where k: "k < d" "indices (e - 1) = indices (p + of_nat (k * 4096))"
    unfolding visited_def d(1) by blast
  from k(2) have "(page_no p + d) mod 2 ^ 36 = (page_no p + k) mod 2 ^ 36"
    unfolding indices_eq_iff d(2) pk [OF k(1)] .
  moreover have "page_no p + k \<le> page_no p + d" using k(1) by simp
  ultimately have "2 ^ 36 dvd page_no p + d - (page_no p + k)" by (simp only: mod_eq_dvd_iff_nat)
  then have "2 ^ 36 dvd d - k" by (simp only: add_diff_cancel_left)
  with k(1) have "2 ^ 36 \<le> d - k" by (simp only: dvd_imp_le zero_less_diff)
  with n d(1) show False by (meson diff_le_self le_trans not_le)
qed

section \<open>Properties\<close>

text \<open>A process with two areas, and a third area to be added between them.\<close>

definition demo_areas :: "kernel" where
  "demo_areas = (bare_kernel demo)
     \<lparr>vmas := (\<lambda>_. null_vma)(0x100 := null_vma\<lparr>vm_next := 0x200, vm_start := 0x1000, vm_end := 0x2000\<rparr>,
        0x200 := null_vma\<lparr>vm_start := 0x5000, vm_end := 0x6000\<rparr>,
        0x300 := null_vma\<lparr>vm_start := 0x3000, vm_end := 0x4000\<rparr>),
      mms := (\<lambda>_. null_mm)(0x10 := null_mm\<lparr>mm_vma := 0x100, vma_count := 2\<rparr>)\<rparr>"

text \<open>C11: Adding a non-empty area that overlaps none of a process's areas keeps the list of areas linked, ordered by address and without overlap; it then holds the old areas and the new one, and the count is one more.\<close>

theorem add_mmstruct_ordered:
  assumes "vlist (vmas st) (mm_vma (mms st m)) qs" and "distinct qs" "v \<notin> set qs" "v \<noteq> 0"
    and "vm_next (vmas st v) = 0" "vm_start (vmas st v) < vm_end (vmas st v)"
    and "ordered (vmas st) qs" and "\<forall>q \<in> set qs. before (vmas st) v q \<or> before (vmas st) q v"
  shows "\<exists>st' qs'. add_mmstruct m v st = Some (st', 0) \<and> vlist (vmas st') (mm_vma (mms st' m)) qs' \<and>
    set qs' = insert v (set qs) \<and> ordered (vmas st') qs' \<and>
    vma_count (mms st' m) = vma_count (mms st m) + 1"
proof -
  obtain st' where st': "add_mmstruct m v st = Some (st', 0)"
    "vlist (vmas st') (mm_vma (mms st' m)) (insert_vma (vmas st) v qs)" "same_areas (vmas st) (vmas st')"
    "vma_count (mms st' m) = vma_count (mms st m) + 1"
    using add_mmstruct_eq [OF assms(1-6)] by blast
  moreover have "ordered (vmas st') (insert_vma (vmas st) v qs)"
    using insert_vma_ordered [OF assms(7,6,8)] ordered_same_areas [OF st'(3)] by simp
  ultimately show ?thesis using set_insert_vma by blast
qed

lemma demo_areas_facts:
  "vlist (vmas demo_areas) (mm_vma (mms demo_areas 0x10)) [0x100, 0x200]"
  "vm_next (vmas demo_areas 0x300) = 0" "vm_start (vmas demo_areas 0x300) = 0x3000" "vm_end (vmas demo_areas 0x300) = 0x4000"
  "vm_start (vmas demo_areas 0x100) = 0x1000" "vm_end (vmas demo_areas 0x100) = 0x2000"
  "vm_start (vmas demo_areas 0x200) = 0x5000" "vm_end (vmas demo_areas 0x200) = 0x6000"
  "pm demo_areas = demo_pm" "avail demo_areas = avail demo"
  by (simp_all add: demo_areas_def null_vma_def)

theorem add_mmstruct_ordered_witness:
  "\<exists>st' qs'. add_mmstruct 0x10 0x300 demo_areas = Some (st', 0) \<and>
     set qs' = {0x300, 0x100, 0x200} \<and> ordered (vmas st') qs'"
  using add_mmstruct_ordered [OF demo_areas_facts(1), of "0x300"]
  by (auto simp: ordered_def before_def demo_areas_facts)



text \<open>When an area starts later in its page than it ends in its own, the page of its last byte is not visited: it stays mapped, and its frame is never given back.\<close>

theorem free_range_misses_last_page:
  assumes "free_inv r L st" and "p < e" "(unat e - 1) mod 4096 < unat p mod 4096" "visits p e < 2 ^ 36"
    and "unat e \<le> 2 ^ 64 - 4096"
    and "\<forall>va x. visited p (visits p e) va \<and> translate (pm st) r va = Some x \<longrightarrow> L (remove_flag x) = None"
  shows "\<exists>st'. free_range p e r st = Some st' \<and> translate (pm st') r (e - 1) = translate (pm st) r (e - 1)"
  using free_range_spec [OF assms(1,5) refl assms(6)] last_page_missed [OF assms(2-4)] by auto

text \<open>An area from 0xFFFFFFFF80004800 to 0xFFFFFFFF80005100, whose second page is mapped.\<close>

theorem free_range_misses_last_page_witness:
  "\<exists>st'. free_range 0xFFFFFFFF80004800 0xFFFFFFFF80005100 0x1000 (bare_kernel (demo_mapped 0xC003)) = Some st' \<and>
     translate (pm st') 0x1000 0xFFFFFFFF800050FF = Some 0xC003"
proof -
  let ?st = "bare_kernel (demo_mapped 0xC003)" and ?p = "0xFFFFFFFF80004800 :: u64" and ?e = "0xFFFFFFFF80005100 :: u64"
  have p: "present 0xC003" by (simp add: present_def)
  note facts = demo_mapped_facts [OF p]
  have inv: "free_inv 0x1000 demo_levels ?st" using facts by (simp add: free_inv_def)
  have same: "indices 0xFFFFFFFF800050FF = indices 0xFFFFFFFF80005000"
    by (simp add: indices_eq_iff page_no_def)
  have tr: "translate (pm (demo_mapped 0xC003)) 0x1000 0xFFFFFFFF800050FF = Some 0xC003"
    using facts(2) same by (simp add: translate_def)
  have "\<forall>va x. visited ?p (visits ?p ?e) va \<and> translate (pm ?st) 0x1000 va = Some x \<longrightarrow> demo_levels (remove_flag x) = None"
  proof (intro allI impI, elim conjE)
    fix va x assume "translate (pm ?st) 0x1000 va = Some x"
    then have "x = 0xC003"
      using translate_leaf_write(1) [OF demo_inv [simplified] demo_leaf p, of va] demo_unmapped [of va]
      by (simp add: demo_mapped_def split: if_splits)
    then show "demo_levels (remove_flag x) = None" by (simp add: demo_levels_def remove_flag_def)
  qed
  from free_range_misses_last_page [OF inv _ _ _ _ this] tr show ?thesis
    by (simp add: visits_def)
qed

end
