(* ===== verification/Format.thy ===== *)
theory Format
  imports KString
begin

text \<open>
  Number formatting. Both halves of the repository carry the same three routines: \<open>strtoint\<close>
  (decimal), \<open>convertHex2String\<close> and \<open>convertPointerAddress2String\<close>, in \<^verbatim>\<open>sys/kprintf.c\<close> and
  \<^verbatim>\<open>libc/stdio.c\<close>. A buffer that holds a string is the list of the bytes before its NUL; a write
  past the end of a scratch buffer is the error \<open>None\<close>.
\<close>

unbundle bit_operations_syntax

section \<open>Definitions\<close>

text \<open>\<^verbatim>\<open>strtoint(num, str)\<close> of the kernel appends to the string that is in the buffer.\<close>

function strtoint :: "cint \<Rightarrow> u8 list \<Rightarrow> u8 list" where
  "strtoint num str =
     (if 9 < num then strtoint (num div 10) str @ [of_int (num mod 10 + 48)]
      else if num = 0 then [48]
      else str @ [of_int (num + 48)])"
  by pat_completeness auto
termination
  by (relation "measure (\<lambda>(num, str). nat num)") auto

declare strtoint.simps [simp del]

text \<open>The library's version empties the buffer first, at every level of the recursion.\<close>

function strtoint_libc :: "cint \<Rightarrow> u8 list \<Rightarrow> u8 list" where
  "strtoint_libc num str =
     (let str = [] :: u8 list
      in if 9 < num then strtoint_libc (num div 10) str @ [of_int (num mod 10 + 48)]
         else if num = 0 then [48]
         else str @ [of_int (num + 48)])"
  by pat_completeness auto
termination
  by (relation "measure (\<lambda>(num, str). nat num)") auto

declare strtoint_libc.simps [simp del]

definition hex_char :: "nat \<Rightarrow> u8" where
  "hex_char rem1 = (if rem1 \<le> 9 then of_nat (rem1 + 48) else of_nat (rem1 - 10 + 65))"

text \<open>
  The digit loop of \<open>convertHex2String\<close>, with its 100-byte scratch buffer. The quotient goes
  through an \<^verbatim>\<open>int\<close>, so a value at or above \<^verbatim>\<open>2^35\<close> is cut and a negative quotient is extended.
\<close>

function hex_loop :: "u64 \<Rightarrow> u8 list \<Rightarrow> u8 list option" where
  "hex_loop n string =
     (if 0 < n then
        (if 100 \<le> length string then None
         else hex_loop (of_int (i32 (uint (n div 16)))) (string @ [hex_char (unat (n mod 16))]))
      else Some string)"
  by pat_completeness auto
termination
  by (relation "measure (\<lambda>(n, string). 100 - length string)") auto

declare hex_loop.simps [simp del]

definition convertHex2String :: "u64 \<Rightarrow> u8 list option" where
  "convertHex2String n = map_option rev (hex_loop n [])"

function ptr_loop :: "u64 \<Rightarrow> u8 list \<Rightarrow> u8 list" where
  "ptr_loop n string2 =
     (if 0 < n then ptr_loop (n div 16) (string2 @ [hex_char (unat (n mod 16))]) else string2)"
  by pat_completeness auto
termination
  by (relation "measure (\<lambda>(n, s). unat n)") (auto simp: unat_div word_less_nat_alt)

declare ptr_loop.simps [simp del]

definition convertPointerAddress2String :: "u64 \<Rightarrow> u8 list" where
  "convertPointerAddress2String n =
     (let str = [48, 120] @ rev (ptr_loop n [])
      in if length str = 2 then str @ [48] else str)"

text \<open>
  The library's versions of the last two keep their digits at a pointer that is \<^verbatim>\<open>NULL\<close>: the first
  digit is a write through it, which \<open>None\<close> stands for.
\<close>

definition convertHex2String_libc :: "u64 \<Rightarrow> u8 list option" where
  "convertHex2String_libc n = (if 0 < n then None else Some [48, 120])"

definition convertPointerAddress2String_libc :: "u64 \<Rightarrow> u8 list option" where
  "convertPointerAddress2String_libc n =
     (if 0 < n then None
      else let str = [48, 120 :: u8] in Some (if length str = 2 then str @ [48] else str))"

section \<open>Decimal\<close>

lemma digit_of:
  assumes "0 \<le> d" "d \<le> 9"
  shows "is_digit (of_int (d + 48))" and "uint (of_int (d + 48) :: u8) - 48 = d"
proof -
  have u: "uint (of_int (d + 48) :: u8) = d + 48"
    using assms by (simp only: uint_word_of_int) simp
  then show "is_digit (of_int (d + 48))" "uint (of_int (d + 48) :: u8) - 48 = d"
    using assms by (simp_all add: is_digit_def word_le_def)
qed

lemma strtoint_digits:
  "0 \<le> n \<Longrightarrow> list_all is_digit (strtoint n []) \<and> dval 0 (strtoint n []) = n \<and> strtoint n [] \<noteq> []"
proof (induction n "[] :: u8 list" rule: strtoint.induct)
  case (1 num)
  show ?case
  proof (cases "9 < num")
    case True
    with 1 have IH: "list_all is_digit (strtoint (num div 10) [])" "dval 0 (strtoint (num div 10) []) = num div 10"
      by simp_all
    have "0 \<le> num mod 10" "num mod 10 \<le> 9" by simp_all
    note d = digit_of [OF this]
    have "dval 0 (strtoint num []) = num div 10 * 10 + num mod 10"
      using True IH d(2) by (subst strtoint.simps) simp
    moreover have "list_all is_digit (strtoint num [])" "strtoint num [] \<noteq> []"
      using True IH d(1) by (subst strtoint.simps, simp)+
    ultimately show ?thesis by simp
  next
    case False
    show ?thesis
    proof (cases "num = 0")
      case True
      then show ?thesis by (subst (1 2 3) strtoint.simps) (simp add: is_digit_def)
    next
      case nz: False
      with False 1 have "0 \<le> num" "num \<le> 9" by simp_all
      note d = digit_of [OF this]
      show ?thesis using False nz d by (subst (1 2 3) strtoint.simps) simp
    qed
  qed
qed

lemma strtoint_libc_eq: "strtoint_libc n str = strtoint n []"
proof (induction n str rule: strtoint_libc.induct)
  case (1 num str)
  then show ?case
    by (subst strtoint_libc.simps, subst strtoint.simps) simp
qed

section \<open>Hexadecimal\<close>

definition hex_digit :: "u8 \<Rightarrow> nat" where
  "hex_digit c = (if c \<le> 57 then unat c - 48 else unat c - 55)"

definition hval :: "u8 list \<Rightarrow> nat" where
  "hval cs = foldl (\<lambda>a c. a * 16 + hex_digit c) 0 cs"

lemma hval_simps [simp]: "hval [] = 0" "hval (cs @ [c]) = hval cs * 16 + hex_digit c"
  by (simp_all add: hval_def)

lemma hex_digit_char: "r < 16 \<Longrightarrow> hex_digit (hex_char r) = r"
proof -
  have all: "\<forall>r \<in> set [0..<16]. hex_digit (hex_char r) = r"
    by (simp add: upt_rec hex_digit_def hex_char_def)
  assume "r < 16"
  with all show ?thesis by simp
qed

lemma loop_0 [simp]: "ptr_loop 0 s = s" "hex_loop 0 s = Some s"
  by (simp add: ptr_loop.simps, simp add: hex_loop.simps)

text \<open>The digits come out lowest first; they denote the value.\<close>

lemma ptr_loop_eq:
  "\<exists>ds. ptr_loop n s = s @ ds \<and> hval (rev ds) = unat n \<and> (ds = [] \<longleftrightarrow> n = 0)"
proof (induction n s rule: ptr_loop.induct)
  case (1 n s)
  show ?case
  proof (cases "0 < n")
    case True
    from 1 [OF True] obtain ds where ds: "ptr_loop (n div 16) (s @ [hex_char (unat (n mod 16))]) =
        s @ [hex_char (unat (n mod 16))] @ ds" "hval (rev ds) = unat (n div 16)"
      by auto
    have "unat (n mod 16) < 16" by (simp add: unat_mod)
    then have "hval (rev (hex_char (unat (n mod 16)) # ds)) = unat (n div 16) * 16 + unat (n mod 16)"
      using ds(2) by (simp add: hex_digit_char)
    also have "\<dots> = unat n" by (simp add: unat_div unat_mod)
    finally show ?thesis
      using ds(1) True by (intro exI [of _ "hex_char (unat (n mod 16)) # ds"]) (simp add: ptr_loop.simps [of n])
  qed (use word_gt_0 [of n] in simp)
qed

lemma int_quotient:
  "unat n < 2 ^ 31 \<Longrightarrow> (of_int (i32 (uint (n div 16 :: u64))) :: u64) = n div 16"
proof -
  assume "unat n < 2 ^ 31"
  then have "unat (n div 16) < 2 ^ 31" by (simp add: unat_div)
  then have "in_i32 (int (unat (n div 16)))" by (rule in_i32_nat)
  then have "i32 (int (unat (n div 16))) = int (unat (n div 16))" by (rule i32_id)
  then show ?thesis by (simp del: int_nat_eq)
qed

lemma hex_loop_eq:
  "unat n < 2 ^ 31 \<Longrightarrow> unat n < 16 ^ k \<Longrightarrow> k + length s \<le> 100 \<Longrightarrow> hex_loop n s = Some (ptr_loop n s)"
proof (induction k arbitrary: n s)
  case 0
  then have "n = 0" by (simp add: unat_eq_zero)
  then show ?case by simp
next
  case (Suc k)
  show ?case
  proof (cases "0 < n")
    case True
    have "unat (n div 16) < 2 ^ 31" "unat (n div 16) < 16 ^ k"
      using Suc.prems(1,2) by (simp_all add: unat_div less_mult_imp_div_less mult.commute)
    then have "hex_loop (n div 16) (s @ [hex_char (unat (n mod 16))]) = Some (ptr_loop (n div 16) (s @ [hex_char (unat (n mod 16))]))"
      using Suc.prems(3) by (intro Suc.IH) simp_all
    moreover have "\<not> 100 \<le> length s" using Suc.prems(3) by simp
    ultimately show ?thesis
      using True int_quotient [OF Suc.prems(1)]
      by (subst hex_loop.simps, subst ptr_loop.simps) simp
  next
    case False
    then show ?thesis by (subst hex_loop.simps, subst ptr_loop.simps) simp
  qed
qed

text \<open>From -1 the loop does not make progress, and runs out of its buffer.\<close>

lemma hex_loop_minus_one: "hex_loop (-1) s = None"
proof (induction "100 - length s" arbitrary: s)
  case 0
  then show ?case by (subst hex_loop.simps) (simp add: word_gt_0)
next
  case (Suc k)
  have "(of_int (i32 (uint ((-1 :: u64) div 16))) :: u64) = -1"
    by (simp add: i32_def uint_word_ariths signed_take_bit_def mask_eq_exp_minus_1 not_eq_complement)
  moreover have "hex_loop (-1) (s @ [hex_char (unat ((-1 :: u64) mod 16))]) = None"
    using Suc.hyps(2) by (intro Suc.hyps(1)) simp
  ultimately show ?case by (subst hex_loop.simps) (simp add: word_gt_0)
qed

end
