(* ===== verification/Console.thy ===== *)
theory Console
  imports Format
begin

text \<open>
  The text console, \<^verbatim>\<open>sys/kprintf.c\<close>: a 25 by 80 screen of character and colour bytes, the
  cursor (\<open>x_pos\<close> counts bytes, two a character), scrolling, \<open>kprintf\<close>, the echo of the keyboard and
  the clock in the last row. A format that ends in \<^verbatim>\<open>%\<close>, and a \<^verbatim>\<open>%s\<close> argument that ends in a
  newline, make the code read past a terminator: those are the error \<open>None\<close>, as is a conversion
  without an argument.
\<close>

unbundle bit_operations_syntax

section \<open>Definitions\<close>

record console =
  video :: "int \<Rightarrow> u8"
  x_pos :: cint
  y_pos :: cint
  global_x :: cint
  global_y :: cint
  control :: u8
  shift :: u8

abbreviation (input) colour :: u8 where "colour \<equiv> 7"

definition memcpyy :: "int \<Rightarrow> int \<Rightarrow> nat \<Rightarrow> (int \<Rightarrow> u8) \<Rightarrow> (int \<Rightarrow> u8)" where
  "memcpyy src dest n v = fold (\<lambda>i v. v(dest + int i := v (src + int i))) [0..<n div 2] v"

definition update_screen :: "console \<Rightarrow> console" where
  "update_screen s =
     s\<lparr>video := fold (\<lambda>y v. memcpyy ((int y + 1) * 160) (int y * 160) 320 v) [0..<23] (video s)\<rparr>"

text \<open>The fragments \<open>kprintf\<close> repeats: the two checks and the two writes of one character.\<close>

definition scroll :: "console \<Rightarrow> console" where
  "scroll s = (if y_pos s = 23 then (update_screen s)\<lparr>y_pos := y_pos s - 1\<rparr> else s)"

definition wrap :: "console \<Rightarrow> console" where
  "wrap s = (if x_pos s = 160 then s\<lparr>x_pos := 0, y_pos := y_pos s + 1\<rparr> else s)"

definition put_at :: "cint \<Rightarrow> u8 \<Rightarrow> console \<Rightarrow> console" where
  "put_at y c s =
     (let s = s\<lparr>video := (video s)(x_pos s + y * 160 := c), x_pos := x_pos s + 1\<rparr>
      in s\<lparr>video := (video s)(x_pos s + y * 160 := colour), x_pos := x_pos s + 1\<rparr>)"

definition put :: "u8 \<Rightarrow> console \<Rightarrow> console" where
  "put c s = put_at (y_pos s) c s"

definition emit :: "u8 \<Rightarrow> console \<Rightarrow> console" where
  "emit c s = put c (scroll (wrap s))"

definition newline :: "console \<Rightarrow> console" where
  "newline s = scroll (s\<lparr>y_pos := y_pos s + 1, x_pos := 0\<rparr>)"

definition plain :: "u8 \<Rightarrow> console \<Rightarrow> console" where
  "plain c s = (if c = 10 then newline s else if c = 13 then s\<lparr>x_pos := 0\<rparr> else emit c s)"

definition emit_char :: "u8 \<Rightarrow> console \<Rightarrow> console" where
  "emit_char c s =
     (let s = (if x_pos s = 160 then scroll (s\<lparr>x_pos := 0, y_pos := y_pos s + 1\<rparr>) else s)
      in if c \<noteq> 10 then put c s else newline s)"

text \<open>\<^verbatim>\<open>%s\<close>: after a newline the code falls through to the write of the next byte, whatever it is.\<close>

fun emit_str :: "u8 list \<Rightarrow> console \<Rightarrow> console option" where
  "emit_str [] s = Some s"
| "emit_str [c] s = (if c = 10 then None else Some (emit c s))"
| "emit_str (c # d # cs) s =
     (if c = 10 then emit_str cs (emit d (newline s)) else emit_str (d # cs) (emit c s))"

datatype arg = AInt cint | AStr "u8 list" | ALong u64

definition emit_all :: "u8 list \<Rightarrow> console \<Rightarrow> console" where
  "emit_all str s = fold emit str s"

text \<open>
  The conversions. The buffer \<^verbatim>\<open>str\<close> is emptied before \<^verbatim>\<open>%d\<close>; a character that is none of the
  five consumes no argument.
\<close>

definition convert :: "u8 \<Rightarrow> arg list \<Rightarrow> console \<Rightarrow> (arg list \<times> console) option" where
  "convert d args s =
     (if d = 99 then (case args of AInt v # args \<Rightarrow> Some (args, emit_char (of_int v) s) | _ \<Rightarrow> None)
      else if d = 115 then
        (case args of AStr str # args \<Rightarrow> map_option (Pair args) (emit_str str s) | _ \<Rightarrow> None)
      else if d = 100 then
        (case args of AInt v # args \<Rightarrow> Some (args, emit_all (strtoint v []) s) | _ \<Rightarrow> None)
      else if d = 120 then
        (case args of AInt v # args \<Rightarrow>
           map_option (\<lambda>str. (args, emit_all str s)) (convertHex2String (of_int v)) | _ \<Rightarrow> None)
      else if d = 112 then
        (case args of ALong v # args \<Rightarrow> Some (args, emit_all (convertPointerAddress2String v) s) | _ \<Rightarrow> None)
      else Some (args, s))"

fun kprintf :: "u8 list \<Rightarrow> arg list \<Rightarrow> console \<Rightarrow> console option" where
  "kprintf [] args s = Some s"
| "kprintf [c] args s = (if c = 37 then None else Some (plain c s))"
| "kprintf (c # d # fmt) args s =
     (if c = 37 then
        (case convert d args s of None \<Rightarrow> None | Some (args, s) \<Rightarrow> kprintf fmt args s)
      else kprintf (d # fmt) args (plain c s))"

text \<open>The echo of a key; the flag says that the key was the one that ends the process.\<close>

definition kprintf_kb :: "u8 \<Rightarrow> console \<Rightarrow> console \<times> bool" where
  "kprintf_kb ch s =
     (let s = wrap (scroll s)
      in if ch = 10 then (newline s, False)
         else if control s = 1 then
           (if ch = 0x68 \<and> global_x s \<le> x_pos s - 2 then
              (let s = s\<lparr>x_pos := x_pos s - 2\<rparr>;
                   s = s\<lparr>video := (video s)(x_pos s + y_pos s * 160 := 32), x_pos := x_pos s + 1\<rparr>;
                   s = s\<lparr>video := (video s)(x_pos s + y_pos s * 160 := colour + 1), x_pos := x_pos s + 1\<rparr>
               in (s\<lparr>x_pos := x_pos s - 2\<rparr>, False))
            else (s, False))
         else if shift s = 1 then
           (if ch = 16 then (put_at 24 34 s, False) else (put ch s, False))
         else if ch = 30 then (put_at 24 67 (put_at 24 94 s), False)
         else if ch = 31 then (put_at 24 90 (put_at 24 94 s), True)
         else (put ch s, False))"

text \<open>The clock, in the last row from byte 110 on; \<open>x\<close> is the place of the next byte.\<close>

definition clock_put :: "u8 \<Rightarrow> (int \<Rightarrow> u8) \<times> cint \<Rightarrow> (int \<Rightarrow> u8) \<times> cint" where
  "clock_put c = (\<lambda>(v, x). (v(x + 24 * 160 := c, x + 1 + 24 * 160 := colour), x + 2))"

function clock_pad :: "(int \<Rightarrow> u8) \<Rightarrow> cint \<Rightarrow> (int \<Rightarrow> u8)" where
  "clock_pad v x =
     (if x \<le> 160 then clock_pad (fst (clock_put 32 (v, x))) (x + 2) else v)"
  by pat_completeness auto
termination
  by (relation "measure (\<lambda>(v, x). nat (161 - x))") auto

declare clock_pad.simps [simp del]

definition clock_text :: "cint \<Rightarrow> u8 list" where
  "clock_text time =
     (let hr = time div 3600; time = time mod 3600; mins = time div 60; secs = time mod 60
      in map of_char ''Time since boot: '' @ strtoint hr [] @ [58] @ strtoint mins [] @ [58] @ strtoint secs [])"

definition kprintf_timer :: "cint \<Rightarrow> console \<Rightarrow> console" where
  "kprintf_timer time s =
     (let (v, x) = fold clock_put (clock_text time) (video s, 110)
      in s\<lparr>video := clock_pad v x\<rparr>)"

text \<open>
  \<open>clear_console\<close>: a hundred \<open>kprintf\<close>s of 84 dashes, then blanks over the first 24 rows. Its
  first step, \<open>set_CR3\<close>, changes no part of the console: it is in the model of its caller.
\<close>

definition dashes :: "u8 list" where
  "dashes = replicate 84 45"

definition clear_row :: "int \<Rightarrow> (int \<Rightarrow> u8) \<Rightarrow> (int \<Rightarrow> u8)" where
  "clear_row y v = fold (\<lambda>k v. v(2 * int k + y * 160 := 32, 2 * int k + 1 + y * 160 := colour)) [0..<80] v"

definition clear_console :: "console \<Rightarrow> console option" where
  "clear_console s =
     map_option (\<lambda>s. s\<lparr>video := fold (\<lambda>y v. clear_row (int y) v) [0..<24] (video s), x_pos := 0, y_pos := 0\<rparr>)
       (fold (\<lambda>_ s. Option.bind s (kprintf [37, 115] [AStr dashes])) [0..<100] (Some s))"

definition full_clean :: "console \<Rightarrow> console" where
  "full_clean s =
     s\<lparr>video := fold (\<lambda>y v. fold (\<lambda>k v. v(2 * int k + int y * 160 := 32)) [0..<80] v) [0..<23] (video s),
       x_pos := 0, y_pos := 0\<rparr>"

section \<open>The cursor stays on the screen\<close>

text \<open>
  Between two characters the cursor is at an even byte of a row up to 22, or just past its end;
  \<open>kprintf\<close> then writes only in the first 23 rows.
\<close>

definition cursor_ok :: "console \<Rightarrow> bool" where
  "cursor_ok s \<longleftrightarrow> 0 \<le> x_pos s \<and> x_pos s \<le> 160 \<and> even (x_pos s) \<and> 0 \<le> y_pos s \<and> y_pos s \<le> 22"

definition within :: "(int \<Rightarrow> u8) \<Rightarrow> (int \<Rightarrow> u8) \<Rightarrow> bool" where
  "within v v' \<longleftrightarrow> (\<forall>i. i < 0 \<or> 3680 \<le> i \<longrightarrow> v' i = v i)"

lemma within_refl [simp]: "within v v"
  and within_trans: "within v v' \<Longrightarrow> within v' v'' \<Longrightarrow> within v v''"
  by (simp_all add: within_def)

lemma within_upd: "within v v' \<Longrightarrow> 0 \<le> i \<Longrightarrow> i < 3680 \<Longrightarrow> within v (v'(i := c))"
  by (auto simp: within_def)

lemma within_fold:
  "(\<And>x v. x \<in> set xs \<Longrightarrow> within v (f x v)) \<Longrightarrow> within v (fold f xs v)"
proof (induction xs arbitrary: v)
  case (Cons a xs)
  have "within v (f a v)" by (rule Cons.prems) simp
  moreover have "within (f a v) (fold f xs (f a v))" by (rule Cons.IH) (simp add: Cons.prems)
  ultimately show ?case by (auto intro: within_trans)
qed simp

text \<open>An operation that keeps the cursor on the screen and writes only the first 23 rows.\<close>

definition safe :: "console \<Rightarrow> console \<Rightarrow> bool" where
  "safe s s' \<longleftrightarrow> cursor_ok s' \<and> within (video s) (video s')"

lemma safe_trans: "safe s s' \<Longrightarrow> safe s' s'' \<Longrightarrow> safe s s''"
  by (auto simp: safe_def intro: within_trans)

lemma memcpyy_within: "0 \<le> dest \<Longrightarrow> dest + int (n div 2) \<le> 3680 \<Longrightarrow> within v (memcpyy src dest n v)"
  unfolding memcpyy_def by (rule within_fold) (auto intro: within_upd)

lemma update_screen_within: "within (video s) (video (update_screen s))"
  unfolding update_screen_def by (simp, rule within_fold) (auto intro!: memcpyy_within)

lemma update_screen_simps [simp]:
  "x_pos (update_screen s) = x_pos s" "y_pos (update_screen s) = y_pos s"
  by (simp_all add: update_screen_def)

text \<open>The cursor before the scroll check may be one row too low.\<close>

lemma scroll_safe:
  assumes "0 \<le> x_pos s" "x_pos s \<le> 160" "even (x_pos s)" "0 \<le> y_pos s" "y_pos s \<le> 23"
  shows "safe s (scroll s)" and "x_pos (scroll s) = x_pos s"
  using assms update_screen_within [of s] by (auto simp: safe_def cursor_ok_def scroll_def)

lemma put_safe:
  assumes "cursor_ok s" "x_pos s < 160"
  shows "safe s (put c s)"
proof -
  have x: "x_pos s \<le> 158" "0 \<le> x_pos s" "even (x_pos s)" "0 \<le> y_pos s" "y_pos s \<le> 22"
    using assms by (auto simp: cursor_ok_def elim!: evenE)
  then have "within (video s) ((video s)(x_pos s + y_pos s * 160 := c, x_pos s + 1 + y_pos s * 160 := colour))"
    by (intro within_upd) simp_all
  with x show ?thesis by (auto simp: safe_def cursor_ok_def put_def put_at_def Let_def)
qed

lemma newline_safe: "cursor_ok s \<Longrightarrow> safe s (newline s)"
  using scroll_safe [of "s\<lparr>y_pos := y_pos s + 1, x_pos := 0\<rparr>"]
  by (auto simp: newline_def safe_def cursor_ok_def)

lemma emit_safe: "cursor_ok s \<Longrightarrow> safe s (emit c s)"
proof -
  assume ok: "cursor_ok s"
  have w: "0 \<le> x_pos (wrap s)" "x_pos (wrap s) < 160" "even (x_pos (wrap s))" "0 \<le> y_pos (wrap s)"
    "y_pos (wrap s) \<le> 23" "video (wrap s) = video s"
    using ok by (auto simp: wrap_def cursor_ok_def)
  then have "safe (wrap s) (scroll (wrap s))" "x_pos (scroll (wrap s)) < 160"
    using scroll_safe [of "wrap s"] by simp_all
  then have "safe (wrap s) (emit c s)"
    unfolding emit_def by (meson put_safe safe_def safe_trans)
  with w(6) show ?thesis by (simp add: safe_def)
qed

lemma plain_safe: "cursor_ok s \<Longrightarrow> safe s (plain c s)"
  using newline_safe emit_safe by (auto simp: plain_def safe_def cursor_ok_def)

lemma emit_char_safe: "cursor_ok s \<Longrightarrow> safe s (emit_char c s)"
proof -
  assume ok: "cursor_ok s"
  define s1 where "s1 = (if x_pos s = 160 then scroll (s\<lparr>x_pos := 0, y_pos := y_pos s + 1\<rparr>) else s)"
  have s1: "safe s s1 \<and> x_pos s1 < 160"
  proof (cases "x_pos s = 160")
    case True
    let ?t = "s\<lparr>x_pos := 0, y_pos := y_pos s + 1\<rparr>"
    have "safe ?t (scroll ?t)" "x_pos (scroll ?t) = 0"
      using scroll_safe [of ?t] ok by (simp_all add: cursor_ok_def)
    with True show ?thesis by (simp add: s1_def safe_def)
  next
    case False
    with ok show ?thesis by (simp add: s1_def safe_def cursor_ok_def)
  qed
  then have "cursor_ok s1" by (simp add: safe_def)
  then have "safe s1 (emit_char c s)"
    using s1 newline_safe [of s1] put_safe [of s1 c] by (simp add: emit_char_def s1_def [symmetric] Let_def)
  with s1 show ?thesis by (blast intro: safe_trans)
qed

lemma safe_refl: "cursor_ok s \<Longrightarrow> safe s s"
  by (simp add: safe_def)

lemma emit_all_safe: "cursor_ok s \<Longrightarrow> safe s (emit_all str s)"
proof (induction str arbitrary: s)
  case Nil
  then show ?case by (simp add: emit_all_def safe_def)
next
  case (Cons c cs)
  have "safe s (emit c s)" by (rule emit_safe [OF Cons.prems])
  moreover from this have "safe (emit c s) (emit_all cs (emit c s))" by (intro Cons.IH) (simp add: safe_def)
  ultimately show ?case by (auto simp: emit_all_def intro: safe_trans)
qed

lemma emit_str_safe: "cursor_ok s \<Longrightarrow> emit_str str s = Some s' \<Longrightarrow> safe s s'"
proof (induction str s rule: emit_str.induct)
  case (1 s)
  then show ?case by (simp add: safe_def)
next
  case (2 c s)
  then show ?case by (auto simp: emit_safe split: if_splits)
next
  case (3 c d cs s)
  show ?case
  proof (cases "c = 10")
    case True
    have "safe s (emit d (newline s))"
      using newline_safe [OF 3(3)] emit_safe safe_trans by (meson safe_def)
    with 3(1) [OF True] 3(4) True show ?thesis by (auto simp: safe_def intro: within_trans)
  next
    case False
    have "safe s (emit c s)" by (rule emit_safe [OF 3(3)])
    with 3(2) [OF False] 3(4) False show ?thesis by (auto simp: safe_def intro: within_trans)
  qed
qed

lemma convert_safe: "cursor_ok s \<Longrightarrow> convert d args s = Some (args', s') \<Longrightarrow> safe s s'"
  unfolding convert_def
  by (auto simp: emit_char_safe emit_all_safe emit_str_safe safe_refl split: if_splits list.splits arg.splits)

lemma kprintf_safe: "cursor_ok s \<Longrightarrow> kprintf fmt args s = Some s' \<Longrightarrow> safe s s'"
proof (induction fmt args s rule: kprintf.induct)
  case (1 args s)
  then show ?case by (simp add: safe_def)
next
  case (2 c args s)
  then show ?case by (auto simp: plain_safe split: if_splits)
next
  case (3 c d fmt args s)
  show ?case
  proof (cases "c = 37")
    case True
    with 3(4) obtain args1 s1 where c: "convert d args s = Some (args1, s1)" "kprintf fmt args1 s1 = Some s'"
      by (auto split: option.splits)
    have "safe s s1" by (rule convert_safe [OF 3(3) c(1)])
    moreover from this have "safe s1 s'" using 3(1) [OF True c(1) refl] c(2) by (simp add: safe_def)
    ultimately show ?thesis by (rule safe_trans)
  next
    case False
    have "safe s (plain c s)" by (rule plain_safe [OF 3(3)])
    moreover from this have "safe (plain c s) s'" using 3(2) [OF False] 3(4) False by (simp add: safe_def)
    ultimately show ?thesis by (rule safe_trans)
  qed
qed

section \<open>When it returns\<close>

fun str_ok :: "u8 list \<Rightarrow> bool" where
  "str_ok [] \<longleftrightarrow> True"
| "str_ok [c] \<longleftrightarrow> c \<noteq> 10"
| "str_ok (c # d # cs) \<longleftrightarrow> (if c = 10 then str_ok cs else str_ok (d # cs))"

definition arg_ok :: "u8 \<Rightarrow> arg \<Rightarrow> bool" where
  "arg_ok d a \<longleftrightarrow>
     (case a of AInt v \<Rightarrow> d = 99 \<or> d = 100 \<or> (d = 120 \<and> 0 \<le> v \<and> v < 2 ^ 31)
      | AStr str \<Rightarrow> d = 115 \<and> str_ok str | ALong v \<Rightarrow> d = 112)"

definition takes_arg :: "u8 \<Rightarrow> bool" where
  "takes_arg d \<longleftrightarrow> d = 99 \<or> d = 115 \<or> d = 100 \<or> d = 120 \<or> d = 112"

fun fmt_ok :: "u8 list \<Rightarrow> arg list \<Rightarrow> bool" where
  "fmt_ok [] args \<longleftrightarrow> True"
| "fmt_ok [c] args \<longleftrightarrow> c \<noteq> 37"
| "fmt_ok (c # d # fmt) args \<longleftrightarrow>
     (if c = 37 then
        (if takes_arg d then (case args of [] \<Rightarrow> False | a # args \<Rightarrow> arg_ok d a \<and> fmt_ok fmt args)
         else fmt_ok fmt args)
      else fmt_ok (d # fmt) args)"

lemma emit_str_total: "str_ok str \<Longrightarrow> emit_str str s \<noteq> None"
  by (induction str s rule: emit_str.induct) auto

lemma hex_total:
  assumes "0 \<le> v" "v < 2 ^ 31"
  shows "convertHex2String (of_int v) = Some (rev (ptr_loop (of_int v) []))"
proof -
  have u: "unat (of_int v :: u64) = nat v"
    using assms by (simp add: unat_eq_nat_uint uint_word_of_int)
  then have "unat (of_int v :: u64) < 2 ^ 31" using assms by simp
  moreover have "unat (of_int v :: u64) < 16 ^ 8" using u assms by simp
  ultimately show ?thesis using hex_loop_eq [of "of_int v" 8 "[]"] by (simp add: convertHex2String_def)
qed

lemma convert_total:
  "takes_arg d \<Longrightarrow> arg_ok d a \<Longrightarrow> \<exists>s'. convert d (a # args) s = Some (args, s')"
  using emit_str_total by (cases a) (auto simp: convert_def arg_ok_def takes_arg_def hex_total)

lemma kprintf_total: "fmt_ok fmt args \<Longrightarrow> kprintf fmt args s \<noteq> None"
proof (induction fmt args s rule: kprintf.induct)
  case (3 c d fmt args s)
  show ?case
  proof (cases "c = 37")
    case True
    show ?thesis
    proof (cases "takes_arg d")
      case takes: True
      with 3(3) True obtain a args' where a: "args = a # args'" "arg_ok d a" "fmt_ok fmt args'"
        by (cases args) auto
      obtain s' where c: "convert d args s = Some (args', s')" using convert_total [OF takes a(2)] a(1) by blast
      from 3(1) [OF True c refl a(3)] True c show ?thesis by simp
    next
      case False
      then have c: "convert d args s = Some (args, s)" by (simp add: takes_arg_def convert_def)
      from 3(1) [OF True c refl] 3(3) True False c show ?thesis by simp
    qed
  next
    case False
    with 3(2) [OF False] 3(3) show ?thesis by simp
  qed
qed auto

section \<open>What is shown\<close>

definition shown_at :: "u8 list \<Rightarrow> int \<Rightarrow> (int \<Rightarrow> u8) \<Rightarrow> bool" where
  "shown_at str p v \<longleftrightarrow> (\<forall>i<length str. v (p + 2 * int i) = str ! i \<and> v (p + 2 * int i + 1) = colour)"

lemma emit_row:
  assumes "0 \<le> x_pos s" "x_pos s < 160" "0 \<le> y_pos s" "y_pos s \<le> 22"
  shows "emit c s = s\<lparr>video := (video s)(x_pos s + y_pos s * 160 := c, x_pos s + y_pos s * 160 + 1 := colour),
      x_pos := x_pos s + 2\<rparr>"
  using assms by (simp add: emit_def wrap_def scroll_def put_def put_at_def Let_def algebra_simps)

lemma emit_all_row:
  assumes "0 \<le> x_pos s" "x_pos s + 2 * int (length str) \<le> 160" "0 \<le> y_pos s" "y_pos s \<le> 22"
  shows "x_pos (emit_all str s) = x_pos s + 2 * int (length str) \<and> y_pos (emit_all str s) = y_pos s \<and>
    shown_at str (x_pos s + y_pos s * 160) (video (emit_all str s)) \<and>
    (\<forall>i. i < x_pos s + y_pos s * 160 \<or> x_pos s + y_pos s * 160 + 2 * int (length str) \<le> i \<longrightarrow>
       video (emit_all str s) i = video s i)"
  using assms
proof (induction str arbitrary: s)
  case Nil
  then show ?case by (simp add: emit_all_def shown_at_def)
next
  case (Cons c cs)
  define p where "p = x_pos s + y_pos s * 160"
  define s1 where "s1 = emit c s"
  have s1: "s1 = s\<lparr>video := (video s)(p := c, p + 1 := colour), x_pos := x_pos s + 2\<rparr>"
    unfolding s1_def p_def using Cons.prems by (intro emit_row) simp_all
  have IH: "x_pos (emit_all cs s1) = x_pos s1 + 2 * int (length cs) \<and> y_pos (emit_all cs s1) = y_pos s1 \<and>
    shown_at cs (x_pos s1 + y_pos s1 * 160) (video (emit_all cs s1)) \<and>
    (\<forall>i. i < x_pos s1 + y_pos s1 * 160 \<or> x_pos s1 + y_pos s1 * 160 + 2 * int (length cs) \<le> i \<longrightarrow>
       video (emit_all cs s1) i = video s1 i)"
    by (rule Cons.IH) (use Cons.prems in \<open>simp_all add: s1\<close>)
  have p2: "x_pos s1 + y_pos s1 * 160 = p + 2" by (simp add: s1 p_def)
  have all: "emit_all (c # cs) s = emit_all cs s1" by (simp add: emit_all_def s1_def)
  note IH = IH [unfolded p2]
  have "video (emit_all cs s1) p = c" "video (emit_all cs s1) (p + 1) = colour"
    using IH by (simp_all add: s1)
  moreover have "shown_at cs (p + 2) (video (emit_all cs s1))" using IH by simp
  ultimately have "shown_at (c # cs) p (video (emit_all cs s1))"
    unfolding shown_at_def by (auto simp: less_Suc_eq_0_disj algebra_simps)
  moreover have "video (emit_all cs s1) i = video s i"
    if "i < p \<or> p + 2 * int (length (c # cs)) \<le> i" for i
    using that IH by (auto simp: s1)
  ultimately show ?case
    using IH unfolding all p_def [symmetric] by (simp add: s1)
qed

section \<open>The clock\<close>

lemma clock_put_fold:
  "snd (fold clock_put str (v, x)) = x + 2 * int (length str)"
  "i < x + 3840 \<Longrightarrow> fst (fold clock_put str (v, x)) i = v i"
  by (induction str arbitrary: v x) (auto simp: clock_put_def)

lemma clock_pad_low: "i < x + 3840 \<Longrightarrow> clock_pad v x i = v i"
proof (induction v x rule: clock_pad.induct)
  case (1 v x)
  have "fst (clock_put 32 (v, x)) i = v i" using "1.prems" by (simp add: clock_put_def)
  then show ?case using 1 by (subst clock_pad.simps) simp
qed

lemma clock_pad_end:
  "even x \<Longrightarrow> x \<le> 160 \<Longrightarrow> clock_pad v x 4000 = 32 \<and> clock_pad v x 4001 = colour"
proof (induction v x rule: clock_pad.induct)
  case (1 v x)
  show ?case
  proof (cases "x = 160")
    case True
    then show ?thesis
      by (subst (1 2) clock_pad.simps) (simp add: clock_put_def clock_pad_low)
  next
    case False
    with "1.prems" have "x + 2 \<le> 160" by presburger
    with 1 show ?thesis by (subst (1 2) clock_pad.simps) simp
  qed
qed

lemma strtoint_length:
  "0 \<le> n \<Longrightarrow> n < 10 ^ Suc k \<Longrightarrow> length (strtoint n []) \<le> Suc k"
proof (induction k arbitrary: n)
  case 0
  then show ?case by (subst strtoint.simps) simp
next
  case (Suc k)
  show ?case
  proof (cases "9 < n")
    case True
    have "n div 10 < 10 ^ Suc k" using Suc.prems by simp
    then have "length (strtoint (n div 10) []) \<le> Suc k" using Suc.prems by (intro Suc.IH) simp_all
    with True show ?thesis by (subst strtoint.simps) simp
  next
    case False
    then show ?thesis by (subst strtoint.simps) simp
  qed
qed

lemma clock_text_length: "0 \<le> t \<Longrightarrow> t < 360000 \<Longrightarrow> length (clock_text t) \<le> 25"
proof -
  assume t: "0 \<le> t" "t < 360000"
  have "length (strtoint (t div 3600) []) \<le> 2" "length (strtoint (t mod 3600 div 60) []) \<le> 2"
    "length (strtoint (t mod 3600 mod 60) []) \<le> 2"
    by (rule order.trans [OF strtoint_length [where k = 1]]; use t in \<open>simp add: div_less_iff_less_mult\<close>)+
  then show ?thesis by (simp add: clock_text_def Let_def)
qed

lemma clock_put_shown:
  "shown_at str (x + 3840) (fst (fold clock_put str (v, x)))"
proof (induction str arbitrary: v x)
  case Nil
  then show ?case by (simp add: shown_at_def)
next
  case (Cons c cs)
  define v1 where "v1 = v(x + 24 * 160 := c, x + 1 + 24 * 160 := colour)"
  have step: "fold clock_put (c # cs) (v, x) = fold clock_put cs (v1, x + 2)"
    by (simp add: clock_put_def v1_def)
  have "fst (fold clock_put cs (v1, x + 2)) (x + 3840) = c"
    "fst (fold clock_put cs (v1, x + 2)) (x + 3841) = colour"
    by (simp_all add: clock_put_fold v1_def)
  with Cons.IH [where v = v1 and x = "x + 2"] show ?case
    unfolding step shown_at_def by (auto simp: less_Suc_eq_0_disj algebra_simps)
qed

lemma kb_cursor:
  assumes "cursor_ok s" and "\<not> (x_pos s = 160 \<and> y_pos s = 22)"
  shows "scroll s = s" and "safe s (wrap s)" and "x_pos (wrap s) < 160"
  using assms by (auto simp: scroll_def safe_def cursor_ok_def wrap_def)

section \<open>Properties\<close>

text \<open>C13: \<open>kprintf\<close> with an argument of the right kind for every conversion (and no \<open>%s\<close> argument ending in a newline, no negative \<open>%x\<close>) returns, leaves the cursor on the screen, and writes no byte outside the first 23 rows, whatever the length of the text.\<close>

theorem kprintf_on_screen:
  assumes "cursor_ok s" and "fmt_ok fmt args"
  shows "\<exists>s'. kprintf fmt args s = Some s' \<and> cursor_ok s' \<and> within (video s) (video s')"
  using kprintf_total [OF assms(2)] kprintf_safe [OF assms(1)] unfolding safe_def by blast

definition demo_console :: console where
  "demo_console = \<lparr>video = (\<lambda>_. 32), x_pos = 158, y_pos = 22, global_x = 0, global_y = 0, control = 0, shift = 0\<rparr>"

theorem kprintf_on_screen_witness:
  "\<exists>s'. kprintf [97, 37, 100, 10] [AInt 42] demo_console = Some s' \<and> cursor_ok s' \<and>
     within (video demo_console) (video s')"
  by (rule kprintf_on_screen) (simp_all add: demo_console_def cursor_ok_def takes_arg_def arg_ok_def)

text \<open>\<open>kprintf("%d", n)\<close> of a non-negative number that fits in the row shows its decimal digits, with value \<open>n\<close>, in white from the cursor on, moves the cursor past them and changes nothing else.\<close>

theorem kprintf_decimal:
  assumes "cursor_ok s" and "0 \<le> n" and "x_pos s + 2 * int (length (strtoint n [])) \<le> 160"
  shows "\<exists>s' ds. kprintf [37, 100] [AInt n] s = Some s' \<and> list_all is_digit ds \<and> dval 0 ds = n \<and>
    shown_at ds (x_pos s + y_pos s * 160) (video s') \<and> x_pos s' = x_pos s + 2 * int (length ds) \<and> y_pos s' = y_pos s \<and>
    (\<forall>i. i < x_pos s + y_pos s * 160 \<or> x_pos s + y_pos s * 160 + 2 * int (length ds) \<le> i \<longrightarrow> video s' i = video s i)"
proof -
  have k: "kprintf [37, 100] [AInt n] s = Some (emit_all (strtoint n []) s)"
    by (simp add: convert_def)
  show ?thesis
    unfolding k using emit_all_row [OF _ assms(3)] assms(1) strtoint_digits [OF assms(2)]
    by (intro exI [of _ "emit_all (strtoint n []) s"] exI [of _ "strtoint n []"] conjI) (auto simp: cursor_ok_def)
qed

theorem kprintf_decimal_witness:
  "\<exists>s' ds. kprintf [37, 100] [AInt 7] demo_console = Some s' \<and> dval 0 ds = 7 \<and>
     shown_at ds 3678 (video s')"
  using kprintf_decimal [of demo_console 7] by (auto simp: demo_console_def cursor_ok_def strtoint.simps)

text \<open>The echo of a key keeps the cursor on the screen and writes only its first 23 rows, unless the cursor is just past the end of the last of them, or the key is one of the three that mark the bottom row.\<close>

theorem kprintf_kb_on_screen:
  assumes "cursor_ok s" "\<not> (x_pos s = 160 \<and> y_pos s = 22)" and "0 \<le> global_x s"
    and "control s \<noteq> 1 \<longrightarrow> (if shift s = 1 then ch \<noteq> 16 else ch \<noteq> 30 \<and> ch \<noteq> 31)"
  shows "safe s (fst (kprintf_kb ch s)) \<and> snd (kprintf_kb ch s) = False"
proof -
  define s1 where "s1 = wrap s"
  note w = kb_cursor [OF assms(1,2)]
  have s1: "safe s s1" "x_pos s1 < 160" "global_x s1 = global_x s" "control s1 = control s" "shift s1 = shift s"
    using w by (simp_all add: s1_def wrap_def)
  have ok: "cursor_ok s1" using s1(1) by (simp add: safe_def)
  have "safe s1 (fst (kprintf_kb ch s)) \<and> snd (kprintf_kb ch s) = False"
  proof (cases "ch \<noteq> 10 \<and> control s = 1 \<and> ch = 0x68 \<and> global_x s \<le> x_pos s1 - 2")
    case True
    then have "2 \<le> x_pos s1" using assms(3) by simp
    then have "within (video s1) ((video s1)(x_pos s1 - 2 + y_pos s1 * 160 := 32, x_pos s1 - 1 + y_pos s1 * 160 := colour + 1))"
      using ok by (intro within_upd) (simp_all add: cursor_ok_def)
    with True s1 ok \<open>2 \<le> x_pos s1\<close> show ?thesis
      unfolding kprintf_kb_def w(1) s1_def [symmetric]
      by (auto simp: Let_def safe_def cursor_ok_def)
  next
    case False
    then show ?thesis
      using s1 ok assms(4) newline_safe [OF ok] put_safe [OF ok s1(2)] safe_refl [OF ok]
      unfolding kprintf_kb_def w(1) s1_def [symmetric] by (auto simp: Let_def)
  qed
  with s1(1) show ?thesis by (blast intro: safe_trans)
qed

theorem kprintf_kb_on_screen_witness:
  "safe demo_console (fst (kprintf_kb 97 demo_console)) \<and> snd (kprintf_kb 97 demo_console) = False"
  by (rule kprintf_kb_on_screen) (simp_all add: demo_console_def cursor_ok_def)



text \<open>The clock shows its text from byte 110 of the last row, leaves the cursor and everything before it alone, and writes one blank cell too many: bytes 4000 and 4001, past the end of the screen.\<close>

theorem kprintf_timer_overrun:
  assumes "0 \<le> t" "t < 360000"
  shows "video (kprintf_timer t s) 4000 = 32 \<and> video (kprintf_timer t s) 4001 = colour \<and>
    shown_at (clock_text t) 3950 (video (kprintf_timer t s)) \<and>
    (\<forall>i<3950. video (kprintf_timer t s) i = video s i) \<and>
    x_pos (kprintf_timer t s) = x_pos s \<and> y_pos (kprintf_timer t s) = y_pos s"
proof -
  obtain v x where vx: "fold clock_put (clock_text t) (video s, 110) = (v, x)" by fastforce
  have x: "x = 110 + 2 * int (length (clock_text t))"
    using clock_put_fold(1) [where str = "clock_text t" and v = "video s" and x = 110] vx by simp
  have le: "x \<le> 160" "even x" using clock_text_length [OF assms] x by simp_all
  have k: "kprintf_timer t s = s\<lparr>video := clock_pad v x\<rparr>" by (simp add: kprintf_timer_def vx)
  have low: "\<forall>i<3950. v i = video s i"
    using clock_put_fold(2) [where str = "clock_text t" and v = "video s" and x = 110] vx by simp
  have "shown_at (clock_text t) 3950 v"
    using clock_put_shown [where str = "clock_text t" and v = "video s" and x = 110] vx by simp
  then have "shown_at (clock_text t) 3950 (clock_pad v x)"
    using x by (auto simp: shown_at_def clock_pad_low)
  moreover have "\<forall>i<3950. clock_pad v x i = video s i" using low x by (simp add: clock_pad_low)
  ultimately show ?thesis using clock_pad_end [OF le(2,1)] by (simp add: k)
qed

theorem kprintf_timer_overrun_witness:
  "video (kprintf_timer 3661 demo_console) 4000 = 32 \<and> video (kprintf_timer 3661 demo_console) 4001 = colour"
  using kprintf_timer_overrun [of 3661 demo_console] by simp

end
