(* ===== verification/Process.thy ===== *)
theory Process
  imports Vma Console "HOL-Library.Monad_Syntax"
begin

text \<open>
  Processes, \<^verbatim>\<open>sys/process.c\<close>: process identifiers, the circular list of runnable processes and
  the operations that rotate it (\<open>scheduler\<close>, \<open>wait\<close>) or take a process out of it
  (\<open>sys_exit\<close>, \<open>kill\<close>), and the environment variables of a process. What the inline assembly does
  to registers other than \<^verbatim>\<open>cr3\<close> is left out.
\<close>

unbundle bit_operations_syntax

section \<open>Process identifiers\<close>

text \<open>
  \<^verbatim>\<open>id << i\<close> is an \<^verbatim>\<open>int\<close> shift: at 31 it gives the smallest \<^verbatim>\<open>int\<close>, and the \<open>|=\<close> extends
  its sign over the upper half of the map. A shift by 32 or more is taken modulo 32, as the
  processor does.
\<close>

definition int_bit :: "nat \<Rightarrow> u64" where
  "int_bit i = of_int (i32 (2 ^ (i mod 32)))"

function pid_loop :: "nat \<Rightarrow> kernel \<Rightarrow> kernel \<times> cint" where
  "pid_loop i st =
     (if i < 64 then
        if drop_bit i (processID st) AND 1 = 0
        then (st\<lparr>processID := processID st OR int_bit i\<rparr>, int i + 1)
        else pid_loop (Suc i) st
      else (st, -1))"
  by pat_completeness auto
termination
  by (relation "measure (\<lambda>(i, st). 64 - i)") auto

declare pid_loop.simps [simp del]

definition get_next_processID :: "kernel \<Rightarrow> kernel \<times> cint" where
  "get_next_processID st = pid_loop 0 st"

lemma probe_iff: "drop_bit i w AND 1 = 0 \<longleftrightarrow> \<not> bit (w :: u64) i"
  by (simp add: and_one_eq bit_iff_odd_drop_bit even_iff_mod_2_eq_zero)

lemma pid_loop_skip:
  assumes "\<forall>j. i \<le> j \<and> j < k \<longrightarrow> bit (processID st) j" "i \<le> k" "k \<le> 64"
  shows "pid_loop i st = pid_loop k st"
  using assms
proof (induction "k - i" arbitrary: i)
  case (Suc n)
  then have "i < k" "i < 64" "bit (processID st) i" by auto
  then have "drop_bit i (processID st) AND 1 \<noteq> 0"
    by (simp add: probe_iff)
  then have "pid_loop i st = pid_loop (Suc i) st"
    using \<open>i < 64\<close> by (subst pid_loop.simps) simp
  also have "\<dots> = pid_loop k st" using Suc \<open>i < k\<close> by (intro Suc.hyps(1)) auto
  finally show ?case .
qed simp

text \<open>The map after \<open>k\<close> identifiers were given out: the low \<open>k\<close> bits, or every bit from 32 on.\<close>

definition pid_map :: "nat \<Rightarrow> u64" where
  "pid_map k = (if k < 32 then mask k else -1)"

lemma pid_map_bit: "j < 64 \<Longrightarrow> bit (pid_map k) j \<longleftrightarrow> j < k \<or> 32 \<le> k"
  by (auto simp: pid_map_def bit_mask_iff)

lemma int_bit_small: "i < 31 \<Longrightarrow> int_bit i = push_bit i 1"
proof -
  assume "i < 31"
  then have "(2 :: int) ^ i \<le> 2 ^ 30" by (intro power_increasing) simp_all
  moreover have "- (2 ^ 31) \<le> (2 :: int) ^ i" by (rule order.trans [of _ 0]) simp_all
  ultimately have "in_i32 (2 ^ i)" by (simp add: in_i32_def)
  then have "i32 (2 ^ (i mod 32)) = 2 ^ i" using \<open>i < 31\<close> by (simp add: i32_id)
  then show ?thesis by (simp add: int_bit_def push_bit_eq_mult)
qed

lemma int_bit_31: "int_bit 31 = 0xFFFFFFFF80000000"
  by (simp add: int_bit_def i32_def signed_take_bit_def mask_eq_exp_minus_1 not_eq_complement)

lemma get_next_processID_eq:
  assumes "processID st = pid_map k" "k < 32"
  shows "get_next_processID st = (st\<lparr>processID := pid_map (Suc k)\<rparr>, int k + 1)"
proof -
  have "pid_loop 0 st = pid_loop k st"
    using assms by (intro pid_loop_skip) (auto simp: pid_map_bit)
  moreover have "drop_bit k (processID st) AND 1 = 0"
    using assms by (simp add: probe_iff pid_map_bit)
  moreover have "processID st OR int_bit k = pid_map (Suc k)"
  proof (cases "k = 31")
    case True
    have "(mask 31 :: u64) OR 0xFFFFFFFF80000000 = -1" by (simp add: mask_eq_exp_minus_1)
    with True assms show ?thesis by (simp add: int_bit_31 pid_map_def)
  next
    case False
    with assms have "processID st OR int_bit k = mask k OR push_bit k 1"
      by (simp add: int_bit_small pid_map_def)
    also have "\<dots> = mask (Suc k)" by (rule bit_eqI) (auto simp: bit_simps less_Suc_eq)
    finally show ?thesis using False assms(2) by (simp add: pid_map_def)
  qed
  ultimately show ?thesis
    using assms(2) by (simp add: get_next_processID_def pid_loop.simps [of k])
qed

lemma get_next_processID_full:
  assumes "processID st = pid_map k" "32 \<le> k"
  shows "get_next_processID st = (st, -1)"
proof -
  have "pid_loop 0 st = pid_loop 64 st"
    using assms by (intro pid_loop_skip) (auto simp: pid_map_bit)
  then show ?thesis by (simp add: get_next_processID_def pid_loop.simps [of 64])
qed

fun next_pids :: "nat \<Rightarrow> kernel \<Rightarrow> kernel \<times> cint list" where
  "next_pids 0 st = (st, [])"
| "next_pids (Suc n) st =
     (let (st, i) = get_next_processID st; (st, is) = next_pids n st in (st, i # is))"

lemma next_pids_eq:
  "processID st = pid_map k \<Longrightarrow>
     snd (next_pids n st) = map (\<lambda>i. if i < 32 then int i + 1 else -1) [k..<k + n]"
proof (induction n arbitrary: st k)
  case (Suc n)
  have up: "[k..<k + Suc n] = k # [Suc k..<Suc k + n]" by (simp add: upt_conv_Cons)
  show ?case
  proof (cases "k < 32")
    case True
    have "processID (st\<lparr>processID := pid_map (Suc k)\<rparr>) = pid_map (Suc k)" by simp
    from Suc.IH [OF this] True get_next_processID_eq [OF Suc.prems] show ?thesis
      unfolding up by (auto simp: Let_def simp del: upt_Suc split: prod.split)
  next
    case False
    then have "processID st = pid_map (Suc k)" using Suc.prems by (simp add: pid_map_def)
    from Suc.IH [OF this] False get_next_processID_full [OF Suc.prems] show ?thesis
      unfolding up by (auto simp: Let_def simp del: upt_Suc split: prod.split)
  qed
qed simp

section \<open>Operations on the list of processes\<close>

text \<open>
  \<^verbatim>\<open>p->next_proc\<close>: following \<open>NULL\<close> is the error \<open>None\<close>, and so is a loop that never ends. The
  stack pointer that inline assembly saves is the argument \<open>sp\<close>; the moment the assembly loads
  another stack is the end of the model's function.
\<close>

definition nxt :: "u64 \<Rightarrow> kernel \<Rightarrow> u64 option" where
  "nxt p st = (if p = 0 then None else Some (next_proc (pcbs st p)))"

definition get_pid :: "kernel \<Rightarrow> u64" where
  "get_pid st = of_int (pid (pcbs st (curr_process st)))"

definition set_tss_rsp :: "u64 \<Rightarrow> kernel \<Rightarrow> kernel" where
  "set_tss_rsp r st = st\<lparr>tss_rsp0 := r\<rparr>"

definition user_switchTask :: "u64 \<Rightarrow> u64 \<Rightarrow> u64 \<Rightarrow> kernel \<Rightarrow> kernel" where
  "user_switchTask sp current nextp st =
     (let st = set_tss_rsp (init_kernel (pcbs st nextp)) st;
          st = st\<lparr>reg_cr3 := cr3 (pcbs st nextp)\<rparr>
      in upd_pcb current (\<lambda>p. p\<lparr>kern_rsp := sp\<rparr>) st)"

definition user_switchBack :: "u64 \<Rightarrow> kernel \<Rightarrow> kernel" where
  "user_switchBack nextp st =
     (let st = upd_pcb nextp (\<lambda>p. p\<lparr>state := TASK_RUNNING\<rparr>) st;
          st = set_tss_rsp (init_kernel (pcbs st nextp)) st
      in st\<lparr>reg_cr3 := cr3 (pcbs st nextp)\<rparr>)"

text \<open>\<open>wait\<close> yields to the next process, and switches to it only when it is the one waited for; the flag says whether it did.\<close>

definition wait :: "u64 \<Rightarrow> u64 \<Rightarrow> kernel \<Rightarrow> (kernel \<times> bool) option" where
  "wait sp w st =
     (let prev_task = curr_process st;
          st = upd_pcb (curr_process st) (\<lambda>p. p\<lparr>kern_rsp := rsp_pointer st\<rparr>) st;
          st = upd_pcb (curr_process st) (\<lambda>p. p\<lparr>state := TASK_READY\<rparr>) st
      in do {
        n \<leftarrow> nxt (curr_process st) st;
        let st = st\<lparr>curr_process := n\<rparr>;
        n2 \<leftarrow> nxt (curr_process st) st;
        let st = st\<lparr>next_process := n2\<rparr>;
        let st = upd_pcb (curr_process st) (\<lambda>p. p\<lparr>state := TASK_RUNNING\<rparr>) st;
        if of_int (pid (pcbs st (curr_process st))) = w then
          (let st = set_tss_rsp (init_kernel (pcbs st (curr_process st))) st;
               st = upd_pcb prev_task (\<lambda>p. p\<lparr>kern_rsp := sp\<rparr>) st
           in Some (st\<lparr>reg_cr3 := cr3 (pcbs st (curr_process st))\<rparr>, True))
        else Some (st, False)
      })"

partial_function (option) find_prev :: "u64 \<Rightarrow> kernel \<Rightarrow> u64 option" where
  "find_prev prev_task st = do {
     n \<leftarrow> nxt prev_task st;
     if n = 0 then None
     else if pid (pcbs st n) \<noteq> pid (pcbs st (curr_process st)) then find_prev n st
     else Some prev_task
   }"

text \<open>The two loops of \<open>sys_exit\<close> that release the memory of a list of dead processes.\<close>

partial_function (option) release_list :: "u64 \<Rightarrow> kernel \<Rightarrow> kernel option" where
  "release_list p st =
     (if p = 0 then Some st
      else do {
        let iterator = next_proc (pcbs st p);
        st \<leftarrow> free_vma (mm (pcbs st p)) (cr3 (pcbs st p)) st;
        let st = free_page (user_stack (pcbs st p)) (cr3 (pcbs st p)) st;
        release_list iterator st
      })"

definition terminated_text :: "u8 list" where
  "terminated_text = replicate 3 10 @ replicate 18 42 @ bytes ''Terminal terminated'' @ replicate 18 42 @ replicate 3 10"

text \<open>
  The end of \<open>sys_exit\<close>. When the last child of the kernel thread exits, its kernel stack is set
  up to return into \<open>schedule_sbush\<close>, whose address is an argument. \<open>clear_console\<close> loads
  the current address space and prints its dashes.
\<close>

definition exit_to :: "u64 \<Rightarrow> u64 \<Rightarrow> u64 \<Rightarrow> kernel \<Rightarrow> kernel option" where
  "exit_to schedule_sbush sp prev_task st =
     (let st = st\<lparr>curr_process := prev_task\<rparr>
      in if pid (pcbs st prev_task) = 1 then
           (let st = upd_pcb prev_task (\<lambda>p. p\<lparr>kern_rsp := prev_task + PAGE_SIZE - 8\<rparr>) st;
                st = upd_pcb prev_task (\<lambda>p. p\<lparr>init_kernel := prev_task + PAGE_SIZE - 8\<rparr>) st;
                st = memset_page prev_task st;
                st = print terminated_text st;
                st = st\<lparr>reg_cr3 := cr3 (pcbs st (curr_process st))\<rparr>;
                st = print (concat (replicate 100 dashes)) st;
                st = wr (kern_rsp (pcbs st prev_task)) schedule_sbush st
            in Some (user_switchBack prev_task st))
         else do {
           n \<leftarrow> nxt prev_task st;
           Some (user_switchTask sp n (curr_process st) st)
         })"

definition sys_exit :: "u64 \<Rightarrow> u64 \<Rightarrow> kernel \<Rightarrow> kernel option" where
  "sys_exit schedule_sbush sp st = do {
     let cur = curr_process st;
     let st = upd_pcb cur (\<lambda>p. p\<lparr>state := TASK_STOPPED\<rparr>) st;
     prev_task \<leftarrow> find_prev cur st;
     let st = upd_pcb prev_task (\<lambda>p. p\<lparr>next_proc := first_process st\<rparr>) st;
     st \<leftarrow> release_list (stopped_process st) st;
     let st = st\<lparr>stopped_process := 0\<rparr>;
     let st = st\<lparr>stopped_process := cur\<rparr>;
     let st = upd_pcb cur (\<lambda>p. p\<lparr>next_proc := 0\<rparr>) st;
     st \<leftarrow> release_list (forked_process st) st;
     let st = st\<lparr>forked_process := 0\<rparr>;
     let st = st\<lparr>reg_cr3 := cr3 (pcbs st cur)\<rparr>;
     let (st, new_page) = allocate_virt_page st;
     let st = (if new_page \<noteq> 0 then print [] st else st);
     exit_to schedule_sbush sp prev_task st
   }"

text \<open>\<open>kill\<close>: the search, which also remembers the process before; the walk over the others; the end of a list.\<close>

partial_function (option) kill_find :: "u64 \<Rightarrow> u64 \<Rightarrow> u64 \<Rightarrow> kernel \<Rightarrow> u64 option" where
  "kill_find target prev_task iterator st = do {
     n \<leftarrow> nxt iterator st;
     if of_int (pid (pcbs st iterator)) \<noteq> target \<and> n \<noteq> first_process st
     then kill_find target iterator n st
     else Some prev_task
   }"

partial_function (option) reparent :: "u64 \<Rightarrow> u64 \<Rightarrow> u64 \<Rightarrow> kernel \<Rightarrow> kernel option" where
  "reparent target victim pointer st = do {
     n \<leftarrow> nxt pointer st;
     if n \<noteq> victim then
       (let st = (if of_int (ppid (pcbs st pointer)) = target
                  then upd_pcb pointer (\<lambda>p. p\<lparr>ppid := 1\<rparr>) st else st)
        in reparent target victim n st)
     else Some st
   }"

partial_function (option) last_of :: "u64 \<Rightarrow> u64 \<Rightarrow> kernel \<Rightarrow> u64 option" where
  "last_of prev_task p st =
     (if p \<noteq> 0 then last_of p (next_proc (pcbs st p)) st else Some prev_task)"

definition killed_text :: "u64 \<Rightarrow> u8 list" where
  "killed_text target = bytes ''Killed '' @ strtoint (i32 (uint target)) [] @ [10]"

definition no_process_text :: "u64 \<Rightarrow> u8 list" where
  "no_process_text target = bytes ''kill: ('' @ strtoint (i32 (uint target)) [] @ bytes '') - No such process'' @ [10]"

definition kill :: "u64 \<Rightarrow> u64 \<Rightarrow> u64 \<Rightarrow> kernel \<Rightarrow> kernel option" where
  "kill schedule_sbush sp target st =
     (if target = of_int (pid (pcbs st (curr_process st))) then sys_exit schedule_sbush sp st
      else do {
        iterator \<leftarrow> kill_find target 0 (first_process st) st;
        n \<leftarrow> nxt iterator st;
        if n = 0 then None
        else if of_int (pid (pcbs st n)) = target then do {
          pointer \<leftarrow> nxt n st;
          st \<leftarrow> reparent target n pointer st;
          let stopped_list = stopped_process st;
          st \<leftarrow> (if stopped_list = 0 then do {
                    let st = st\<lparr>stopped_process := next_proc (pcbs st iterator)\<rparr>;
                    m \<leftarrow> nxt (stopped_process st) st;
                    let st = upd_pcb iterator (\<lambda>p. p\<lparr>next_proc := m\<rparr>) st;
                    Some (upd_pcb (stopped_process st) (\<lambda>p. p\<lparr>next_proc := 0\<rparr>) st)
                  }
                  else do {
                    prev_task \<leftarrow> last_of stopped_list stopped_list st;
                    let st = upd_pcb prev_task (\<lambda>p. p\<lparr>next_proc := next_proc (pcbs st iterator)\<rparr>) st;
                    m \<leftarrow> nxt prev_task st;
                    k \<leftarrow> nxt m st;
                    let st = upd_pcb iterator (\<lambda>p. p\<lparr>next_proc := k\<rparr>) st;
                    m \<leftarrow> nxt prev_task st;
                    Some (upd_pcb m (\<lambda>p. p\<lparr>next_proc := 0\<rparr>) st)
                  });
          let st = print (killed_text target) st;
          Some (print (concat (replicate 200 (replicate 79 42 @ [32]))) st)
        }
        else Some (print (no_process_text target) st)
      })"

text \<open>\<open>print_allPID\<close> prints a row for each process, and one more for the last, from inside the loop.\<close>

definition pid_row :: "pcb \<Rightarrow> u8 list" where
  "pid_row p = strtoint (pid p) [] @ [9] @ strtoint (ppid p) [] @ [9] @ p_name p @
     (if state p = TASK_READY then [9] @ bytes ''Ready'' @ [10]
      else if state p = TASK_RUNNING then [9] @ bytes ''Running'' @ [10] else [])"

partial_function (option) pid_rows :: "u64 \<Rightarrow> kernel \<Rightarrow> kernel option" where
  "pid_rows p st = do {
     n \<leftarrow> nxt p st;
     if n \<noteq> first_process st then do {
       let st = print (pid_row (pcbs st p)) st;
       n2 \<leftarrow> nxt n st;
       let st = (if n2 = first_process st then print (pid_row (pcbs st n)) st else st);
       pid_rows n st
     }
     else Some st
   }"

definition pid_header :: "u8 list" where
  "pid_header = bytes ''PID'' @ [9] @ bytes ''PPID'' @ [9] @ bytes ''Process'' @ [9] @ bytes ''Status'' @ [10]"

definition print_allPID :: "kernel \<Rightarrow> kernel option" where
  "print_allPID st = pid_rows (first_process st) (print pid_header st)"

section \<open>Lists and rings of processes\<close>

fun lseg :: "(u64 \<Rightarrow> pcb) \<Rightarrow> u64 \<Rightarrow> u64 list \<Rightarrow> u64 \<Rightarrow> bool" where
  "lseg h p [] r \<longleftrightarrow> p = r"
| "lseg h p (q # qs) r \<longleftrightarrow> p = q \<and> q \<noteq> 0 \<and> lseg h (next_proc (h q)) qs r"

lemma lseg_append: "lseg h p (qs @ rs) r \<longleftrightarrow> (\<exists>m. lseg h p qs m \<and> lseg h m rs r)"
  by (induction qs arbitrary: p) auto

lemma lseg_cong: "(\<And>q. q \<in> set qs \<Longrightarrow> next_proc (h' q) = next_proc (h q)) \<Longrightarrow> lseg h' p qs r \<longleftrightarrow> lseg h p qs r"
  by (induction qs arbitrary: p) auto

lemma lseg_not_0: "lseg h p qs r \<Longrightarrow> 0 \<notin> set qs"
  by (induction qs arbitrary: p) auto

lemma lseg_hd: "lseg h p qs r \<Longrightarrow> qs \<noteq> [] \<Longrightarrow> p = hd qs"
  by (cases qs) auto

definition ring :: "(u64 \<Rightarrow> pcb) \<Rightarrow> u64 list \<Rightarrow> bool" where
  "ring h ps \<longleftrightarrow> ps \<noteq> [] \<and> distinct ps \<and> lseg h (hd ps) ps (hd ps)"

lemma ring_split:
  assumes "ring h (xs @ c # ys)" "xs \<noteq> []"
  shows "lseg h (hd xs) xs c" and "lseg h c (c # ys) (hd xs)" and "c \<noteq> 0"
    and "lseg h c (c # ys @ xs) c" and "distinct (xs @ c # ys)"
  using assms by (auto simp: ring_def lseg_append dest: lseg_hd)

lemma next_last: "lseg h p qs r \<Longrightarrow> qs \<noteq> [] \<Longrightarrow> next_proc (h (last qs)) = r"
  by (induction qs arbitrary: p) (auto split: if_splits)

text \<open>Redirecting the last element of a segment.\<close>

lemma lseg_redirect:
  assumes "lseg h p qs r" "qs \<noteq> []" "distinct qs"
    and "\<And>q. q \<in> set qs \<Longrightarrow> next_proc (h' q) = (if q = last qs then r' else next_proc (h q))"
  shows "lseg h' p qs r'"
  using assms
proof (induction qs arbitrary: p)
  case (Cons q qs)
  show ?case
  proof (cases "qs = []")
    case True
    with Cons.prems show ?thesis by auto
  next
    case False
    have "lseg h' (next_proc (h q)) qs r'"
      by (rule Cons.IH) (use Cons.prems False in auto)
    moreover have "q \<noteq> last qs" using Cons.prems(3) False by auto
    ultimately show ?thesis using Cons.prems(1,4) False by auto
  qed
qed simp

lemma ring_redirect:
  assumes "lseg h (hd xs) xs c" "xs \<noteq> []" "distinct xs"
    and "\<And>q. q \<in> set xs \<Longrightarrow> next_proc (h' q) = (if q = last xs then hd xs else next_proc (h q))"
  shows "ring h' xs"
  using lseg_redirect [OF assms(1-3), of h' "hd xs"] assms(2-4) by (auto simp: ring_def)

section \<open>The loops\<close>

lemma upd_pcb_simps [simp]:
  "pcbs (upd_pcb p f st) = (pcbs st)(p := f (pcbs st p))"
  "curr_process (upd_pcb p f st) = curr_process st" "first_process (upd_pcb p f st) = first_process st"
  "stopped_process (upd_pcb p f st) = stopped_process st" "forked_process (upd_pcb p f st) = forked_process st"
  "mms (upd_pcb p f st) = mms st" "vmas (upd_pcb p f st) = vmas st" "out (upd_pcb p f st) = out st"
  by (simp_all add: upd_pcb_def)

lemma print_simps [simp]:
  "pcbs (print s st) = pcbs st" "out (print s st) = out st @ s" "first_process (print s st) = first_process st"
  "curr_process (print s st) = curr_process st" "stopped_process (print s st) = stopped_process st"
  by (simp_all add: print_def)

text \<open>Only the memory of the kernel changes: the page tables, the frames and the bitmap.\<close>

definition only_mem :: "kernel \<Rightarrow> kernel \<Rightarrow> bool" where
  "only_mem st st' \<longleftrightarrow> (\<exists>m f. st' = st\<lparr>free_map := m, pm := f\<rparr>)"

lemma only_mem_refl [simp]: "only_mem st st"
proof -
  have "st = st\<lparr>free_map := free_map st, pm := pm st\<rparr>" by simp
  then show ?thesis unfolding only_mem_def by blast
qed

lemma only_mem_trans: "only_mem a b \<Longrightarrow> only_mem b c \<Longrightarrow> only_mem a c"
  by (force simp: only_mem_def)

lemma only_memD:
  assumes "only_mem st st'"
  shows "pcbs st' = pcbs st" "mms st' = mms st" "vmas st' = vmas st" "first_process st' = first_process st"
    "curr_process st' = curr_process st" "stopped_process st' = stopped_process st"
    "forked_process st' = forked_process st" "out st' = out st"
  using assms by (auto simp: only_mem_def)

lemma free_page_only_mem: "only_mem st (free_page va r st)"
proof -
  have "only_mem st (memset_page b (wr a v (st\<lparr>free_map := m\<rparr>)))" for a b v m
    unfolding only_mem_def memset_page_def wr_def by (intro exI [of _ m] exI) simp
  then show ?thesis by (simp add: free_page_def Let_def)
qed

lemma free_range_only_mem:
  "unat e \<le> 2 ^ 64 - 4096 \<Longrightarrow> visits p e = n \<Longrightarrow> \<exists>st'. free_range p e r st = Some st' \<and> only_mem st st'"
proof (induction n arbitrary: p st)
  case 0
  then have "\<not> p < e" using visits_step(1) [of p e] by auto
  then show ?case by (subst free_range.simps) simp
next
  case (Suc n)
  have lt: "p < e"
    using Suc.prems(2) by (auto simp: visits_def word_less_nat_alt intro: ccontr)
  from visits_step(1) [OF lt Suc.prems(1)] Suc.prems(2) have "visits (p + 4096) e = n" by simp
  from Suc.IH [OF Suc.prems(1) this, of "free_page p r st"] obtain st' where
    "free_range (p + 4096) e r (free_page p r st) = Some st'" "only_mem (free_page p r st) st'" by blast
  with lt show ?case
    by (subst free_range.simps) (auto intro: only_mem_trans free_page_only_mem)
qed

text \<open>Processes whose areas can be walked: a list that ends, none reaching the end of the address space.\<close>

definition areas_ok :: "kernel \<Rightarrow> u64 \<Rightarrow> bool" where
  "areas_ok st p \<longleftrightarrow> mm (pcbs st p) \<noteq> 0 \<and>
     (\<exists>qs. vlist (vmas st) (mm_vma (mms st (mm (pcbs st p)))) qs \<and>
           (\<forall>q \<in> set qs. unat (vm_end (vmas st q)) \<le> 2 ^ 64 - 4096))"

lemma free_vma_loop_only_mem:
  "vlist (vmas st) p qs \<Longrightarrow> \<forall>q \<in> set qs. unat (vm_end (vmas st q)) \<le> 2 ^ 64 - 4096 \<Longrightarrow>
     \<exists>st'. free_vma_loop p r st = Some st' \<and> only_mem st st'"
proof (induction qs arbitrary: p st)
  case Nil
  then show ?case by (subst free_vma_loop.simps) simp
next
  case (Cons q qs)
  have "unat (vm_end (vmas st p)) \<le> 2 ^ 64 - 4096" using Cons.prems by simp
  from free_range_only_mem [OF this refl] obtain st1 where
    st1: "free_range (vm_start (vmas st p)) (vm_end (vmas st p)) r st = Some st1" "only_mem st st1" by blast
  from Cons.IH [of st1 "vm_next (vmas st p)"] Cons.prems obtain st' where
    "free_vma_loop (vm_next (vmas st1 p)) r st1 = Some st'" "only_mem st1 st'"
    using only_memD(3) [OF st1(2)] by auto
  with st1 Cons.prems show ?case
    by (subst free_vma_loop.simps) (auto intro: only_mem_trans simp: only_memD(3) [OF st1(2)])
qed

lemma release_list_only_mem:
  "lseg (pcbs st) p qs 0 \<Longrightarrow> \<forall>q \<in> set qs. areas_ok st q \<Longrightarrow> \<exists>st'. release_list p st = Some st' \<and> only_mem st st'"
proof (induction qs arbitrary: p st)
  case Nil
  then show ?case by (subst release_list.simps) simp
next
  case (Cons q qs)
  then obtain vs where vs: "mm (pcbs st p) \<noteq> 0" "vlist (vmas st) (mm_vma (mms st (mm (pcbs st p)))) vs"
    "\<forall>v \<in> set vs. unat (vm_end (vmas st v)) \<le> 2 ^ 64 - 4096"
    by (auto simp: areas_ok_def)
  obtain st1 where st1: "free_vma (mm (pcbs st p)) (cr3 (pcbs st p)) st = Some st1" "only_mem st st1"
    using free_vma_loop_only_mem [OF vs(2,3)] vs(1) by (auto simp: free_vma_def)
  define st2 where "st2 = free_page (user_stack (pcbs st1 p)) (cr3 (pcbs st1 p)) st1"
  have st2: "only_mem st st2" unfolding st2_def by (rule only_mem_trans [OF st1(2) free_page_only_mem])
  have "lseg (pcbs st2) (next_proc (pcbs st p)) qs 0" "\<forall>q \<in> set qs. areas_ok st2 q"
    using Cons.prems only_memD [OF st2] by (auto simp: areas_ok_def)
  from Cons.IH [OF this] obtain st' where "release_list (next_proc (pcbs st p)) st2 = Some st'" "only_mem st2 st'"
    by blast
  with st1 st2 Cons.prems show ?case
    by (subst release_list.simps) (auto simp: st2_def intro: only_mem_trans)
qed

lemma find_prev_eq:
  "lseg (pcbs st) p (p # zs) (curr_process st) \<Longrightarrow> curr_process st \<noteq> 0 \<Longrightarrow>
     \<forall>z \<in> set zs. pid (pcbs st z) \<noteq> pid (pcbs st (curr_process st)) \<Longrightarrow> find_prev p st = Some (last (p # zs))"
proof (induction zs arbitrary: p)
  case Nil
  then show ?case by (subst find_prev.simps) (simp add: nxt_def)
next
  case (Cons z zs)
  then have "find_prev z st = Some (last (z # zs))" by auto
  with Cons.prems show ?case by (subst find_prev.simps) (auto simp: nxt_def)
qed

lemma kill_find_hit:
  "lseg (pcbs st) p (qs @ n # ys) r \<Longrightarrow> qs \<noteq> [] \<Longrightarrow> \<forall>q \<in> set qs. of_int (pid (pcbs st q)) \<noteq> target \<Longrightarrow>
     of_int (pid (pcbs st n)) = target \<Longrightarrow> first_process st \<notin> set (tl qs @ [n]) \<Longrightarrow>
     kill_find target prev p st = Some (last qs)"
proof (induction qs arbitrary: p prev)
  case (Cons q qs)
  have q: "p = q" "q \<noteq> 0" "lseg (pcbs st) (next_proc (pcbs st q)) (qs @ n # ys) r" using Cons.prems(1) by auto
  show ?case
  proof (cases "qs = []")
    case True
    with q have n: "next_proc (pcbs st q) = n" "n \<noteq> 0" by auto
    then have "kill_find target q n st = Some q"
      using Cons.prems by (subst kill_find.simps) (simp add: nxt_def)
    with q n True Cons.prems show ?thesis by (subst kill_find.simps) (auto simp: nxt_def)
  next
    case False
    then have "next_proc (pcbs st q) = hd qs" using q(3) by (cases qs) auto
    moreover have "hd qs \<noteq> first_process st" using Cons.prems(5) False by (cases qs) auto
    moreover have "first_process st \<notin> set (tl qs @ [n])" using Cons.prems(5) False by (cases qs) auto
    then have "kill_find target q (next_proc (pcbs st q)) st = Some (last qs)"
      using Cons.IH [OF q(3) False] Cons.prems by auto
    ultimately show ?thesis
      using q Cons.prems False by (subst kill_find.simps) (auto simp: nxt_def)
  qed
qed simp

lemma reparent_eq:
  "lseg (pcbs st) p (p # zs) v \<Longrightarrow> v \<notin> set (p # zs) \<Longrightarrow> distinct (p # zs) \<Longrightarrow>
     \<exists>st'. reparent target v p st = Some st' \<and>
       (\<exists>h. st' = st\<lparr>pcbs := h\<rparr> \<and>
         (\<forall>q. h q = (if q \<in> set (butlast (p # zs)) \<and> of_int (ppid (pcbs st q)) = target
                      then (pcbs st q)\<lparr>ppid := 1\<rparr> else pcbs st q)))"
proof (induction zs arbitrary: p st)
  case Nil
  then have "reparent target v p st = Some (st\<lparr>pcbs := pcbs st\<rparr>)" by (subst reparent.simps) (simp add: nxt_def)
  then show ?case by (intro exI [of _ st] conjI exI [of _ "pcbs st"]) simp_all
next
  case (Cons z zs)
  define st1 where "st1 = (if of_int (ppid (pcbs st p)) = target then upd_pcb p (\<lambda>p. p\<lparr>ppid := 1\<rparr>) st else st)"
  have h1: "pcbs st1 q = (if q = p \<and> of_int (ppid (pcbs st q)) = target then (pcbs st q)\<lparr>ppid := 1\<rparr> else pcbs st q)" for q
    by (auto simp: st1_def)
  have "lseg (pcbs st1) z (z # zs) v"
    using Cons.prems(1) by (subst lseg_cong [of _ _ "pcbs st"]) (auto simp: h1)
  moreover have "v \<notin> set (z # zs)" "distinct (z # zs)" using Cons.prems(2,3) by simp_all
  ultimately obtain st' h where st':
    "reparent target v z st1 = Some st'" "st' = st1\<lparr>pcbs := h\<rparr>"
    "\<forall>q. h q = (if q \<in> set (butlast (z # zs)) \<and> of_int (ppid (pcbs st1 q)) = target
                      then (pcbs st1 q)\<lparr>ppid := 1\<rparr> else pcbs st1 q)"
    using Cons.IH by blast
  have "reparent target v p st = Some st'"
    using Cons.prems st'(1) by (subst reparent.simps) (auto simp: nxt_def st1_def)
  moreover have "st' = st\<lparr>pcbs := h\<rparr>" using st'(2) by (simp add: st1_def upd_pcb_def)
  moreover have "p \<notin> set (butlast (z # zs))" using Cons.prems(3) by (auto dest: in_set_butlastD split: if_splits)
  then have "\<forall>q. h q = (if q \<in> set (butlast (p # z # zs)) \<and> of_int (ppid (pcbs st q)) = target
                      then (pcbs st q)\<lparr>ppid := 1\<rparr> else pcbs st q)"
    unfolding st'(3) [rule_format] h1 by simp
  ultimately show ?case by blast
qed

lemma last_of_eq: "lseg (pcbs st) p ss 0 \<Longrightarrow> last_of q p st = Some (if ss = [] then q else last ss)"
proof (induction ss arbitrary: p q)
  case Nil
  then show ?case by (subst last_of.simps) simp
next
  case (Cons s ss)
  then show ?case by (subst last_of.simps) auto
qed

lemma pid_rows_eq:
  "lseg (pcbs st) p (p # q # qs) (first_process st) \<Longrightarrow> first_process st \<notin> set (q # qs) \<Longrightarrow>
     pid_rows p st = Some (print (concat (map (\<lambda>p. pid_row (pcbs st p)) (p # q # qs))) st)"
proof (induction qs arbitrary: p q st)
  case Nil
  then have "pid_rows q (print (pid_row (pcbs st q)) (print (pid_row (pcbs st p)) st)) =
      Some (print (pid_row (pcbs st q)) (print (pid_row (pcbs st p)) st))"
    by (subst pid_rows.simps) (auto simp: nxt_def)
  with Nil show ?case by (subst pid_rows.simps) (auto simp: nxt_def print_def)
next
  case (Cons r qs)
  let ?st = "print (pid_row (pcbs st p)) st"
  have "pid_rows q ?st = Some (print (concat (map (\<lambda>p. pid_row (pcbs ?st p)) (q # r # qs))) ?st)"
    using Cons.prems by (intro Cons.IH) auto
  with Cons.prems show ?case by (subst pid_rows.simps) (auto simp: nxt_def print_def)
qed

lemma exit_to_eq:
  "v \<noteq> 0 \<Longrightarrow> \<exists>st'. exit_to a sp v st = Some st' \<and>
     (\<forall>q. next_proc (pcbs st' q) = next_proc (pcbs st q) \<and> (q \<noteq> v \<longrightarrow> state (pcbs st' q) = state (pcbs st q))) \<and>
     curr_process st' = v \<and> reg_cr3 st' = cr3 (pcbs st v) \<and> stopped_process st' = stopped_process st \<and>
     forked_process st' = forked_process st"
  by (cases "pid (pcbs st v) = 1")
    (simp_all add: exit_to_def user_switchBack_def user_switchTask_def set_tss_rsp_def print_def wr_def
      memset_page_def nxt_def upd_pcb_def Let_def)

lemma ring_remove:
  assumes "ring h (xs @ n # ys)" "xs \<noteq> []"
    and "\<And>q. q \<in> set (xs @ ys) \<Longrightarrow> next_proc (g q) = (if q = last xs then next_proc (h n) else next_proc (h q))"
  shows "ring g (xs @ ys)"
proof -
  note parts = ring_split [OF assms(1,2)]
  have "lseg g (hd xs) xs (next_proc (h n))"
    by (rule lseg_redirect [OF parts(1) assms(2)]) (use parts(5) assms(3) in auto)
  moreover have "last xs \<notin> set ys" using parts(5) last_in_set [OF assms(2)] by auto
  then have "lseg g (next_proc (h n)) ys (hd xs) \<longleftrightarrow> lseg h (next_proc (h n)) ys (hd xs)"
    using assms(3) by (intro lseg_cong) auto
  ultimately show ?thesis
    using parts(2,5) assms(2) by (auto simp: ring_def lseg_append)
qed

section \<open>Properties\<close>

text \<open>32 process identifiers can be given out, 1 to 32; every later request returns -1, although the map has 64 bits.\<close>

theorem only_32_pids:
  "snd (next_pids n (bare_kernel p)) = map (\<lambda>i. if i < 32 then int i + 1 else -1) [0..<n]"
  using next_pids_eq [of "bare_kernel p" 0 n] by (simp add: pid_map_def)

text \<open>C16: When a process that is not the first exits, the ring of processes is cut: it keeps those from the first to the one before the exiting process and drops every process after it. The one before becomes current with its address space, the exiting process is alone on the list of stopped ones and the list of replaced ones is empty.\<close>

theorem sys_exit_ring:
  assumes ring: "ring (pcbs st) (xs @ c # ys)" "xs \<noteq> []" "hd xs = first_process st" "curr_process st = c"
    and pids: "\<forall>p \<in> set (xs @ ys). pid (pcbs st p) \<noteq> pid (pcbs st c)"
    and stopped: "lseg (pcbs st) (stopped_process st) ss 0" "\<forall>p \<in> set ss. areas_ok st p" "set ss \<inter> set (xs @ c # ys) = {}"
    and forked: "lseg (pcbs st) (forked_process st) fs 0" "\<forall>p \<in> set fs. areas_ok st p" "set fs \<inter> set (xs @ c # ys) = {}"
  shows "\<exists>st'. sys_exit a sp st = Some st' \<and> ring (pcbs st') xs \<and> curr_process st' = last xs \<and>
    reg_cr3 st' = cr3 (pcbs st (last xs)) \<and> stopped_process st' = c \<and> next_proc (pcbs st' c) = 0 \<and>
    state (pcbs st' c) = TASK_STOPPED \<and> forked_process st' = 0"
proof -
  define v where "v = last xs"
  note parts = ring_split [OF ring(1,2)]
  have "v \<in> set xs" using ring(2) by (simp add: v_def)
  then have v: "v \<in> set xs" "v \<noteq> c" "v \<noteq> 0" using parts(5) lseg_not_0 [OF parts(1)] by auto
  define st1 where "st1 = upd_pcb c (\<lambda>p. p\<lparr>state := TASK_STOPPED\<rparr>) st"
  have "find_prev c st1 = Some (last (c # ys @ xs))"
    by (rule find_prev_eq) (use parts pids ring in \<open>auto simp: st1_def lseg_cong [of _ "(pcbs st)(c := (pcbs st c)\<lparr>state := TASK_STOPPED\<rparr>)" "pcbs st"]\<close>)
  then have fp: "find_prev c st1 = Some v" using ring(2) by (simp add: v_def)
  define st2 where "st2 = upd_pcb v (\<lambda>p. p\<lparr>next_proc := first_process st\<rparr>) st1"
  have out2: "pcbs st2 p = pcbs st p" if "p \<notin> set (xs @ c # ys)" for p
    using that v(1) by (auto simp: st2_def st1_def)
  have ok2: "areas_ok st2 p \<longleftrightarrow> areas_ok st p" for p
    by (simp add: areas_ok_def st2_def st1_def)
  have stop2: "stopped_process st2 = stopped_process st" by (simp add: st2_def st1_def)
  moreover have "pcbs st2 p = pcbs st p" if "p \<in> set ss" for p
    using that stopped(3) by (intro out2) blast
  ultimately have "lseg (pcbs st2) (stopped_process st2) ss 0"
    using stopped(1) lseg_cong [of ss "pcbs st2" "pcbs st"] by simp
  then obtain st3 where st3: "release_list (stopped_process st2) st2 = Some st3" "only_mem st2 st3"
    using release_list_only_mem [of st2] stopped(2) ok2 by blast
  define st4 where "st4 = upd_pcb c (\<lambda>p. p\<lparr>next_proc := 0\<rparr>) (st3\<lparr>stopped_process := c\<rparr>)"
  have h4: "pcbs st4 = (pcbs st2)(c := (pcbs st2 c)\<lparr>next_proc := 0\<rparr>)"
    "forked_process st4 = forked_process st" "stopped_process st4 = c" "mms st4 = mms st" "vmas st4 = vmas st"
    using only_memD [OF st3(2)] by (simp_all add: st4_def st2_def st1_def)
  have same4: "pcbs st4 p = pcbs st p" if "p \<in> set fs" for p
  proof -
    have "p \<notin> set (xs @ c # ys)" using that forked(3) by blast
    with out2 [OF this] show ?thesis by (simp add: h4(1))
  qed
  then have "lseg (pcbs st4) (forked_process st4) fs 0"
    using forked(1) lseg_cong [of fs "pcbs st4" "pcbs st"] h4(2) by simp
  moreover have "\<forall>p \<in> set fs. areas_ok st4 p"
    using forked(2) same4 by (simp add: areas_ok_def h4(4,5))
  ultimately obtain st5 where st5: "release_list (forked_process st4) st4 = Some st5" "only_mem st4 st5"
    using release_list_only_mem by blast
  have h5: "pcbs st5 = pcbs st4" "stopped_process st5 = c" using only_memD [OF st5(2)] h4 by simp_all
  define h where "h = pcbs st5"
  have hv: "h v = (pcbs st v)\<lparr>next_proc := first_process st\<rparr>" "next_proc (h c) = 0" "state (h c) = TASK_STOPPED"
    and ho: "\<And>q. q \<noteq> v \<Longrightarrow> q \<noteq> c \<Longrightarrow> h q = pcbs st q"
    using v(2) by (simp_all add: h_def h5 h4 st2_def st1_def)
  have rg: "ring g xs" if "\<And>q. next_proc (g q) = next_proc (h q)" for g
  proof (rule ring_redirect [OF parts(1) ring(2)])
    show "distinct xs" using parts(5) by simp
    fix q assume "q \<in> set xs"
    then have "q \<noteq> c" using parts(5) by auto
    then show "next_proc (g q) = (if q = last xs then hd xs else next_proc (pcbs st q))"
      using that hv ho ring(3) by (auto simp: v_def)
  qed
  have fork4: "forked_process st3 = forked_process st4" by (simp add: st4_def)
  define st6 where "st6 = fst (allocate_virt_page (st5\<lparr>forked_process := 0, reg_cr3 := cr3 (pcbs st5 c)\<rparr>))"
  have s6: "pcbs st6 = h" "stopped_process st6 = c" "forked_process st6 = 0" "st6\<lparr>out := out st6\<rparr> = st6"
    using h5(2) by (simp_all add: st6_def allocate_virt_page_def h_def Let_def)
  have "sys_exit a sp st = exit_to a sp v st6"
    using fp st3(1) [unfolded stop2] st5(1) [unfolded fork4 [symmetric]] ring(4)
    by (simp add: sys_exit_def st1_def [symmetric] st2_def [symmetric] st4_def [symmetric] Let_def)
      (simp add: st6_def split_def print_def)
  moreover obtain st' where "exit_to a sp v st6 = Some st'"
    "\<And>q. next_proc (pcbs st' q) = next_proc (h q)" "\<And>q. q \<noteq> v \<Longrightarrow> state (pcbs st' q) = state (h q)"
    "curr_process st' = v" "reg_cr3 st' = cr3 (h v)" "stopped_process st' = c" "forked_process st' = 0"
    using exit_to_eq [OF v(3), of a sp st6] s6 by auto
  ultimately show ?thesis
    using rg [of "pcbs st'"] hv v(2) by (auto simp: v_def [symmetric])
qed

text \<open>Three processes: the kernel's, the shell and a child of the shell.\<close>

definition demo_procs :: "kernel" where
  "demo_procs = (bare_kernel demo)
     \<lparr>pcbs := (\<lambda>_. null_pcb)(0x10 := null_pcb\<lparr>pid := 1, next_proc := 0x20, state := TASK_READY\<rparr>,
        0x20 := null_pcb\<lparr>pid := 2, ppid := 1, next_proc := 0x30, state := TASK_RUNNING\<rparr>,
        0x30 := null_pcb\<lparr>pid := 3, ppid := 2, next_proc := 0x10, state := TASK_READY\<rparr>),
      first_process := 0x10, curr_process := 0x20\<rparr>"

lemma demo_procs_simps [simp]:
  "pcbs demo_procs 0x10 = null_pcb\<lparr>pid := 1, next_proc := 0x20, state := TASK_READY\<rparr>"
  "pcbs demo_procs 0x20 = null_pcb\<lparr>pid := 2, ppid := 1, next_proc := 0x30, state := TASK_RUNNING\<rparr>"
  "pcbs demo_procs 0x30 = null_pcb\<lparr>pid := 3, ppid := 2, next_proc := 0x10, state := TASK_READY\<rparr>"
  "first_process demo_procs = 0x10" "curr_process demo_procs = 0x20" "stopped_process demo_procs = 0"
  "forked_process demo_procs = 0"
  by (simp_all add: demo_procs_def bare_kernel_def)

lemma demo_ring: "ring (pcbs demo_procs) [0x10, 0x20, 0x30]"
  by (simp add: ring_def)

text \<open>Here the shell exits, and its child is lost.\<close>

theorem sys_exit_ring_witness:
  "\<exists>st'. sys_exit 0 0 demo_procs = Some st' \<and> ring (pcbs st') [0x10] \<and> curr_process st' = 0x10"
proof -
  have "ring (pcbs demo_procs) ([0x10] @ 0x20 # [0x30])" using demo_ring by simp
  from sys_exit_ring [OF this, of "[]" "[]" 0 0] show ?thesis by auto
qed

text \<open>C15: Killing a process of the ring that is neither the first nor the current one removes exactly that process, keeps the order of the others, and puts it at the end of the list of stopped processes. Its children become children of process 1, unless the child is the process just before it in the ring.\<close>

theorem kill_ring:
  assumes ring: "ring (pcbs st) (xs @ n # ys)" "xs \<noteq> []" "hd xs = first_process st"
    and target: "of_int (pid (pcbs st n)) = target" "of_int (pid (pcbs st (curr_process st))) \<noteq> target"
    and pids: "\<forall>p \<in> set xs. of_int (pid (pcbs st p)) \<noteq> target"
    and stopped: "lseg (pcbs st) (stopped_process st) ss 0" "distinct ss" "set ss \<inter> set (xs @ n # ys) = {}"
  shows "\<exists>st'. kill a sp target st = Some st' \<and> ring (pcbs st') (xs @ ys) \<and>
    lseg (pcbs st') (stopped_process st') (ss @ [n]) 0 \<and>
    (\<forall>p \<in> set (ys @ butlast xs).
       ppid (pcbs st' p) = (if of_int (ppid (pcbs st p)) = target then 1 else ppid (pcbs st p))) \<and>
    ppid (pcbs st' (last xs)) = ppid (pcbs st (last xs))"
proof -
  define v where "v = last xs"
  note parts = ring_split [OF ring(1,2)]
  have "v \<in> set xs" using ring(2) by (simp add: v_def)
  then have v: "v \<in> set xs" "v \<noteq> n" "v \<noteq> 0" "v \<notin> set ys" "v \<notin> set ss"
    using parts(5) lseg_not_0 [OF parts(1)] stopped(3) by auto
  have nv: "next_proc (pcbs st v) = n" unfolding v_def by (rule next_last [OF parts(1) ring(2)])
  have "kill_find target 0 (first_process st) st = Some v"
    unfolding v_def
  proof (rule kill_find_hit [OF _ ring(2) pids target(1)])
    show "lseg (pcbs st) (first_process st) (xs @ n # ys) (hd xs)"
      using ring(1,2,3) by (simp add: ring_def)
    show "first_process st \<notin> set (tl xs @ [n])"
      using parts(5) ring(2,3) by (cases xs) auto
  qed
  note found = this
  obtain p zs where pz: "ys @ xs = p # zs" using ring(2) by (cases "ys @ xs") auto
  have seg: "lseg (pcbs st) (next_proc (pcbs st n)) (p # zs) n"
    using parts(4) pz by simp
  then have p: "next_proc (pcbs st n) = p" by simp
  have bl: "butlast (p # zs) = ys @ butlast xs" unfolding pz [symmetric] using ring(2) by (simp add: butlast_append)
  have "n \<notin> set (p # zs)" "distinct (p # zs)" unfolding pz [symmetric] using parts(5) by auto
  from reparent_eq [OF seg [unfolded p] this, of target] obtain h where
    rp: "reparent target n p st = Some (st\<lparr>pcbs := h\<rparr>)" and
    h: "\<And>q. h q = (if q \<in> set (ys @ butlast xs) \<and> of_int (ppid (pcbs st q)) = target
                      then (pcbs st q)\<lparr>ppid := 1\<rparr> else pcbs st q)"
    unfolding bl by blast
  have hn: "next_proc (h q) = next_proc (pcbs st q)" for q by (simp add: h)
  define g where "g = (if ss = [] then (h(v := (h v)\<lparr>next_proc := p\<rparr>))(n := (h n)\<lparr>next_proc := 0\<rparr>)
    else (h(last ss := (h (last ss))\<lparr>next_proc := n\<rparr>, v := (h v)\<lparr>next_proc := p\<rparr>))(n := (h n)\<lparr>next_proc := 0\<rparr>))"
  define s where "s = (if ss = [] then n else stopped_process st)"
  have stopped0: "stopped_process st = 0 \<longleftrightarrow> ss = []" using stopped(1) by (cases ss) auto
  have ls: "ss \<noteq> [] \<Longrightarrow> last ss \<noteq> v \<and> last ss \<noteq> n \<and> last ss \<noteq> 0 \<and> last ss \<notin> set (xs @ ys)"
  proof -
    assume "ss \<noteq> []"
    then have "last ss \<in> set ss" by simp
    then show ?thesis using stopped(3) v(5) lseg_not_0 [OF stopped(1)] by auto
  qed
  have lo: "last_of (stopped_process st) (stopped_process st) (st\<lparr>pcbs := h\<rparr>) =
      Some (if ss = [] then stopped_process st else last ss)"
    by (rule last_of_eq) (use stopped(1) hn lseg_cong [of ss h "pcbs st"] in simp)
  have "\<exists>st'. kill a sp target st = Some st' \<and> pcbs st' = g \<and> stopped_process st' = s"
    using target found rp lo v parts(3) nv p hn ls
    by (auto simp: kill_def nxt_def g_def s_def stopped0 upd_pcb_def print_def Let_def)
  moreover have "ring g (xs @ ys)"
  proof (rule ring_remove [OF ring(1,2)])
    fix q assume q: "q \<in> set (xs @ ys)"
    then have "q \<noteq> n" "ss \<noteq> [] \<Longrightarrow> q \<noteq> last ss" using parts(5) ls by auto
    then show "next_proc (g q) = (if q = last xs then next_proc (pcbs st n) else next_proc (pcbs st q))"
      using v(2) p hn by (simp add: g_def v_def)
  qed
  moreover have "lseg g s (ss @ [n]) 0"
  proof (cases "ss = []")
    case True
    then show ?thesis using parts(3) by (simp add: s_def g_def)
  next
    case False
    have "lseg g s ss n"
    proof (rule lseg_redirect [OF _ False stopped(2)])
      show "lseg (pcbs st) s ss 0" using False stopped(1) by (simp add: s_def)
      fix q assume q: "q \<in> set ss"
      then have "q \<noteq> n" "q \<noteq> v" using stopped(3) v(1) by auto
      then show "next_proc (g q) = (if q = last ss then n else next_proc (pcbs st q))"
        using False hn ls by (simp add: g_def)
    qed
    then show ?thesis using parts(3) by (auto simp: lseg_append g_def)
  qed
  moreover have "ppid (g q) = ppid (h q)" for q by (simp add: g_def)
  then have "\<forall>q. ppid (g q) = (if q \<in> set (ys @ butlast xs) \<and> of_int (ppid (pcbs st q)) = target then 1 else ppid (pcbs st q))"
    by (simp add: h)
  moreover have "last xs \<notin> set (ys @ butlast xs)"
    using v(4) parts(5) append_butlast_last_id [OF ring(2)]
    by (metis Un_iff distinct_append not_distinct_conv_prefix set_append v_def)
  ultimately show ?thesis by force
qed

theorem kill_ring_witness:
  "\<exists>st'. kill 0 0 3 demo_procs = Some st' \<and> ring (pcbs st') [0x10, 0x20] \<and>
     lseg (pcbs st') (stopped_process st') [0x30] 0"
proof -
  have "ring (pcbs demo_procs) ([0x10, 0x20] @ 0x30 # [])" using demo_ring by simp
  from kill_ring [OF this, of 3 "[]" 0 0] show ?thesis by (auto simp: null_pcb_def)
qed

text \<open>\<open>wait\<close> rotates the ring by one: the next process becomes current and running, the caller stays in the ring as ready. The address space is switched only when the next process is the one waited for; otherwise the next process is current with the caller's address space loaded.\<close>

theorem wait_rotates:
  assumes ring: "ring (pcbs st) (c # n # zs)" and c: "curr_process st = c"
  shows "\<exists>st'. wait sp w st = Some (st', of_int (pid (pcbs st n)) = w) \<and> ring (pcbs st') (n # zs @ [c]) \<and>
    curr_process st' = n \<and> state (pcbs st' n) = TASK_RUNNING \<and> state (pcbs st' c) = TASK_READY \<and>
    reg_cr3 st' = (if of_int (pid (pcbs st n)) = w then cr3 (pcbs st n) else reg_cr3 st)"
proof -
  have n: "next_proc (pcbs st c) = n" "c \<noteq> 0" "n \<noteq> 0" "c \<noteq> n" and l: "lseg (pcbs st) n (n # zs) c"
    and d: "distinct (n # zs @ [c])"
    using ring by (auto simp: ring_def)
  have rg: "ring h (n # zs @ [c])" if "\<And>q. next_proc (h q) = next_proc (pcbs st q)" for h
    using l n d that lseg_cong [of "n # zs @ [c]" h "pcbs st"] by (auto simp: ring_def lseg_append)
  show ?thesis
    using n c by (simp add: wait_def nxt_def set_tss_rsp_def upd_pcb_def Let_def rg)
qed

theorem wait_rotates_witness:
  "\<exists>st'. wait 0 9 (demo_procs\<lparr>curr_process := 0x10\<rparr>) = Some (st', False) \<and> ring (pcbs st') [0x20, 0x30, 0x10] \<and>
     curr_process st' = 0x20"
proof -
  have "ring (pcbs (demo_procs\<lparr>curr_process := 0x10\<rparr>)) (0x10 # 0x20 # [0x30])" using demo_ring by simp
  from wait_rotates [OF this, of 0 9] show ?thesis by force
qed

text \<open>\<open>print_allPID\<close> returns and prints, after its header, one row for every process of the ring, in ring order; with a single process it prints no row.\<close>

theorem print_allPID_rows:
  assumes "ring (pcbs st) ps" and "hd ps = first_process st"
  shows "print_allPID st = Some (st\<lparr>out := out st @ pid_header @
    (if length ps = 1 then [] else concat (map (\<lambda>p. pid_row (pcbs st p)) ps))\<rparr>)"
proof (cases ps)
  case (Cons p qs)
  have l: "lseg (pcbs (print pid_header st)) p ps (first_process (print pid_header st))" "distinct ps" "p \<noteq> 0"
    using assms Cons by (auto simp: ring_def)
  show ?thesis
  proof (cases qs)
    case Nil
    with l Cons have "pid_rows p (print pid_header st) = Some (print pid_header st)"
      by (subst pid_rows.simps) (simp add: nxt_def)
    then show ?thesis using assms Cons Nil by (auto simp: print_allPID_def print_def)
  next
    case (Cons q rs)
    have "first_process (print pid_header st) \<notin> set (q # rs)"
      using l(2) assms(2) \<open>ps = p # qs\<close> Cons by auto
    from pid_rows_eq [OF l(1) [unfolded \<open>ps = p # qs\<close> Cons] this] show ?thesis
      using assms \<open>ps = p # qs\<close> Cons by (auto simp: print_allPID_def print_def)
  qed
qed (use assms in \<open>simp add: ring_def\<close>)

theorem print_allPID_rows_witness:
  "print_allPID demo_procs = Some (demo_procs\<lparr>out := out demo_procs @ pid_header @
     concat (map (\<lambda>p. pid_row (pcbs demo_procs p)) [0x10, 0x20, 0x30])\<rparr>)"
  using print_allPID_rows [OF demo_ring] by (simp del: demo_procs_simps(1-3))

end
