(* ===== verification/Tarfs.thy ===== *)
theory Tarfs
  imports Process
begin

text \<open>
  The read-only file system, \<^verbatim>\<open>sys/tarfs.c\<close>: the table of files built from the archive linked
  into the kernel (\<open>init_tarfs\<close>), opening, reading and listing files, and the current directory
  of a process. The archive and the buffers of user programs are bytes of memory; the \<^verbatim>\<open>char\<close>
  arrays of the table and of a process are lists, and an access outside one is \<open>None\<close>.
\<close>

unbundle bit_operations_syntax

section \<open>Definitions\<close>

abbreviation (input) TARFS_HEADER :: int where "TARFS_HEADER \<equiv> 512"
abbreviation (input) DIRECTORY :: u64 where "DIRECTORY \<equiv> 5"
abbreviation (input) slash :: u8 where "slash \<equiv> 47"
abbreviation (input) dot :: u8 where "dot \<equiv> 46"

definition ROOT :: "u8 list" where
  "ROOT = [114, 111, 111, 116, 102, 115, 47]"

text \<open>
  The loops over the table: the counter \<^verbatim>\<open>iterator\<close> is \<open>i + 3\<close>, and the loop ends at a
  bound. The result is the first entry that satisfies the test, if any.
\<close>

function search :: "(tarfile \<Rightarrow> bool) \<Rightarrow> cint \<Rightarrow> tarfile list \<Rightarrow> nat \<Rightarrow> nat option option" where
  "search P bound ts i =
     (if int i + 3 < bound then
        if length ts \<le> i then None
        else if P (ts ! i) then Some (Some i)
        else search P bound ts (Suc i)
      else Some None)"
  by pat_completeness auto
termination
  by (relation "measure (\<lambda>(P, b, ts, i). length ts - i)") auto

declare search.simps [simp del]

definition is_file_exist :: "u8 list \<Rightarrow> kernel \<Rightarrow> u64 option" where
  "is_file_exist filename st = do {
     r \<leftarrow> search (\<lambda>t. t_name t = filename) (file_count st) (global_tarfs st) 0;
     Some (case r of Some i \<Rightarrow> t_addr (global_tarfs st ! i) | None \<Rightarrow> 0)
   }"

text \<open>
  The scan of \<open>get_parent_inode\<close> for a slash, from the last byte down. It gives up when it gets
  to the first byte, and runs out of a string of one byte.
\<close>

fun slash_scan :: "u8 list \<Rightarrow> nat \<Rightarrow> nat option option" where
  "slash_scan file 0 = (if file ! 0 = slash then Some (Some 0) else None)"
| "slash_scan file (Suc k) =
     (if file ! Suc k = slash then Some (Some (Suc k))
      else if k = 0 then Some None
      else slash_scan file k)"

definition get_parent_inode :: "u8 list \<Rightarrow> kernel \<Rightarrow> cint option" where
  "get_parent_inode file st =
     (if file = [] \<or> \<not> fits 100 file then None
      else do {
        r \<leftarrow> slash_scan file (length file - 1);
        case r of
          None \<Rightarrow> Some (-1)
        | Some len \<Rightarrow> do {
            let temp_filename = take (Suc len) file;
            r \<leftarrow> search (\<lambda>t. temp_filename = t_name t) (file_count st) (global_tarfs st) 0;
            Some (case r of Some i \<Rightarrow> int i + 3 + 1 | None \<Rightarrow> -1)
          }
      })"

text \<open>The bytes of a string in memory.\<close>

partial_function (option) read_string :: "mem \<Rightarrow> u64 \<Rightarrow> u8 list option" where
  "read_string m p = (if m p = 0 then Some [] else Option.bind (read_string m (p + 1)) (\<lambda>s. Some (m p # s)))"

definition upd_file :: "nat \<Rightarrow> (tarfile \<Rightarrow> tarfile) \<Rightarrow> kernel \<Rightarrow> kernel" where
  "upd_file i f st = st\<lparr>global_tarfs := (global_tarfs st)[i := f (global_tarfs st ! i)]\<rparr>"

definition next_offset :: "cint \<Rightarrow> cint \<Rightarrow> cint" where
  "next_offset sz offset =
     (if sz = 0 then i32 (offset + TARFS_HEADER)
      else if sz smod TARFS_HEADER = 0 then i32 (offset + i32 (sz + TARFS_HEADER))
      else i32 (offset + i32 (i32 (i32 (sz sdiv TARFS_HEADER + 1) * TARFS_HEADER) + TARFS_HEADER)))"

text \<open>
  \<open>init_tarfs\<close>: the fields of a header are read as strings at their offsets, name at 0, size at
  124, type at 156. \<open>base\<close> is \<^verbatim>\<open>&_binary_tarfs_start\<close>; \<open>strlen\<close> writes into the archive.
\<close>

partial_function (option) init_loop_tarfs ::
  "u64 \<Rightarrow> u64 \<Rightarrow> nat \<Rightarrow> cint \<Rightarrow> mem \<Rightarrow> kernel \<Rightarrow> (mem \<times> kernel) option" where
  "init_loop_tarfs nul base index offset m st = do {
     let tarfs_iter = base + of_int offset;
     (m, len) \<leftarrow> strlen nul tarfs_iter m;
     if len = 0 then Some (m, st)
     else do {
       v \<leftarrow> atoi m (tarfs_iter + 124);
       sz \<leftarrow> octtodec v;
       nm \<leftarrow> read_string m tarfs_iter;
       if \<not> fits 100 nm \<or> length (global_tarfs st) \<le> index then None
       else do {
         let st = upd_file index (\<lambda>t. t\<lparr>t_name := nm\<rparr>) st;
         let st = upd_file index (\<lambda>t. t\<lparr>t_size := of_int sz\<rparr>) st;
         int_val \<leftarrow> atoi m (tarfs_iter + 156);
         let st = upd_file index (\<lambda>t. t\<lparr>t_type := of_int int_val\<rparr>) st;
         int_val \<leftarrow> get_parent_inode nm st;
         let st = upd_file index (\<lambda>t. t\<lparr>p_inode := if int_val = -1 then 0 else of_int int_val\<rparr>) st;
         let st = upd_file index (\<lambda>t. t\<lparr>t_addr := base + of_int offset + of_int TARFS_HEADER\<rparr>) st;
         let st = st\<lparr>file_count := i32 (file_count st + 1)\<rparr>;
         let st = upd_file index (\<lambda>t. t\<lparr>inode := of_int (file_count st)\<rparr>) st;
         init_loop_tarfs nul base (Suc index) (next_offset sz offset) m st
       }
     }
   }"

definition init_tarfs :: "u64 \<Rightarrow> u64 \<Rightarrow> mem \<Rightarrow> kernel \<Rightarrow> (mem \<times> kernel) option" where
  "init_tarfs nul base m st = init_loop_tarfs nul base 0 0 m st"

text \<open>Opening copies name, inodes, size and address into the next of the five slots of the process.\<close>

definition open_file :: "u8 list \<Rightarrow> kernel \<Rightarrow> (kernel \<times> cint) option" where
  "open_file filename st = do {
     let cur = curr_process st;
     let fdc = i32 (uint (fd_count (pcbs st cur)));
     r \<leftarrow> search (\<lambda>t. filename = t_name t) (file_count st) (global_tarfs st) 0;
     case r of
       None \<Rightarrow> Some (st, -1)
     | Some i \<Rightarrow>
         if fdc < 0 \<or> 5 \<le> fdc \<or> \<not> fits 100 filename then None
         else do {
           let f = global_tarfs st ! i;
           let t = (fd (pcbs st cur) ! nat fdc)\<lparr>t_name := filename, inode := inode f, p_inode := p_inode f,
                      t_size := t_size f, read_addr := t_addr f\<rparr>;
           let st = upd_pcb cur (\<lambda>p. p\<lparr>fd := (fd p)[nat fdc := t]\<rparr>) st;
           let st = upd_pcb cur (\<lambda>p. p\<lparr>fd_count := fd_count p + 1\<rparr>) st;
           Some (st, i32 (uint (inode f)))
         }
   }"

text \<open>\<^verbatim>\<open>memcpy(src, dst, n)\<close>, byte by byte from the front.\<close>

fun copy_bytes :: "u64 \<Rightarrow> u64 \<Rightarrow> nat \<Rightarrow> mem \<Rightarrow> mem" where
  "copy_bytes src dst 0 m = m"
| "copy_bytes src dst (Suc n) m = copy_bytes (src + 1) (dst + 1) n (m(dst := m src))"

text \<open>The loop that looks for the descriptor: its slot, if it is open.\<close>

function fd_search :: "cint \<Rightarrow> pcb \<Rightarrow> nat \<Rightarrow> nat option option" where
  "fd_search d p i =
     (if int i < i32 (uint (fd_count p)) then
        if 5 \<le> i then None
        else if of_int d = inode (fd p ! i) then Some (Some i)
        else fd_search d p (Suc i)
      else Some None)"
  by pat_completeness auto
termination
  by (relation "measure (\<lambda>(d, p, i). 5 - i)") auto

declare fd_search.simps [simp del]

text \<open>
  \<open>read\<close>: the file's position and the number of bytes to copy from it (a negative length would be a copy
  of nearly 4 GiB), and the copy.
\<close>

definition read_step :: "cint \<Rightarrow> cint \<Rightarrow> kernel \<Rightarrow> (kernel \<times> u64 \<times> cint) option" where
  "read_step d sz st = do {
     let cur = curr_process st;
     r \<leftarrow> fd_search d (pcbs st cur) 0;
     case r of
       None \<Rightarrow> Some (print (bytes ''File not opened for reading'' @ [10]) st, 0, 0)
     | Some i \<Rightarrow> do {
         let len = i32 (uint (t_size (fd (pcbs st cur) ! i)));
         let content = read_addr (fd (pcbs st cur) ! i);
         let len = (if sz < len then sz else len);
         let st = upd_pcb cur (\<lambda>p. p\<lparr>fd := (fd p)[i := (fd p ! i)\<lparr>read_addr := read_addr (fd p ! i) + of_int len\<rparr>]\<rparr>) st;
         if len < 0 then None else Some (st, content, len)
       }
   }"

definition read_file :: "cint \<Rightarrow> u64 \<Rightarrow> cint \<Rightarrow> mem \<Rightarrow> kernel \<Rightarrow> (mem \<times> kernel \<times> cint) option" where
  "read_file d buf sz m st = do {
     (st, content, len) \<leftarrow> read_step d sz st;
     Some (copy_bytes content buf (nat len) m, st, len)
   }"

definition close :: "cint \<Rightarrow> cint" where
  "close d = 1"

definition opendir :: "u8 list \<Rightarrow> kernel \<Rightarrow> u64 option" where
  "opendir filename st =
     (if length filename = 0 \<or> filename = [slash] then Some 0
      else do {
        r \<leftarrow> search (\<lambda>t. t_type t = DIRECTORY \<and> filename = t_name t) (file_count st) (global_tarfs st) 0;
        Some (case r of Some i \<Rightarrow> inode (global_tarfs st ! i) | None \<Rightarrow> 999)
      })"

text \<open>\<open>countslash\<close> with 1 accepts a name whose first slash is its last byte, with 2 a name without a slash.\<close>

fun countslash :: "u8 list \<Rightarrow> cint \<Rightarrow> u64" where
  "countslash [] i = 1"
| "countslash (c # s) i =
     (if i = 1 then if c = slash then if s = [] then 1 else 999 else countslash s i
      else if i = 2 then if c = slash then 999 else countslash s i
      else 1)"

definition listed :: "cint \<Rightarrow> tarfile \<Rightarrow> bool" where
  "listed d t =
     (if d = 0 then (if t_type t = DIRECTORY then countslash (t_name t) 1 else countslash (t_name t) 2) = 1
      else p_inode t = of_int d)"

function list_loop :: "cint \<Rightarrow> nat \<Rightarrow> kernel \<Rightarrow> kernel option" where
  "list_loop d i st =
     (if int i + 3 < file_count st then
        if length (global_tarfs st) \<le> i then None
        else list_loop d (Suc i)
               (if listed d (global_tarfs st ! i)
                then print (t_name (global_tarfs st ! i) @ replicate 5 32 @ [10]) st else st)
      else Some st)"
  by pat_completeness auto
termination
  by (relation "measure (\<lambda>(d, i, st). length (global_tarfs st) - i)") (auto simp: print_def)

declare list_loop.simps [simp del]

definition read_dir :: "cint \<Rightarrow> kernel \<Rightarrow> kernel option" where
  "read_dir d st = list_loop d 0 st"

section \<open>The current directory\<close>

text \<open>
  \<open>changedir\<close>: the first directory entry of the wanted name whose parent is the directory to
  search in. The copy of the parent's name after the root's may overflow its array.
\<close>

definition changedir :: "u8 list \<Rightarrow> kernel \<Rightarrow> (kernel \<times> cint) option" where
  "changedir filename st = do {
     let cur = curr_process st;
     let cd = curr_dir (pcbs st cur);
     let td = temp_curr_dir (pcbs st cur);
     r \<leftarrow> search (\<lambda>t. t_type t = DIRECTORY \<and> t_name t = filename \<and> \<not> fits 100 (ROOT @ fst (cut (t_name t) slash)))
          (file_count st + 1) (global_tarfs st) 0;
     if r \<noteq> None then None
     else do {
     r \<leftarrow> search (\<lambda>t. t_type t = DIRECTORY \<and> t_name t = filename \<and>
            (let (parent_name, ret) = cut (t_name t) slash; parent_name2 = ROOT @ parent_name
             in ROOT = cd \<and> ret = -1 \<or> parent_name2 = td))
          (file_count st + 1) (global_tarfs st) 0;
     case r of
       None \<Rightarrow> Some (st, 999)
     | Some i \<Rightarrow>
         if \<not> fits 50 (ROOT @ filename) then None
         else do {
           let st = upd_pcb cur (\<lambda>p. p\<lparr>curr_dir := ROOT\<rparr>) st;
           let st = upd_pcb cur (\<lambda>p. p\<lparr>curr_dir := curr_dir p @ filename\<rparr>) st;
           Some (upd_pcb cur (\<lambda>p. p\<lparr>temp_curr_dir := curr_dir p\<rparr>) st, 1)
         }
     }
   }"

text \<open>
  \<open>chdir\<close>: first what it does to the two directories of the process, the name of the wanted
  directory, and the flag that says the work is done; \<^verbatim>\<open>+7\<close> skips the root's name.
\<close>

definition skip_root :: "u8 list \<Rightarrow> u8 list option" where
  "skip_root s = (if length s < 7 then None else Some (drop 7 s))"

definition chdir_name :: "u8 list \<Rightarrow> pcb \<Rightarrow> (pcb \<times> u8 list \<times> bool) option" where
  "chdir_name dir p =
     (if hd dir = slash then
        if length dir = 1 then Some (p\<lparr>curr_dir := ROOT\<rparr>, [], True)
        else Some (p\<lparr>temp_curr_dir := ROOT\<rparr>, tl dir, False)
      else if 2 \<le> length dir \<and> dir ! 0 = dot \<and> dir ! 1 = dot then
        (let (td, rr) = cut (temp_curr_dir p) slash;
             p = p\<lparr>temp_curr_dir := td\<rparr>;
             p = (if rr = -1 then p\<lparr>temp_curr_dir := ROOT\<rparr> else p)
         in if length dir = 2 then Some (p\<lparr>curr_dir := temp_curr_dir p\<rparr>, [], True)
            else do {
              dirname \<leftarrow> skip_root (temp_curr_dir p);
              Some (p, dirname @ drop 3 dir, False)
            })
      else do {
        dirname \<leftarrow> skip_root (curr_dir p);
        Some (p, dirname @ (if 2 < length dir \<and> dir ! 0 = dot \<and> dir ! 1 = slash then drop 2 dir else dir), False)
      })"

definition no_dir_text :: "u8 list \<Rightarrow> u8 list" where
  "no_dir_text dir = bytes ''-sbush: cd: '' @ dir @ bytes '': No such file or directory'' @ [10]"

definition chdir :: "u8 list \<Rightarrow> kernel \<Rightarrow> kernel option" where
  "chdir dir st =
     (if dir = [] then Some st
      else do {
        (p, dirname, flag) \<leftarrow> chdir_name dir (pcbs st (curr_process st));
        let st = upd_pcb (curr_process st) (\<lambda>_. p) st;
        if flag then Some st
        else if \<not> fits 100 dirname \<or> dirname = [] then None
        else do {
          let dirname = (if last dirname \<noteq> slash then dirname @ [slash] else dirname);
          if \<not> fits 100 dirname then None
          else do {
            (st, ret) \<leftarrow> changedir dirname st;
            Some (if ret = 999 then print (no_dir_text dir) st else st)
          }
        }
      })"

definition getcwd :: "kernel \<Rightarrow> kernel" where
  "getcwd st = print ([60] @ curr_dir (pcbs st (curr_process st)) @ [62]) st"

definition get_cwd :: "u64 \<Rightarrow> mem \<Rightarrow> kernel \<Rightarrow> mem" where
  "get_cwd buf m st = write_bytes m buf (curr_dir (pcbs st (curr_process st)) @ [0, 0])"

section \<open>Searching the table\<close>

lemma search_hit:
  "i \<le> j \<Longrightarrow> int j + 3 < bound \<Longrightarrow> j < length ts \<Longrightarrow> P (ts ! j) \<Longrightarrow> \<forall>k. i \<le> k \<and> k < j \<longrightarrow> \<not> P (ts ! k) \<Longrightarrow>
     search P bound ts i = Some (Some j)"
proof (induction "j - i" arbitrary: i)
  case 0
  then show ?case by (subst search.simps) simp
next
  case (Suc n)
  then have "search P bound ts (Suc i) = Some (Some j)" by (intro Suc.hyps(1)) simp_all
  with Suc show ?case by (subst search.simps) simp
qed

lemma search_miss:
  "bound \<le> int (length ts) + 3 \<Longrightarrow> \<forall>k. i \<le> k \<and> int k + 3 < bound \<longrightarrow> \<not> P (ts ! k) \<Longrightarrow>
     search P bound ts i = Some None"
proof (induction "length ts - i" arbitrary: i)
  case 0
  then show ?case by (subst search.simps) simp
next
  case (Suc n)
  then have "search P bound ts (Suc i) = Some None" by (intro Suc.hyps(1)) simp_all
  with Suc show ?case by (subst search.simps) simp
qed

lemma search_first:
  assumes "j < length ts" "int j + 3 < bound" "P (ts ! j)"
  obtains k where "search P bound ts 0 = Some (Some k)" "k \<le> j" "P (ts ! k)" "\<forall>i<k. \<not> P (ts ! i)"
proof -
  define k where "k = (LEAST k. P (ts ! k))"
  have "P (ts ! k)" unfolding k_def by (rule LeastI [of _ j]) (rule assms(3))
  moreover have "k \<le> j" unfolding k_def by (rule Least_le) (rule assms(3))
  moreover have "\<forall>i<k. \<not> P (ts ! i)" unfolding k_def by (auto dest: not_less_Least)
  ultimately show thesis using assms by (intro that [of k] search_hit) auto
qed

section \<open>Directories\<close>

text \<open>A current directory is the root followed by nothing or by a path that ends in a slash.\<close>

definition dir_ok :: "u8 list \<Rightarrow> bool" where
  "dir_ok s \<longleftrightarrow> (\<exists>d. s = ROOT @ d \<and> (d = [] \<or> last d = slash)) \<and> 0 \<notin> set s \<and> fits 50 s"

definition dirs_ok :: "pcb \<Rightarrow> bool" where
  "dirs_ok p \<longleftrightarrow> dir_ok (curr_dir p) \<and> dir_ok (temp_curr_dir p)"

lemma ROOT_simps [simp]: "length ROOT = 7" "0 \<notin> set ROOT" "ROOT = [114, 111, 111, 116, 102, 115] @ [slash]"
  by (simp_all add: ROOT_def)

declare ROOT_simps(3) [simp del]

lemma dir_ok_ROOT [simp]: "dir_ok ROOT"
  by (simp add: dir_ok_def fits_def)

lemma dir_ok_append: "0 \<notin> set d \<Longrightarrow> d \<noteq> [] \<Longrightarrow> last d = slash \<Longrightarrow> fits 50 (ROOT @ d) \<Longrightarrow> dir_ok (ROOT @ d)"
  by (simp add: dir_ok_def)

definition up :: "u8 list \<Rightarrow> u8 list" where
  "up s = (if snd (cut s slash) = -1 then ROOT else fst (cut s slash))"

lemma up_root [simp]: "up ROOT = ROOT"
  using cut_single [of "[114, 111, 111, 116, 102, 115]" slash] by (simp add: up_def ROOT_simps(3))

text \<open>Going up undoes the last step down.\<close>

lemma up_step:
  assumes s: "s = ROOT @ d" "d = [] \<or> last d = slash" "0 \<notin> set d" "length d < 2 ^ 60"
    and x: "slash \<notin> set x" "0 \<notin> set x" "length x < 2 ^ 60"
  shows "up (s @ x @ [slash]) = s"
proof -
  define q where "q = butlast s"
  have "s \<noteq> []" "last s = slash" using s(1,2) by (auto simp: ROOT_def)
  then have q: "s = q @ [slash]" using append_butlast_last_id [of s] by (simp add: q_def)
  have "q \<noteq> []" using q s(1) by (auto simp: ROOT_def)
  moreover have "0 \<notin> set (q @ x)" using q s(1,3) x(2) by (auto simp: q_def ROOT_def dest: in_set_butlastD)
  moreover have "length q + length x < 2 ^ 63" using s(1,4) x(3) by (simp add: q_def)
  ultimately have "cut (q @ slash # x @ [slash]) slash = (q @ [slash], 0)"
    using x(1) by (simp add: cut_path)
  then show ?thesis by (simp add: up_def q)
qed

lemma up_ok: "dir_ok s \<Longrightarrow> dir_ok (up s)"
proof -
  assume ok: "dir_ok s"
  then obtain d where d: "s = ROOT @ d" "d = [] \<or> last d = slash" "0 \<notin> set d" "fits 50 s"
    by (auto simp: dir_ok_def)
  show ?thesis
  proof (cases "d = []")
    case True
    with d show ?thesis by simp
  next
    case False
    define d' where "d' = butlast d"
    have dd: "d = d' @ [slash]" using False d(2) append_butlast_last_id [of d] by (simp add: d'_def)
    obtain e x where ex: "d' = e @ x" "e = [] \<or> last e = slash" "slash \<notin> set x"
    proof (cases "slash \<in> set d'")
      case True
      then obtain ys zs where "d' = ys @ slash # zs" "slash \<notin> set zs" by (meson split_list_last)
      then show thesis by (intro that [of "ys @ [slash]" zs]) simp_all
    next
      case False
      then show thesis by (intro that [of "[]" d']) simp_all
    qed
    have "length d < 50" using d(1,4) by (simp add: fits_def)
    then have "up ((ROOT @ e) @ x @ [slash]) = ROOT @ e"
      using d(3) ex dd by (intro up_step) auto
    then have "up s = ROOT @ e" using d(1) dd ex(1) by simp
    then show ?thesis using d(3,4) d(1) dd ex by (auto simp: dir_ok_def fits_def)
  qed
qed

lemma fits_mono: "fits n s \<Longrightarrow> length t \<le> length s \<Longrightarrow> n \<le> n' \<Longrightarrow> fits n' t"
  by (simp add: fits_def)

lemma length_cut: "length (fst (cut s c)) \<le> length s"
  by (simp add: cut_def Let_def)

lemma upd_pcb_twice: "upd_pcb c g (upd_pcb c f st) = upd_pcb c (\<lambda>p. g (f p)) st"
  by (simp add: upd_pcb_def)

text \<open>What \<open>changedir\<close> does to the process.\<close>

lemma changedir_cases:
  assumes "changedir f st = Some (st', r)"
  obtains "st' = st" "r = 999"
  | "r = 1" "fits 50 (ROOT @ f)" "st' = upd_pcb (curr_process st) (\<lambda>p. p\<lparr>curr_dir := ROOT @ f, temp_curr_dir := ROOT @ f\<rparr>) st"
  using assms
  by (auto simp: changedir_def Let_def upd_pcb_twice split: Option.bind_splits option.splits if_splits)

lemma skip_root_ROOT [simp]: "skip_root (ROOT @ d) = Some d"
  by (simp add: skip_root_def)

text \<open>Only the two directories of a process change.\<close>

definition dirs_only :: "pcb \<Rightarrow> pcb \<Rightarrow> bool" where
  "dirs_only p p' \<longleftrightarrow> (\<exists>c t. p' = p\<lparr>curr_dir := c, temp_curr_dir := t\<rparr>)"

lemma dirs_only_refl [simp]: "dirs_only p p"
proof -
  have "p = p\<lparr>curr_dir := curr_dir p, temp_curr_dir := temp_curr_dir p\<rparr>" by simp
  then show ?thesis unfolding dirs_only_def by blast
qed

lemma dirs_only_upd:
  assumes "dirs_only p q"
  shows "dirs_only p (q\<lparr>curr_dir := c\<rparr>)" and "dirs_only p (q\<lparr>temp_curr_dir := t\<rparr>)"
proof -
  obtain c0 t0 where q: "q = p\<lparr>curr_dir := c0, temp_curr_dir := t0\<rparr>" using assms by (auto simp: dirs_only_def)
  have "q\<lparr>curr_dir := c\<rparr> = p\<lparr>curr_dir := c, temp_curr_dir := t0\<rparr>"
    "q\<lparr>temp_curr_dir := t\<rparr> = p\<lparr>curr_dir := c0, temp_curr_dir := t\<rparr>" by (simp_all add: q)
  then show "dirs_only p (q\<lparr>curr_dir := c\<rparr>)" "dirs_only p (q\<lparr>temp_curr_dir := t\<rparr>)"
    unfolding dirs_only_def by blast+
qed

lemma chdir_name_ok:
  assumes "dirs_ok p" "0 \<notin> set dir" "dir \<noteq> []" "chdir_name dir p = Some (p', f, flag)"
  shows "dirs_ok p' \<and> 0 \<notin> set f \<and> dirs_only p p'"
proof -
  obtain d where d: "curr_dir p = ROOT @ d" "0 \<notin> set d" using assms(1) by (auto simp: dirs_ok_def dir_ok_def)
  define t where "t = up (temp_curr_dir p)"
  have t: "dir_ok t" using assms(1) up_ok by (simp add: t_def dirs_ok_def)
  then obtain e where e: "t = ROOT @ e" "0 \<notin> set e" by (auto simp: dir_ok_def)
  define p1 where "p1 = p\<lparr>temp_curr_dir := t\<rparr>"
  have up: "(let (td, rr) = cut (temp_curr_dir p) slash; p = p\<lparr>temp_curr_dir := td\<rparr>
      in if rr = -1 then p\<lparr>temp_curr_dir := ROOT\<rparr> else p) = p1"
    by (simp add: p1_def t_def up_def split_def Let_def)
  consider "hd dir = slash" | "hd dir \<noteq> slash" "2 \<le> length dir \<and> dir ! 0 = dot \<and> dir ! 1 = dot"
    | "hd dir \<noteq> slash" "\<not> (2 \<le> length dir \<and> dir ! 0 = dot \<and> dir ! 1 = dot)" by blast
  then show ?thesis
  proof cases
    case 1
    have "chdir_name dir p = (if length dir = 1 then Some (p\<lparr>curr_dir := ROOT\<rparr>, [], True)
        else Some (p\<lparr>temp_curr_dir := ROOT\<rparr>, tl dir, False))"
      using 1 by (simp add: chdir_name_def)
    moreover have "dirs_ok (p\<lparr>curr_dir := ROOT\<rparr>)" "dirs_ok (p\<lparr>temp_curr_dir := ROOT\<rparr>)"
      using assms(1) by (simp_all add: dirs_ok_def)
    moreover have "0 \<notin> set (tl dir)" using assms(2,3) by (meson list.set_sel(2))
    ultimately show ?thesis using assms(4) by (auto simp: dirs_only_upd split: if_splits)
  next
    case 2
    then have "chdir_name dir p = (if length dir = 2 then Some (p1\<lparr>curr_dir := temp_curr_dir p1\<rparr>, [], True)
        else Some (p1, e @ drop 3 dir, False))"
      using up e(1) by (auto simp: chdir_name_def split_def Let_def p1_def)
    moreover have "dirs_ok p1" "dirs_ok (p1\<lparr>curr_dir := temp_curr_dir p1\<rparr>)"
      using assms(1) t by (simp_all add: p1_def dirs_ok_def)
    moreover have "dirs_only p p1" "dirs_only p (p1\<lparr>curr_dir := temp_curr_dir p1\<rparr>)"
      by (simp_all add: p1_def dirs_only_upd)
    moreover have "0 \<notin> set (e @ drop 3 dir)" using e(2) assms(2) by (auto dest: in_set_dropD)
    ultimately show ?thesis using assms(4) by (auto split: if_splits)
  next
    case 3
    then have "chdir_name dir p = Some (p, d @ (if 2 < length dir \<and> dir ! 0 = dot \<and> dir ! 1 = slash then drop 2 dir else dir), False)"
      using d(1) by (auto simp: chdir_name_def)
    moreover have "0 \<notin> set (d @ drop 2 dir)" "0 \<notin> set (d @ dir)"
      using d(2) assms(2) by (auto dest: in_set_dropD)
    ultimately show ?thesis using assms(1,4) by (auto split: if_splits)
  qed
qed

text \<open>A table that has room for one more entry, as after the start.\<close>

definition table_ok :: "kernel \<Rightarrow> bool" where
  "table_ok st \<longleftrightarrow> length (global_tarfs st) = 100 \<and> 3 \<le> file_count st \<and> file_count st < 103"

lemma no_overflow:
  assumes "table_ok st" "length f \<le> 91"
  shows "search (\<lambda>t. t_type t = DIRECTORY \<and> t_name t = f \<and> \<not> fits 100 (ROOT @ fst (cut (t_name t) slash)))
    (file_count st + 1) (global_tarfs st) 0 = Some None"
  using assms length_cut [of f slash] by (intro search_miss) (auto simp: table_ok_def fits_def)

lemma cut_child:
  assumes "0 \<notin> set d" "d = [] \<or> last d = slash \<and> hd d \<noteq> slash" "slash \<notin> set x" "0 \<notin> set x" "length (d @ x) < 2 ^ 63"
  shows "cut (d @ x @ [slash]) slash = (d, if d = [] then -1 else 0)"
proof (cases "d = []")
  case True
  then show ?thesis using cut_single [of x slash] assms by simp
next
  case False
  define q where "q = butlast d"
  have q: "d = q @ [slash]" using False assms(2) append_butlast_last_id [of d] by (simp add: q_def)
  moreover have "q \<noteq> []" using q False assms(2) by auto
  ultimately show ?thesis using assms cut_path [of q x slash] by simp
qed

lemma changedir_hit:
  assumes st: "table_ok st" "curr_process st = c" "curr_dir (pcbs st c) = ROOT @ d" "temp_curr_dir (pcbs st c) = ROOT @ d"
    and d: "0 \<notin> set d" "d = [] \<or> last d = slash \<and> hd d \<noteq> slash"
    and x: "slash \<notin> set x" "0 \<notin> set x" and n: "fits 50 (ROOT @ d @ x @ [slash])"
    and i: "int i + 3 < file_count st" "t_type (global_tarfs st ! i) = DIRECTORY" "t_name (global_tarfs st ! i) = d @ x @ [slash]"
  shows "changedir (d @ x @ [slash]) st =
    Some (upd_pcb c (\<lambda>p. p\<lparr>curr_dir := ROOT @ d @ x @ [slash], temp_curr_dir := ROOT @ d @ x @ [slash]\<rparr>) st, 1)"
proof -
  let ?f = "d @ x @ [slash]"
  let ?P = "\<lambda>t. t_type t = DIRECTORY \<and> t_name t = ?f \<and>
            (let (parent_name, ret) = cut (t_name t) slash; parent_name2 = ROOT @ parent_name
             in ROOT = curr_dir (pcbs st c) \<and> ret = -1 \<or> parent_name2 = temp_curr_dir (pcbs st c))"
  have len: "length ?f \<le> 91" using n by (simp add: fits_def)
  then have "cut ?f slash = (d, if d = [] then -1 else 0)" using d x by (intro cut_child) simp_all
  then have "?P (global_tarfs st ! i)" using i st by simp
  moreover have "i < length (global_tarfs st)" "int i + 3 < file_count st + 1" using i(1) st(1) by (simp_all add: table_ok_def)
  ultimately obtain k where "search ?P (file_count st + 1) (global_tarfs st) 0 = Some (Some k)"
    using search_first [of i "global_tarfs st" "file_count st + 1" ?P] by blast
  with no_overflow [OF st(1) len] n show ?thesis
    using st(2) by (simp add: changedir_def Let_def upd_pcb_twice)
qed

lemma changedir_miss:
  assumes "table_ok st" "length f \<le> 91" "snd (cut f slash) \<noteq> -1"
    and "ROOT @ fst (cut f slash) \<noteq> temp_curr_dir (pcbs st (curr_process st))"
  shows "changedir f st = Some (st, 999)"
proof -
  let ?P = "\<lambda>t. t_type t = DIRECTORY \<and> t_name t = f \<and>
            (let (parent_name, ret) = cut (t_name t) slash; parent_name2 = ROOT @ parent_name
             in ROOT = curr_dir (pcbs st (curr_process st)) \<and> ret = -1 \<or>
                parent_name2 = temp_curr_dir (pcbs st (curr_process st)))"
  have "search ?P (file_count st + 1) (global_tarfs st) 0 = Some None"
    by (rule search_miss) (use assms in \<open>auto simp: table_ok_def split_def\<close>)
  with no_overflow [OF assms(1,2)] show ?thesis
    by (simp add: changedir_def Let_def)
qed

section \<open>The archive\<close>

text \<open>
  An archive as its list of names, octal sizes and types: headers at multiples of 512 bytes, each
  followed by the blocks of its file, up to a header with an empty name.
\<close>

type_synonym entry = "u8 list \<times> u8 list \<times> u8"

definition step :: "nat \<Rightarrow> nat" where
  "step n = 512 + (n + 511) div 512 * 512"

fun archive :: "mem \<Rightarrow> u64 \<Rightarrow> nat \<Rightarrow> entry list \<Rightarrow> bool" where
  "archive m base off [] \<longleftrightarrow> m (base + of_nat off) = 0 \<and> off < 2 ^ 31"
| "archive m base off ((nm, sz, ty) # es) \<longleftrightarrow>
     c_string m (base + of_nat off) nm \<and> 2 \<le> length nm \<and> length nm \<le> 98 \<and> hd nm \<noteq> slash \<and>
     c_string m (base + of_nat (off + 124)) sz \<and> length sz \<le> 11 \<and> list_all is_digit sz \<and> dval 0 sz < 2 ^ 31 \<and>
     c_string m (base + of_nat (off + 156)) [ty] \<and> is_digit ty \<and>
     archive m base (off + step (oval sz)) es"

text \<open>The name of the directory an entry is in: everything up to the last slash.\<close>

definition parent_name :: "u8 list \<Rightarrow> u8 list" where
  "parent_name nm = rev (dropWhile (\<lambda>c. c \<noteq> slash) (rev nm))"

definition parent_inode :: "u8 list list \<Rightarrow> u8 list \<Rightarrow> nat" where
  "parent_inode names nm =
     (if parent_name nm \<in> set names then (LEAST i. names ! i = parent_name nm) + 4 else 0)"

text \<open>The table an archive describes.\<close>

fun table :: "u64 \<Rightarrow> nat \<Rightarrow> u8 list list \<Rightarrow> entry list \<Rightarrow> tarfile list" where
  "table base off names [] = []"
| "table base off names ((nm, sz, ty) # es) =
     null_tarfile\<lparr>t_name := nm, t_size := of_nat (oval sz), t_type := of_nat (unat ty - 48),
       p_inode := of_nat (parent_inode names nm), t_addr := base + of_nat off + 512,
       inode := of_nat (length names + 4)\<rparr>
     # table base (off + step (oval sz)) (names @ [nm]) es"

lemma archive_bound: "archive m base off es \<Longrightarrow> off < 2 ^ 31"
  by (induction m base off es rule: archive.induct) auto

lemma read_string_eq: "c_string m p s \<Longrightarrow> read_string m p = Some s"
proof (induction s arbitrary: p)
  case Nil
  then show ?case by (subst read_string.simps) simp
next
  case (Cons c cs)
  then show ?case by (subst read_string.simps) simp
qed

text \<open>The byte that \<open>strlen\<close> writes after a name is in no other field.\<close>

lemma c_string_keep:
  assumes "a < off \<or> off + length s < a" "a < 2 ^ 63" "off + length s < 2 ^ 63"
  shows "c_string (m(base + of_nat a := 0)) (base + of_nat off) s \<longleftrightarrow> c_string m (base + of_nat off) s"
proof (rule c_string_upd)
  fix j assume "j < Suc (length s)"
  then have "base + of_nat a \<noteq> base + of_nat (off + j)" using assms by (subst offset_inj) auto
  then show "base + of_nat a \<noteq> base + of_nat off + of_nat j" by (simp add: add.assoc)
qed

lemma archive_keep:
  "archive m base off es \<Longrightarrow> a < off \<Longrightarrow> archive (m(base + of_nat a := 0)) base off es"
proof (induction m base off es rule: archive.induct)
  case (1 m base off)
  then have "base + of_nat a \<noteq> base + of_nat off" by (subst offset_inj) auto
  with 1 show ?case by simp
next
  case (2 m base off nm sz ty es)
  have off: "off < 2 ^ 31" using archive_bound 2(2) by blast
  have len: "length nm \<le> 98" "length sz \<le> 11" using 2(2) by simp_all
  note keep = c_string_keep [where m = m and base = base and a = a]
  have "c_string (m(base + of_nat a := 0)) (base + of_nat off) nm = c_string m (base + of_nat off) nm"
    "c_string (m(base + of_nat a := 0)) (base + of_nat (off + 124)) sz = c_string m (base + of_nat (off + 124)) sz"
    "c_string (m(base + of_nat a := 0)) (base + of_nat (off + 156)) [ty] = c_string m (base + of_nat (off + 156)) [ty]"
    using off len 2(3) by (intro keep; simp)+
  moreover have "archive (m(base + of_nat a := 0)) base (off + step (oval sz)) es"
    by (rule 2(1)) (use 2(2,3) in simp_all)
  ultimately show ?case using 2(2) unfolding archive.simps by blast
qed

lemma next_offset_eq:
  assumes "off + step n < 2 ^ 31"
  shows "next_offset (int n) (int off) = int (off + step n)"
proof -
  have small: "in_i32 (int k)" if "k \<le> off + step n" for k
    using that assms by (intro in_i32_nat) simp
  have d: "int n sdiv 512 = int (n div 512)" "int n smod 512 = int (n mod 512)"
    by (simp_all add: signed_divide_int_def signed_modulo_int_def sgn_if zdiv_int zmod_int)
  consider "n = 0" | "n \<noteq> 0" "n mod 512 = 0" | "n mod 512 \<noteq> 0" by blast
  then show ?thesis
  proof cases
    case 1
    then show ?thesis using i32_id [OF small [of "off + 512"]] by (simp add: next_offset_def step_def)
  next
    case 2
    then obtain k where "n = 512 * k" by auto
    then have s: "step n = n + 512" by (simp add: step_def)
    then show ?thesis
      using 2 i32_id [OF small [of "n + 512"]] i32_id [OF small [of "off + (n + 512)"]]
      by (simp add: next_offset_def d)
  next
    case 3
    have "(n + 511) div 512 = n div 512 + 1"
    proof -
      have "n + 511 = n div 512 * 512 + (n mod 512 + 511)" by simp
      moreover have "(n mod 512 + 511) div 512 = 1" using 3 by (simp add: div_nat_eqI)
      ultimately show ?thesis by (simp only: div_mult_self4)
    qed
    then have s: "step n = (n div 512 + 1) * 512 + 512" by (simp add: step_def)
    have "i32 (int n sdiv 512 + 1) = int (n div 512 + 1)"
      unfolding d using i32_id [OF small [of "n div 512 + 1"]] s by (simp add: add.commute)
    moreover have "i32 (int (n div 512 + 1) * 512) = int ((n div 512 + 1) * 512)"
      using i32_id [OF small [of "(n div 512 + 1) * 512"]] s by simp
    moreover have "i32 (int ((n div 512 + 1) * 512) + 512) = int (step n)"
      using i32_id [OF small [of "step n"]] s by simp
    moreover have "i32 (int off + int (step n)) = int (off + step n)"
      using i32_id [OF small [of "off + step n"]] by simp
    moreover have "int n \<noteq> 0" using 3 by (cases "n = 0") simp_all
    ultimately show ?thesis using 3 d(2) by (simp add: next_offset_def)
  qed
qed

lemma parent_name_snoc: "parent_name (s @ [c]) = (if c = slash then s @ [c] else parent_name s)"
  by (simp add: parent_name_def)

lemma parent_name_take:
  "k < length nm \<Longrightarrow> nm ! k = slash \<Longrightarrow> parent_name (take (Suc k) nm) = take (Suc k) nm"
  by (simp add: take_Suc_conv_app_nth parent_name_snoc)

lemma slash_scan_eq:
  "k < length nm \<Longrightarrow> 1 \<le> k \<Longrightarrow> hd nm \<noteq> slash \<Longrightarrow>
     slash_scan nm k = Some (if slash \<in> set (take (Suc k) nm) then Some (length (parent_name (take (Suc k) nm)) - 1) else None)"
proof (induction k)
  case (Suc k)
  have t: "take (Suc (Suc k)) nm = take (Suc k) nm @ [nm ! Suc k]"
    using Suc.prems(1) by (rule take_Suc_conv_app_nth)
  show ?case
  proof (cases "nm ! Suc k = slash \<or> k = 0")
    case True
    have "nm \<noteq> []" using Suc.prems(1) by auto
    then have "k = 0 \<Longrightarrow> slash \<notin> set (take (Suc k) nm)"
      using Suc.prems(3) by (cases nm) auto
    with True show ?thesis using Suc.prems(1) by (auto simp: t parent_name_snoc)
  next
    case False
    with Suc show ?thesis by (auto simp: t parent_name_snoc)
  qed
qed simp

lemma parent_name_prefix:
  assumes "slash \<in> set nm"
  shows "take (length (parent_name nm)) nm = parent_name nm" and "parent_name nm \<noteq> []" and "length (parent_name nm) \<le> length nm"
proof -
  have e: "nm = parent_name nm @ rev (takeWhile (\<lambda>c. c \<noteq> slash) (rev nm))"
    unfolding parent_name_def by (metis rev_append rev_rev_ident takeWhile_dropWhile_id)
  then show "take (length (parent_name nm)) nm = parent_name nm" "length (parent_name nm) \<le> length nm"
    by (metis append_eq_conv_conj, metis le_add1 length_append)
  show "parent_name nm \<noteq> []" using assms by (auto simp: parent_name_def dropWhile_eq_Nil_conv)
qed

lemma parent_name_Nil: "slash \<notin> set nm \<Longrightarrow> parent_name nm = []"
  by (auto simp: parent_name_def dropWhile_eq_Nil_conv)

lemma get_parent_inode_eq:
  assumes nm: "2 \<le> length nm" "length nm \<le> 98" "hd nm \<noteq> slash"
    and st: "file_count st = int (length names) + 3" "length names \<le> length (global_tarfs st)"
    and ts: "\<forall>i < length names. t_name (global_tarfs st ! i) = names ! i" and ne: "[] \<notin> set names"
  shows "get_parent_inode nm st = Some (if parent_name nm \<in> set names then int (parent_inode names nm) else -1)"
proof (cases "slash \<in> set nm")
  case True
  define q where "q = parent_name nm"
  let ?P = "\<lambda>t. q = t_name t"
  have "slash_scan nm (length nm - 1) = Some (Some (length q - 1))"
    using slash_scan_eq [of "length nm - 1" nm] nm True by (simp add: q_def)
  moreover have "take (Suc (length q - 1)) nm = q"
    using parent_name_prefix [OF True] by (simp add: q_def)
  moreover have "search ?P (file_count st) (global_tarfs st) 0 =
      Some (if q \<in> set names then Some (LEAST i. names ! i = q) else None)"
  proof (cases "q \<in> set names")
    case True
    then obtain j where "j < length names" "names ! j = q" by (auto simp: in_set_conv_nth)
    define l where "l = (LEAST i. names ! i = q)"
    have "l \<le> j" "names ! l = q" "\<forall>i<l. names ! i \<noteq> q"
      unfolding l_def using \<open>names ! j = q\<close> by (auto intro: Least_le LeastI dest: not_less_Least)
    then have "search ?P (file_count st) (global_tarfs st) 0 = Some (Some l)"
      using \<open>j < length names\<close> st ts by (intro search_hit) auto
    then show ?thesis using True by (simp add: l_def)
  next
    case False
    then have "search ?P (file_count st) (global_tarfs st) 0 = Some None"
      using st ts by (intro search_miss) (auto simp: in_set_conv_nth)
    then show ?thesis using False by simp
  qed
  ultimately show ?thesis
    using nm by (auto simp: get_parent_inode_def fits_def parent_inode_def Let_def simp flip: q_def)
next
  case False
  then have "slash_scan nm (length nm - 1) = Some None"
    using slash_scan_eq [of "length nm - 1" nm] nm by simp
  then show ?thesis
    using nm ne parent_name_Nil [OF False] by (auto simp: get_parent_inode_def fits_def)
qed

lemma upd_file_twice: "i < length (global_tarfs st) \<Longrightarrow>
    upd_file i g (upd_file i f st) = upd_file i (\<lambda>t. g (f t)) st"
  by (simp add: upd_file_def)

lemma upd_file_simps [simp]:
  "file_count (upd_file i f st) = file_count st" "length (global_tarfs (upd_file i f st)) = length (global_tarfs st)"
  "upd_file i f (st\<lparr>file_count := n\<rparr>) = (upd_file i f st)\<lparr>file_count := n\<rparr>"
  by (simp_all add: upd_file_def)

lemma digit_value:
  assumes "is_digit ty" "c_string m p [ty]"
  shows "atoi m p = Some (int (unat ty - 48))"
proof -
  have "48 \<le> uint ty" "uint ty \<le> 57" using is_digit_uint [OF assms(1)] by simp_all
  then have "uint ty - 48 = int (unat ty - 48)" "uint ty - 48 < 2 ^ 31"
    by (simp_all add: of_nat_diff flip: nat_uint_eq) (simp add: of_nat_diff nat_le_iff)?
  then show ?thesis using atoi_eq [OF assms(2)] assms(1) by simp
qed

text \<open>One round of the loop, on an entry that is there.\<close>

lemma init_loop_step:
  assumes a: "archive m base off ((nm, sz, ty) # es)" and nul: "m nul = 0"
    and g: "global_tarfs st = ts @ replicate (Suc k) null_tarfile" "file_count st = int (length ts) + 3" "length ts \<le> 100"
    and ne: "[] \<notin> set (map t_name ts)"
  shows "init_loop_tarfs nul base (length ts) (int off) m st =
    init_loop_tarfs nul base (Suc (length ts)) (int (off + step (oval sz))) (m(base + of_nat (off + length nm + 1) := 0))
      (st\<lparr>file_count := int (length ts) + 4,
          global_tarfs := ts @ table base off (map t_name ts) [(nm, sz, ty)] @ replicate k null_tarfile\<rparr>)"
proof -
  let ?p = "base + of_nat off" and ?i = "length ts"
  define m1 where "m1 = m(base + of_nat (off + length nm + 1) := 0)"
  have nm: "c_string m ?p nm" "2 \<le> length nm" "length nm \<le> 98" "hd nm \<noteq> slash"
    and sz: "c_string m (base + of_nat (off + 124)) sz" "length sz \<le> 11" "list_all is_digit sz" "dval 0 sz < 2 ^ 31"
    and ty: "c_string m (base + of_nat (off + 156)) [ty]" "is_digit ty"
    and es: "archive m base (off + step (oval sz)) es"
    using a by simp_all
  have off: "off + step (oval sz) < 2 ^ 31" "off < 2 ^ 31" using archive_bound [OF es] archive_bound [OF a] by simp_all
  have len: "strlen nul ?p m = Some (m1, int (length nm))"
    using strlen_eq [OF nm(1) _ nul] nm(3) by (simp add: m1_def algebra_simps)
  note keep = c_string_keep [where m = m and base = base and a = "off + length nm + 1", folded m1_def]
  have "c_string m1 ?p nm" "c_string m1 (base + of_nat (off + 124)) sz" "c_string m1 (base + of_nat (off + 156)) [ty]"
    using nm sz ty off by (subst keep; simp del: of_nat_add c_string.simps)+
  then have rd: "read_string m1 ?p = Some nm" "atoi m1 (base + of_nat (off + 156)) = Some (int (unat ty - 48))"
    "Option.bind (atoi m1 (base + of_nat (off + 124))) octtodec = Some (int (oval sz))"
    using sz ty(2) off by (auto intro!: read_string_eq digit_value octtodec_atoi simp: step_def)
  then obtain v where v: "atoi m1 (?p + 124) = Some v" "octtodec v = Some (int (oval sz))"
    and t: "atoi m1 (?p + 156) = Some (int (unat ty - 48))"
    by (auto simp: add.assoc elim: bind_eq_Some_conv [THEN iffD1, elim_format])
  have gp: "get_parent_inode nm st' = Some (if parent_name nm \<in> set (map t_name ts) then int (parent_inode (map t_name ts) nm) else -1)"
    if "file_count st' = file_count st" "\<exists>t. global_tarfs st' = ts @ t # replicate k null_tarfile" for st'
    using that g nm ne by (intro get_parent_inode_eq) (auto simp: nth_append)
  have pi: "parent_inode (map t_name ts) nm = 0" if "parent_name nm \<notin> set (map t_name ts)"
    using that by (simp add: parent_inode_def)
  have fc: "i32 (int (length ts) + 3 + 1) = int (length ts) + 4"
    using g(3) by (subst i32_id) (simp_all add: in_i32_def)
  have "fits 100 nm" "nm \<noteq> []" using nm(2,3) by (auto simp: fits_def)
  then show ?thesis
    unfolding m1_def [symmetric] using len rd(1) v t g next_offset_eq [OF off(1)] fc
    by (subst init_loop_tarfs.simps) (simp add: gp upd_file_def Let_def pi)
qed

lemma init_loop_table:
  assumes "archive m base off es" "m nul = 0" "global_tarfs st = ts @ replicate k null_tarfile"
    and "file_count st = int (length ts) + 3" "length ts + k = 100" "length es \<le> k" "[] \<notin> set (map t_name ts)"
  shows "\<exists>m'. init_loop_tarfs nul base (length ts) (int off) m st =
    Some (m', st\<lparr>file_count := int (length ts + length es) + 3,
      global_tarfs := ts @ table base off (map t_name ts) es @ replicate (k - length es) null_tarfile\<rparr>)"
  using assms
proof (induction es arbitrary: m off st ts k)
  case Nil
  then have "strlen nul (base + of_nat off) m = Some (m(base + of_nat off + of_nat 0 + 1 := 0), 0)"
    using strlen_eq [of m "base + of_nat off" "[]" nul] by simp
  moreover have "st = st\<lparr>file_count := int (length ts) + 3, global_tarfs := ts @ replicate k null_tarfile\<rparr>"
    using Nil.prems by simp
  ultimately show ?case by (subst init_loop_tarfs.simps) simp
next
  case (Cons e es)
  obtain nm sz ty where e: "e = (nm, sz, ty)" by (cases e) auto
  from Cons.prems(6) obtain k' where k: "k = Suc k'" by (cases k) auto
  define f where "f = hd (table base off (map t_name ts) [(nm, sz, ty)])"
  define m1 where "m1 = m(base + of_nat (off + length nm + 1) := 0)"
  define st1 where "st1 = st\<lparr>file_count := int (length ts) + 4, global_tarfs := (ts @ [f]) @ replicate k' null_tarfile\<rparr>"
  have a: "archive m base off ((nm, sz, ty) # es)" using Cons.prems(1) e by simp
  then have nm: "2 \<le> length nm" "length nm \<le> 98" "archive m base (off + step (oval sz)) es" by simp_all
  have f: "t_name f = nm" "table base off (map t_name ts) ((nm, sz, ty) # es) =
      f # table base (off + step (oval sz)) (map t_name (ts @ [f])) es" by (simp_all add: f_def)
  have "init_loop_tarfs nul base (length ts) (int off) m st =
      init_loop_tarfs nul base (length (ts @ [f])) (int (off + step (oval sz))) m1 st1"
    using init_loop_step [OF a Cons.prems(2) _ Cons.prems(4) _ Cons.prems(7)] Cons.prems(3,5)
    by (simp add: k m1_def st1_def f_def)
  moreover have "archive m1 base (off + step (oval sz)) es"
    unfolding m1_def using nm by (intro archive_keep) (simp_all add: step_def)
  moreover have "m1 nul = 0" using Cons.prems(2) by (simp add: m1_def)
  moreover have "[] \<notin> set (map t_name (ts @ [f]))" using Cons.prems(7) f(1) nm(1) by auto
  ultimately show ?case
    using Cons.IH [of m1 "off + step (oval sz)" st1 "ts @ [f]" k'] Cons.prems(5,6) f(2)
    by (auto simp: e k st1_def algebra_simps)
qed

section \<open>Open files\<close>

lemma i32_uint: "unat x < 2 ^ 31 \<Longrightarrow> i32 (uint x) = int (unat (x :: u64))"
  unfolding uint_nat by (intro i32_id in_i32_nat)

definition is_open :: "cint \<Rightarrow> pcb \<Rightarrow> nat \<Rightarrow> bool" where
  "is_open d p i \<longleftrightarrow> int i < i32 (uint (fd_count p)) \<and> i < 5 \<and> length (fd p) = 5 \<and>
     inode (fd p ! i) = of_int d \<and> (\<forall>j<i. inode (fd p ! j) \<noteq> of_int d)"

lemma fd_search_hit: "is_open d p i \<Longrightarrow> k \<le> i \<Longrightarrow> fd_search d p k = Some (Some i)"
proof (induction "i - k" arbitrary: k)
  case 0
  then show ?case by (subst fd_search.simps) (simp add: is_open_def)
next
  case (Suc n)
  then have "fd_search d p (Suc k) = Some (Some i)" by (intro Suc.hyps(1)) simp_all
  moreover have "of_int d \<noteq> inode (fd p ! k)" "k < 5" "int k < i32 (uint (fd_count p))"
    using Suc by (auto simp: is_open_def dest: spec [of _ k])
  ultimately show ?case by (subst fd_search.simps) simp
qed

lemma copy_bytes_eq:
  "apart src n dst n \<Longrightarrow> n < 2 ^ 63 \<Longrightarrow>
     (\<forall>j<n. copy_bytes src dst n m (dst + of_nat j) = m (src + of_nat j)) \<and>
     (\<forall>x. (\<forall>j<n. x \<noteq> dst + of_nat j) \<longrightarrow> copy_bytes src dst n m x = m x)"
proof (induction n arbitrary: src dst m)
  case (Suc n)
  let ?m = "m(dst := m src)"
  have ap: "apart (src + 1) n (dst + 1) n" using Suc.prems(1) by (intro apart_Suc_left apart_Suc_right)
  have "n < 2 ^ 63" using Suc.prems(2) by simp
  note both = Suc.IH [OF ap this, of ?m]
  note IH = conjunct1 [OF both] conjunct2 [OF both]
  have "dst \<noteq> dst + 1 + of_nat j" if "j < n" for j
    using offset_neq [of "Suc j" dst] that Suc.prems(2) by (auto simp: add.assoc)
  then have "copy_bytes (src + 1) (dst + 1) n ?m dst = ?m dst" by (intro IH(2) [rule_format]) blast
  also have "?m dst = m src" by simp
  finally have d0: "copy_bytes (src + 1) (dst + 1) n ?m dst = m src" .
  have s: "src + of_nat j \<noteq> dst" if "j < Suc n" for j
    using Suc.prems(1) that by (force simp: apart_def)
  have "copy_bytes src dst (Suc n) m (dst + of_nat j) = m (src + of_nat j)" if "j < Suc n" for j
  proof (cases j)
    case 0
    then show ?thesis using d0 by simp
  next
    case (Suc k)
    then have e: "dst + of_nat j = dst + 1 + of_nat k" "src + of_nat j = src + 1 + of_nat k" "k < n"
      using that by (simp_all add: add.assoc)
    have "copy_bytes (src + 1) (dst + 1) n ?m (dst + of_nat j) = ?m (src + of_nat j)"
      unfolding e(1,2) using IH(1) e(3) by blast
    also have "\<dots> = m (src + of_nat j)" using s [OF that] by (simp only: fun_upd_apply if_False)
    finally show ?thesis by (simp only: copy_bytes.simps)
  qed
  moreover have "copy_bytes src dst (Suc n) m x = m x" if x: "\<forall>j<Suc n. x \<noteq> dst + of_nat j" for x
  proof -
    have "x \<noteq> dst" "\<forall>j<n. x \<noteq> dst + 1 + of_nat j"
      using x [rule_format, of 0] x [rule_format, of "Suc _"] by (simp_all add: add.assoc)
    then have "copy_bytes (src + 1) (dst + 1) n ?m x = ?m x" by (intro IH(2) [rule_format]) blast
    with \<open>x \<noteq> dst\<close> show ?thesis by (simp only: copy_bytes.simps fun_upd_apply if_False)
  qed
  ultimately show ?case by blast
qed simp

lemma upd_pcb_same: "upd_pcb c (\<lambda>_. pcbs st c) st = st"
  by (simp add: upd_pcb_def)

lemma upd_pcb_cong: "f (pcbs st c) = g (pcbs st c) \<Longrightarrow> upd_pcb c f st = upd_pcb c g st"
  by (simp add: upd_pcb_def)

text \<open>A read from an open file.\<close>

lemma read_file_eq:
  assumes "is_open d (pcbs st (curr_process st)) i" and sz: "unat (t_size (fd (pcbs st (curr_process st)) ! i)) = n" "n < 2 ^ 31"
    and "0 \<le> r" and f: "f = fd (pcbs st (curr_process st)) ! i" and len: "len = min (nat r) n"
  shows "read_file d buf r m st =
    Some (copy_bytes (read_addr f) buf len m,
      upd_pcb (curr_process st) (\<lambda>p. p\<lparr>fd := (fd p)[i := f\<lparr>read_addr := read_addr f + of_nat len\<rparr>]\<rparr>) st, int len)"
proof -
  have u: "i32 (uint (t_size f)) = int n" using sz f by (simp add: i32_uint)
  have up: "upd_pcb (curr_process st) (\<lambda>p. p\<lparr>fd := (fd p)[i := (fd p ! i)\<lparr>read_addr := read_addr (fd p ! i) + of_nat len\<rparr>]\<rparr>) st =
      upd_pcb (curr_process st) (\<lambda>p. p\<lparr>fd := (fd p)[i := f\<lparr>read_addr := read_addr f + of_nat len\<rparr>]\<rparr>) st"
    by (rule upd_pcb_cong) (simp add: f)
  note hit = fd_search_hit [OF assms(1), of 0, simplified]
  show ?thesis
  proof (cases "r < int n")
    case True
    with assms(4) len have r: "r = int len" "len < n" by simp_all
    then show ?thesis using hit u up by (simp add: read_file_def read_step_def Let_def flip: f)
  next
    case False
    with len have "len = n" by simp
    with False show ?thesis using hit u up by (simp add: read_file_def read_step_def Let_def flip: f)
  qed
qed

fun reads :: "nat \<Rightarrow> cint \<Rightarrow> u64 \<Rightarrow> cint \<Rightarrow> mem \<Rightarrow> kernel \<Rightarrow> (mem \<times> kernel \<times> cint list) option" where
  "reads 0 d buf r m st = Some (m, st, [])"
| "reads (Suc k) d buf r m st = do {
     (m, st, n) \<leftarrow> read_file d buf r m st;
     (m, st, ns) \<leftarrow> reads k d buf r m st;
     Some (m, st, n # ns)
   }"

section \<open>A small file system\<close>

text \<open>A directory \<^verbatim>\<open>b/\<close> with a file \<^verbatim>\<open>b/a\<close> of three bytes: the archive, and the table in a kernel.\<close>

definition demo_entries :: "entry list" where
  "demo_entries = [([98, 47], [48], 53), ([98, 47, 97], [51], 48)]"

definition demo_archive :: mem where
  "demo_archive = (\<lambda>_. 0)(0 := 98, 1 := 47, 124 := 48, 156 := 53,
     512 := 98, 513 := 47, 514 := 97, 636 := 51, 668 := 48, 1024 := 104, 1025 := 105, 1026 := 10)"

lemma demo_archive_ok: "archive demo_archive 0 0 demo_entries"
  by (simp add: demo_archive_def demo_entries_def step_def oval_def is_digit_def)

definition demo_fs :: kernel where
  "demo_fs = demo_procs\<lparr>file_count := 5,
     global_tarfs := table 0 0 [] demo_entries @ replicate 98 null_tarfile,
     pcbs := (pcbs demo_procs)(0x20 := (pcbs demo_procs 0x20)\<lparr>curr_dir := ROOT, temp_curr_dir := ROOT\<rparr>)\<rparr>"

lemma demo_files:
  "table 0 0 [] demo_entries = [null_tarfile\<lparr>t_name := [98, 47], t_type := 5, t_addr := 512, inode := 4\<rparr>,
     null_tarfile\<lparr>t_name := [98, 47, 97], t_size := 3, t_addr := 1024, inode := 5, p_inode := 4\<rparr>]"
proof -
  have "(LEAST i. [[98, 47 :: u8]] ! i = [98, 47]) = 0" by (rule Least_eq_0) simp
  then show ?thesis
    by (simp add: demo_entries_def step_def oval_def parent_inode_def parent_name_def null_tarfile_def)
qed

lemma demo_fs_simps:
  "file_count demo_fs = 5" "length (global_tarfs demo_fs) = 100" "curr_process demo_fs = 0x20" "table_ok demo_fs"
  "global_tarfs demo_fs ! 0 = null_tarfile\<lparr>t_name := [98, 47], t_type := 5, t_addr := 512, inode := 4\<rparr>"
  "global_tarfs demo_fs ! Suc 0 = null_tarfile\<lparr>t_name := [98, 47, 97], t_size := 3, t_addr := 1024, inode := 5, p_inode := 4\<rparr>"
  "pcbs demo_fs 0x20 = null_pcb\<lparr>pid := 2, ppid := 1, next_proc := 0x30, state := TASK_RUNNING, curr_dir := ROOT, temp_curr_dir := ROOT\<rparr>"
  by (simp_all add: demo_fs_def demo_files table_ok_def)

section \<open>Properties\<close>



text \<open>C18: Changing into a directory listed below the current one and then to \<^verbatim>\<open>..\<close> succeeds both times: the first step enters it, the second restores the process as it was.\<close>

theorem chdir_down_up:
  assumes st: "table_ok st" "curr_dir (pcbs st (curr_process st)) = ROOT @ d" "temp_curr_dir (pcbs st (curr_process st)) = ROOT @ d"
    and d: "0 \<notin> set d" "d = [] \<or> last d = slash \<and> hd d \<noteq> slash"
    and x: "x \<noteq> []" "slash \<notin> set x" "0 \<notin> set x" "\<not> (2 \<le> length x \<and> x ! 0 = dot \<and> x ! 1 = dot)"
    and n: "fits 50 (ROOT @ d @ x @ [slash])"
    and i: "int i + 3 < file_count st" "t_type (global_tarfs st ! i) = DIRECTORY" "t_name (global_tarfs st ! i) = d @ x @ [slash]"
  shows "\<exists>st1 st2. chdir x st = Some st1 \<and>
    curr_dir (pcbs st1 (curr_process st)) = ROOT @ d @ x @ [slash] \<and>
    chdir [dot, dot] st1 = Some st2 \<and> pcbs st2 = pcbs st"
proof -
  let ?c = "curr_process st" and ?f = "ROOT @ d @ x @ [slash]"
  define st1 where "st1 = upd_pcb ?c (\<lambda>p. p\<lparr>curr_dir := ?f, temp_curr_dir := ?f\<rparr>) st"
  have hd: "hd x \<noteq> slash" "last x \<noteq> slash" using x(1,2) by (metis hd_in_set, metis last_in_set)
  have "\<not> (2 < length x \<and> x ! 0 = dot \<and> x ! 1 = slash)" using x(2) by (metis One_nat_def less_trans nth_mem one_less_numeral_iff semiring_norm(76))
  note hd = hd(1) this hd(2)
  have name: "chdir_name x (pcbs st ?c) = Some (pcbs st ?c, d @ x, False)"
    using hd x(4) st(2) unfolding chdir_name_def by (simp only: if_False if_True skip_root_ROOT) simp
  have "fits 100 (d @ x)" "fits 100 (d @ x @ [slash])" using n by (simp_all add: fits_def)
  moreover have "upd_pcb ?c (\<lambda>_. pcbs st ?c) st = st" by (simp add: upd_pcb_def)
  ultimately have c1: "chdir x st = Some st1"
    using name x(1) hd(3) changedir_hit [OF st(1) refl st(2,3) d x(2,3) n i]
    by (simp add: chdir_def Let_def st1_def)
  have "length d < 2 ^ 60" "length x < 2 ^ 60" using n by (simp_all add: fits_def)
  then have "up ((ROOT @ d) @ x @ [slash]) = ROOT @ d" using d x by (intro up_step) auto
  then have up: "up ?f = ROOT @ d" by simp
  have p1: "temp_curr_dir (pcbs st1 ?c) = ?f" "curr_process st1 = ?c" by (simp_all add: st1_def)
  obtain p where "chdir_name [dot, dot] (pcbs st1 ?c) = Some (p, [], True)"
    "p = (pcbs st1 ?c)\<lparr>temp_curr_dir := up ?f, curr_dir := up ?f\<rparr>"
    using p1(1) by (auto simp: chdir_name_def split_def Let_def up_def)
  moreover have "(pcbs st1 ?c)\<lparr>temp_curr_dir := up ?f, curr_dir := up ?f\<rparr> = pcbs st ?c"
    using st(2,3) up by (simp add: st1_def)
  ultimately have "chdir [dot, dot] st1 = Some (upd_pcb ?c (\<lambda>_. pcbs st ?c) st1)"
    using p1(2) by (simp add: chdir_def)
  moreover have "pcbs (upd_pcb ?c (\<lambda>_. pcbs st ?c) st1) = pcbs st" by (simp add: st1_def fun_upd_idem_iff)
  ultimately show ?thesis using c1 p1 by (auto simp: st1_def)
qed

theorem chdir_down_up_witness:
  "\<exists>st1 st2. chdir [98] demo_fs = Some st1 \<and> curr_dir (pcbs st1 0x20) = ROOT @ [98, 47] \<and>
     chdir [46, 46] st1 = Some st2 \<and> pcbs st2 = pcbs demo_fs"
  using chdir_down_up [of demo_fs "[]" "[98]" 0] by (simp add: demo_fs_simps fits_def)

text \<open>An absolute path of more than one component is never found, whether the directory exists or not: \<open>chdir\<close> prints its message, and the directory to search in is left at the root.\<close>

theorem chdir_nested_absolute_fails:
  assumes "table_ok st" and "a \<noteq> []" "b \<noteq> []" "slash \<notin> set b" "0 \<notin> set (a @ b)" "length (a @ b) \<le> 88"
  shows "chdir (slash # a @ slash # b) st =
    Some (print (no_dir_text (slash # a @ slash # b)) (upd_pcb (curr_process st) (\<lambda>p. p\<lparr>temp_curr_dir := ROOT\<rparr>) st))"
proof -
  let ?c = "curr_process st" and ?f = "a @ slash # b"
  define st1 where "st1 = upd_pcb ?c (\<lambda>_. (pcbs st ?c)\<lparr>temp_curr_dir := ROOT\<rparr>) st"
  have st1: "st1 = upd_pcb ?c (\<lambda>p. p\<lparr>temp_curr_dir := ROOT\<rparr>) st" by (simp add: st1_def upd_pcb_def)
  have "cut (a @ slash # b @ [slash]) slash = (a @ [slash], 0)"
    using assms by (subst cut_path) simp_all
  moreover have "table_ok st1" "curr_process st1 = ?c" "temp_curr_dir (pcbs st1 ?c) = ROOT"
    using assms(1) by (simp_all add: st1_def table_ok_def upd_pcb_def)
  ultimately have "changedir (?f @ [slash]) st1 = Some (st1, 999)"
    using assms(6) by (intro changedir_miss) simp_all
  moreover have "last b \<noteq> slash" using assms(3,4) by (metis last_in_set)
  then have "last ?f \<noteq> slash" using assms(3) by simp
  moreover have "fits 100 ?f" "fits 100 (?f @ [slash])" using assms(6) by (simp_all add: fits_def)
  ultimately show ?thesis
    by (simp add: chdir_def chdir_name_def Let_def st1_def [symmetric]) (simp add: st1)
qed

theorem chdir_nested_absolute_fails_witness:
  "chdir [47, 98, 47, 99] demo_fs =
     Some (print (no_dir_text [47, 98, 47, 99]) (upd_pcb 0x20 (\<lambda>p. p\<lparr>temp_curr_dir := ROOT\<rparr>) demo_fs))"
  using chdir_nested_absolute_fails [of demo_fs "[98]" "[99]"] by (simp add: demo_fs_simps)

text \<open>C19: From a well-formed archive of at most 100 files \<open>init_tarfs\<close> builds the table the archive describes: names, octal sizes, types and data addresses in order, identifiers from 4 on, and the identifier of the entry named by everything up to the last slash as parent (which for a directory is itself, so a directory has parent 0).\<close>

theorem init_tarfs_table:
  assumes "archive m base 0 es" and "m nul = 0" and "length es \<le> 100"
    and "global_tarfs st = replicate 100 null_tarfile" and "file_count st = 3"
  shows "\<exists>m'. init_tarfs nul base m st = Some (m', st\<lparr>file_count := int (length es) + 3,
    global_tarfs := table base 0 [] es @ replicate (100 - length es) null_tarfile\<rparr>)"
  using init_loop_table [of m base 0 es nul st "[]" 100] assms by (simp add: init_tarfs_def)

theorem init_tarfs_table_witness:
  "\<exists>m'. init_tarfs 0x8000 0 demo_archive (bare_kernel demo) = Some (m', (bare_kernel demo)\<lparr>file_count := 5,
     global_tarfs := table 0 0 [] demo_entries @ replicate 98 null_tarfile\<rparr>)"
proof -
  have "demo_archive 0x8000 = 0" "length demo_entries = 2" by (simp_all add: demo_archive_def demo_entries_def)
  moreover have "global_tarfs (bare_kernel demo) = replicate 100 null_tarfile" "file_count (bare_kernel demo) = 3"
    by (simp_all add: bare_kernel_def)
  ultimately show ?thesis using init_tarfs_table [OF demo_archive_ok, of "0x8000" "bare_kernel demo"] by simp
qed

text \<open>C20: Opening a listed file gives its identifier, and a read from it returns the smaller of the request and the file's size, copies that many bytes of the file to the buffer, in order, and changes no other byte.\<close>

theorem open_then_read:
  assumes i: "i < length (global_tarfs st)" "int i + 3 < file_count st" "f = global_tarfs st ! i" "\<forall>j<i. t_name (global_tarfs st ! j) \<noteq> t_name f"
    and p: "p = pcbs st (curr_process st)" "fd_count p = of_nat k" "k < 5" "length (fd p) = 5" "\<forall>j<k. inode (fd p ! j) \<noteq> inode f"
    and f: "unat (inode f) < 2 ^ 31" "unat (t_size f) < 2 ^ 31" "fits 100 (t_name f)"
    and r: "0 \<le> r" "len = min (nat r) (unat (t_size f))" "apart (t_addr f) len buf len"
  shows "\<exists>st1 d m' st2. open_file (t_name f) st = Some (st1, d) \<and> d = int (unat (inode f)) \<and>
    read_file d buf r m st1 = Some (m', st2, int len) \<and>
    (\<forall>j<len. m' (buf + of_nat j) = m (t_addr f + of_nat j)) \<and> (\<forall>x. (\<forall>j<len. x \<noteq> buf + of_nat j) \<longrightarrow> m' x = m x)"
proof -
  let ?c = "curr_process st"
  define g where "g = (fd p ! k)\<lparr>t_name := t_name f, inode := inode f, p_inode := p_inode f, t_size := t_size f, read_addr := t_addr f\<rparr>"
  define p1 where "p1 = p\<lparr>fd := (fd p)[k := g], fd_count := fd_count p + 1\<rparr>"
  define st1 where "st1 = upd_pcb ?c (\<lambda>_. p1) st"
  define d where "d = int (unat (inode f))"
  have "search (\<lambda>t. t_name f = t_name t) (file_count st) (global_tarfs st) 0 = Some (Some i)"
    using i by (intro search_hit) auto
  moreover have fdc: "i32 (uint (fd_count p)) = int k"
    using p(2,3) by (simp add: uint_nat unat_of_nat take_bit_nat_eq_self i32_id in_i32_def)
  moreover have "i32 (uint (inode f)) = d" using f(1) by (simp add: d_def i32_uint)
  moreover have "upd_pcb ?c (\<lambda>p. p\<lparr>fd := (fd p)[k := g], fd_count := fd_count p + 1\<rparr>) st = st1"
    unfolding st1_def by (rule upd_pcb_cong) (simp add: p1_def p(1))
  ultimately have o: "open_file (t_name f) st = Some (st1, d)"
    using f(3) p(3) i(3) by (simp add: open_file_def Let_def upd_pcb_twice g_def flip: p(1))
  have cur: "curr_process st1 = ?c" "pcbs st1 ?c = p1" by (simp_all add: st1_def)
  have "uint (fd_count p + 1) = int k + 1" using p(2,3) by (simp add: uint_nat unat_word_ariths unat_of_nat take_bit_nat_eq_self)
  then have "i32 (uint (fd_count p1)) = int k + 1" using p(3) by (simp add: p1_def i32_id in_i32_def)
  moreover have "of_int d = inode f" by (simp add: d_def)
  ultimately have "is_open d (pcbs st1 (curr_process st1)) k"
    using p by (simp add: is_open_def cur p1_def g_def)
  moreover have "fd (pcbs st1 (curr_process st1)) ! k = g" using p(3,4) by (simp add: cur p1_def)
  ultimately have rd: "read_file d buf r m st1 = Some (copy_bytes (read_addr g) buf len m,
      upd_pcb (curr_process st1) (\<lambda>p. p\<lparr>fd := (fd p)[k := g\<lparr>read_addr := read_addr g + of_nat len\<rparr>]\<rparr>) st1, int len)"
    using f(2) r(1,2) by (intro read_file_eq [where n = "unat (t_size f)"]) (simp_all add: g_def)
  have a: "read_addr g = t_addr f" by (simp add: g_def)
  have "len < 2 ^ 63" using r(2) f(2) by simp
  note copy = copy_bytes_eq [OF r(3) this, of m, folded a]
  show ?thesis
    by (intro exI conjI, rule o, rule d_def, rule rd) (use copy a in simp_all)
qed

theorem open_then_read_witness:
  "\<exists>st1 d m' st2. open_file [98, 47, 97] demo_fs = Some (st1, d) \<and> read_file d 0x5000 8 demo_archive st1 = Some (m', st2, 3)"
proof -
  have "apart 1024 3 0x5000 3" by (simp add: apart_def numeral_3_eq_3 All_less_Suc)
  then show ?thesis
    using open_then_read [where i = 1 and st = demo_fs and f = "global_tarfs demo_fs ! 1" and k = 0
        and r = 8 and len = 3 and buf = "0x5000" and m = demo_archive and p = "pcbs demo_fs 0x20"]
    by (fastforce simp: demo_fs_simps null_pcb_def null_tarfile_def fits_def)
qed



end
