(* ===== verification/Environ.thy ===== *)
theory Environ
  imports Process
begin

text \<open>
  The environment variables of a process, \<open>setEnv\<close> and \<open>printEnv\<close> of \<^verbatim>\<open>sys/process.c\<close>: two
  arrays of five strings, filled in turn and then overwritten from the start.
\<close>

section \<open>Definitions\<close>

text \<open>The scan for the equals sign; it runs past the end of a string that has none.\<close>

fun split_eq :: "u8 list \<Rightarrow> (u8 list \<times> u8 list) option" where
  "split_eq [] = None"
| "split_eq (c # s) = (if c = 61 then Some ([], s) else map_option (\<lambda>(k, v). (c # k, v)) (split_eq s))"

text \<open>The loop over the keys.\<close>

fun find_key :: "u8 list \<Rightarrow> u8 list list \<Rightarrow> nat option" where
  "find_key key [] = None"
| "find_key key (k # ks) = (if k = key then Some 0 else map_option Suc (find_key key ks))"

definition setEnv_pcb :: "u8 list \<Rightarrow> u8 list \<Rightarrow> pcb \<Rightarrow> pcb option" where
  "setEnv_pcb key val p =
     (case find_key key (echo_var_key p) of
        Some i \<Rightarrow> if fits 50 val then Some (p\<lparr>echo_var := (echo_var p)[i := val]\<rparr>) else None
      | None \<Rightarrow>
          (let index = echo_count p
           in if index < 0 \<or> 5 \<le> index \<or> \<not> fits 50 key \<or> \<not> fits 50 val then None
              else
                (let p = p\<lparr>echo_var_key := (echo_var_key p)[nat index := key]\<rparr>;
                     p = p\<lparr>echo_var := (echo_var p)[nat index := val]\<rparr>;
                     p = p\<lparr>echo_count := index + 1\<rparr>
                 in Some (if index + 1 = 5 then p\<lparr>echo_count := 0\<rparr> else p))))"

definition setEnv :: "u8 list \<Rightarrow> kernel \<Rightarrow> kernel option" where
  "setEnv s st =
     (if \<not> fits 100 s then None
      else do {
        (key, val) \<leftarrow> split_eq s;
        p \<leftarrow> setEnv_pcb key val (pcbs st (curr_process st));
        Some (upd_pcb (curr_process st) (\<lambda>_. p) st)
      })"

text \<open>The value is printed as a format; one with a percent sign takes arguments that are not there.\<close>

definition printEnv :: "u8 list \<Rightarrow> kernel \<Rightarrow> kernel option" where
  "printEnv s st =
     (let p = pcbs st (curr_process st)
      in case find_key s (echo_var_key p) of
           Some i \<Rightarrow> if 37 \<in> set (echo_var p ! i) then None else Some (print [10] (print (echo_var p ! i) st))
         | None \<Rightarrow> Some (print (bytes ''sbush: No such environment variable'' @ [10]) st))"

section \<open>Contract\<close>

text \<open>
  A bounded store of bindings: what was just set is found; setting one key may make the store
  forget another one, but never gives it another value.
\<close>

locale bounded_store =
  fixes get :: "'k \<Rightarrow> 's \<Rightarrow> 'v option"
    and put :: "'k \<Rightarrow> 'v \<Rightarrow> 's \<Rightarrow> 's option"
    and ok :: "'s \<Rightarrow> bool"
    and fit :: "'k \<Rightarrow> 'v \<Rightarrow> bool"
  assumes put_fit: "ok s \<Longrightarrow> fit k v \<Longrightarrow> \<exists>s'. put k v s = Some s'"
    and put_ok: "ok s \<Longrightarrow> fit k v \<Longrightarrow> put k v s = Some s' \<Longrightarrow> ok s'"
    and get_same: "ok s \<Longrightarrow> fit k v \<Longrightarrow> put k v s = Some s' \<Longrightarrow> get k s' = Some v"
    and get_other: "ok s \<Longrightarrow> fit k v \<Longrightarrow> put k v s = Some s' \<Longrightarrow> k' \<noteq> k \<Longrightarrow> fit k' v' \<Longrightarrow>
      get k' s' = get k' s \<or> get k' s' = None"
begin

fun puts :: "('k \<times> 'v) list \<Rightarrow> 's \<Rightarrow> 's option" where
  "puts [] s = Some s"
| "puts ((k, v) # kvs) s = Option.bind (put k v s) (puts kvs)"

lemma puts_snoc: "puts (kvs @ [(k, v)]) s = Option.bind (puts kvs s) (put k v)"
  by (induction kvs arbitrary: s) (auto split: Option.bind_splits)

lemma puts_total: "ok s \<Longrightarrow> \<forall>(k, v) \<in> set kvs. fit k v \<Longrightarrow> \<exists>s'. puts kvs s = Some s' \<and> ok s'"
proof (induction kvs arbitrary: s)
  case (Cons kv kvs)
  obtain k v where kv: "kv = (k, v)" "fit k v" using Cons.prems(2) by (cases kv) auto
  obtain s1 where s1: "put k v s = Some s1" using put_fit [OF Cons.prems(1) kv(2)] by blast
  from Cons.IH [OF put_ok [OF Cons.prems(1) kv(2) s1]] Cons.prems(2) s1 show ?case by (simp add: kv)
qed simp

lemma last_value:
  assumes "ok s" "\<forall>(k, v) \<in> set kvs. fit k v" "get k s = None" "fit k v0" "puts kvs s = Some s'"
  shows "get k s' = None \<or> get k s' = map_of (rev kvs) k"
  using assms
proof (induction kvs arbitrary: s' rule: rev_induct)
  case (snoc kv kvs)
  obtain k1 v1 where kv: "kv = (k1, v1)" "fit k1 v1" using snoc.prems(2) by (cases kv) auto
  obtain s1 where s1: "puts kvs s = Some s1" "put k1 v1 s1 = Some s'"
    using snoc.prems(5) by (auto simp: kv puts_snoc split: Option.bind_splits)
  have ok1: "ok s1" using puts_total [OF snoc.prems(1)] snoc.prems(2) s1(1) by fastforce
  show ?case
  proof (cases "k = k1")
    case True
    then show ?thesis using get_same [OF ok1 kv(2) s1(2)] by (simp add: kv)
  next
    case False
    have "get k s1 = None \<or> get k s1 = map_of (rev kvs) k" using snoc s1(1) by auto
    then show ?thesis using get_other [OF ok1 kv(2) s1(2) False snoc.prems(4)] False by (auto simp: kv)
  qed
qed simp

end

section \<open>The environment of a process\<close>

text \<open>No key occurs twice; a slot never used has the empty one.\<close>

definition uniq :: "u8 list list \<Rightarrow> bool" where
  "uniq ks \<longleftrightarrow> (\<forall>i<length ks. \<forall>j<length ks. ks ! i = ks ! j \<and> ks ! i \<noteq> [] \<longrightarrow> i = j)"

definition env_ok :: "pcb \<Rightarrow> bool" where
  "env_ok p \<longleftrightarrow> length (echo_var_key p) = 5 \<and> length (echo_var p) = 5 \<and> 0 \<le> echo_count p \<and> echo_count p < 5 \<and>
     uniq (echo_var_key p)"

definition env_fit :: "u8 list \<Rightarrow> u8 list \<Rightarrow> bool" where
  "env_fit k v \<longleftrightarrow> k \<noteq> [] \<and> 61 \<notin> set k \<and> fits 50 k \<and> fits 50 v"

definition getEnv :: "u8 list \<Rightarrow> pcb \<Rightarrow> u8 list option" where
  "getEnv k p = map_option (\<lambda>i. echo_var p ! i) (find_key k (echo_var_key p))"

lemma find_key_Some: "find_key k ks = Some i \<Longrightarrow> i < length ks \<and> ks ! i = k"
  by (induction ks arbitrary: i) (auto split: if_splits)

lemma find_key_None: "find_key k ks = None \<longleftrightarrow> k \<notin> set ks"
  by (induction ks) auto

lemma find_key_update_same:
  "k \<notin> set ks \<Longrightarrow> i < length ks \<Longrightarrow> find_key k (ks[i := k]) = Some i"
proof (induction ks arbitrary: i)
  case (Cons x ks)
  then show ?case by (cases i) auto
qed simp

lemma find_key_update_other:
  assumes "k \<noteq> k'" "k' \<noteq> []" "i < length ks" "uniq ks"
  shows "find_key k' (ks[i := k]) = (if ks ! i = k' then None else find_key k' ks)"
proof (cases "ks ! i = k'")
  case True
  have "ks[i := k] ! j \<noteq> k'" if "j < length ks" for j
    using assms True that by (cases "j = i") (auto simp: uniq_def)
  then have "k' \<notin> set (ks[i := k])" by (auto simp: in_set_conv_nth)
  with True show ?thesis by (simp add: find_key_None)
next
  case False
  from assms(1,3) this show ?thesis
  proof (induction ks arbitrary: i)
    case (Cons x ks)
    then show ?case by (cases i) auto
  qed simp
qed

lemma uniq_update:
  assumes "uniq ks" "k \<notin> set ks" shows "uniq (ks[i := k])"
  unfolding uniq_def
proof (intro allI impI)
  fix a b assume "a < length (ks[i := k])" "b < length (ks[i := k])" "ks[i := k] ! a = ks[i := k] ! b \<and> ks[i := k] ! a \<noteq> []"
  with assms show "a = b"
    by (cases "a = i"; cases "b = i") (auto simp: uniq_def)
qed

text \<open>The two ways a binding is written.\<close>

lemma setEnv_pcb_found:
  "find_key k (echo_var_key p) = Some i \<Longrightarrow> fits 50 v \<Longrightarrow> setEnv_pcb k v p = Some (p\<lparr>echo_var := (echo_var p)[i := v]\<rparr>)"
  by (simp add: setEnv_pcb_def)

lemma setEnv_pcb_new:
  assumes "find_key k (echo_var_key p) = None" "env_ok p" "fits 50 k" "fits 50 v"
  shows "setEnv_pcb k v p = Some (p\<lparr>echo_var_key := (echo_var_key p)[nat (echo_count p) := k],
    echo_var := (echo_var p)[nat (echo_count p) := v], echo_count := if echo_count p = 4 then 0 else echo_count p + 1\<rparr>)"
  using assms by (simp add: setEnv_pcb_def env_ok_def Let_def)

lemma put_new:
  assumes "env_ok p" "find_key k (echo_var_key p) = None" "k' \<noteq> []" "k' \<noteq> k" "i < 5" "0 \<le> c" "c < 5"
    and p': "p' = p\<lparr>echo_var_key := (echo_var_key p)[i := k], echo_var := (echo_var p)[i := v], echo_count := c\<rparr>"
  shows "env_ok p'" "getEnv k p' = Some v" "getEnv k' p' = getEnv k' p \<or> getEnv k' p' = None"
proof -
  have u: "uniq (echo_var_key p)" and l: "length (echo_var_key p) = 5" "length (echo_var p) = 5"
    using assms(1) by (simp_all add: env_ok_def)
  have k: "k \<notin> set (echo_var_key p)" by (rule find_key_None [THEN iffD1, OF assms(2)])
  show "env_ok p'" using uniq_update [OF u k] assms(5-7) l by (simp add: env_ok_def p')
  show "getEnv k p' = Some v" using find_key_update_same [OF k, of i] assms(5) l by (simp add: getEnv_def p')
  have "i < length (echo_var_key p)" using assms(5) l by simp
  from find_key_update_other [OF assms(4) [symmetric] assms(3) this u]
  have fk: "find_key k' (echo_var_key p') = (if echo_var_key p ! i = k' then None else find_key k' (echo_var_key p))"
    by (simp add: p')
  show "getEnv k' p' = getEnv k' p \<or> getEnv k' p' = None"
  proof (cases "find_key k' (echo_var_key p)")
    case None
    with fk have "find_key k' (echo_var_key p') = None" by (simp only: if_cancel)
    then show ?thesis by (simp add: getEnv_def)
  next
    case (Some a)
    then have a: "echo_var_key p ! a = k'" using find_key_Some by blast
    show ?thesis
    proof (cases "a = i")
      case True
      with fk a show ?thesis by (simp add: getEnv_def)
    next
      case False
      with fk Some show ?thesis by (simp add: getEnv_def p')
    qed
  qed
qed

lemma put_over:
  assumes "env_ok p" "find_key k (echo_var_key p) = Some i" "k' \<noteq> k" and p': "p' = p\<lparr>echo_var := (echo_var p)[i := v]\<rparr>"
  shows "env_ok p'" "getEnv k p' = Some v" "getEnv k' p' = getEnv k' p"
proof -
  have i: "i < length (echo_var p)" "echo_var_key p ! i = k" using find_key_Some [OF assms(2)] assms(1) by (auto simp: env_ok_def)
  show "env_ok p'" using assms(1) by (simp add: env_ok_def p')
  show "getEnv k p' = Some v" using assms(2) i by (simp add: getEnv_def p')
  show "getEnv k' p' = getEnv k' p"
  proof (cases "find_key k' (echo_var_key p)")
    case (Some a)
    then have "a \<noteq> i" using find_key_Some [OF Some] i assms(3) by auto
    then show ?thesis by (simp add: getEnv_def p' Some)
  qed (simp add: getEnv_def p')
qed

lemma setEnv_pcb_store:
  assumes p: "env_ok p" and f: "env_fit k v" and k': "k' \<noteq> k" "k' \<noteq> []"
  shows "\<exists>p'. setEnv_pcb k v p = Some p' \<and> env_ok p' \<and> getEnv k p' = Some v \<and> (getEnv k' p' = getEnv k' p \<or> getEnv k' p' = None)"
proof -
  from f have f': "fits 50 k" "fits 50 v" by (simp_all add: env_fit_def)
  show ?thesis
  proof (cases "find_key k (echo_var_key p)")
    case None
    have "nat (echo_count p) < 5" "0 \<le> (if echo_count p = 4 then 0 else echo_count p + 1)"
      "(if echo_count p = 4 then 0 else echo_count p + 1) < 5" using p by (auto simp: env_ok_def)
    from put_new [OF p None k'(2,1) this refl] setEnv_pcb_new [OF None p f'] show ?thesis by blast
  next
    case (Some i)
    from put_over [OF p Some k'(1) refl] setEnv_pcb_found [OF Some f'(2)] show ?thesis by blast
  qed
qed

interpretation env: bounded_store getEnv setEnv_pcb env_ok env_fit
proof
  fix p :: pcb and k v
  assume p: "env_ok p" and f: "env_fit k v"
  show "\<exists>p'. setEnv_pcb k v p = Some p'"
    using setEnv_pcb_store [OF p f, of "0 # k"] by auto
  fix p' assume s: "setEnv_pcb k v p = Some p'"
  show "env_ok p'" "getEnv k p' = Some v"
    using setEnv_pcb_store [OF p f, of "0 # k"] s by auto
  fix k' v' assume k': "k' \<noteq> k" "env_fit k' v'"
  then have "k' \<noteq> []" by (simp add: env_fit_def)
  then show "getEnv k' p' = getEnv k' p \<or> getEnv k' p' = None"
    using setEnv_pcb_store [OF p f k'(1)] s by auto
qed

section \<open>Properties\<close>

lemma uniq_replicate: "uniq (replicate n [])"
  by (simp add: uniq_def)


lemma split_eq_append: "61 \<notin> set k \<Longrightarrow> split_eq (k @ 61 # v) = Some (k, v)"
  by (induction k) auto

lemma split_eq_None: "split_eq s = None \<longleftrightarrow> 61 \<notin> set s"
  by (induction s) auto

text \<open>\<open>setEnv\<close> on a string with an equals sign is an update of the current process's store.\<close>

lemma setEnv_put:
  "61 \<notin> set k \<Longrightarrow> fits 100 (k @ 61 # v) \<Longrightarrow>
    setEnv (k @ 61 # v) st = map_option (\<lambda>p. upd_pcb (curr_process st) (\<lambda>_. p) st) (setEnv_pcb k v (pcbs st (curr_process st)))"
  by (cases "setEnv_pcb k v (pcbs st (curr_process st))") (simp_all add: setEnv_def split_eq_append)

lemma printEnv_get:
  "getEnv k (pcbs st (curr_process st)) = Some v \<Longrightarrow> 37 \<notin> set v \<Longrightarrow> printEnv k st = Some (print [10] (print v st))"
  by (auto simp: getEnv_def printEnv_def)

text \<open>A sequence of settings.\<close>

fun setEnvs :: "(u8 list \<times> u8 list) list \<Rightarrow> kernel \<Rightarrow> kernel option" where
  "setEnvs [] st = Some st"
| "setEnvs ((k, v) # kvs) st = Option.bind (setEnv (k @ 61 # v) st) (setEnvs kvs)"

lemma setEnvs_puts:
  "\<forall>(k, v) \<in> set kvs. 61 \<notin> set k \<and> fits 100 (k @ 61 # v) \<Longrightarrow>
    setEnvs kvs st = map_option (\<lambda>p. upd_pcb (curr_process st) (\<lambda>_. p) st) (env.puts kvs (pcbs st (curr_process st)))"
proof (induction kvs arbitrary: st)
  case Nil
  show ?case by (simp add: upd_pcb_def)
next
  case (Cons kv kvs)
  obtain k v where kv: "kv = (k, v)" "61 \<notin> set k" "fits 100 (k @ 61 # v)" using Cons.prems by (cases kv) auto
  show ?case
  proof (cases "setEnv_pcb k v (pcbs st (curr_process st))")
    case (Some p)
    show ?thesis
      using Cons.IH [of "upd_pcb (curr_process st) (\<lambda>_. p) st"] Cons.prems
      by (simp add: kv setEnv_put Some upd_pcb_def) 
  qed (simp add: kv setEnv_put)
qed

definition demo_env :: kernel where
  "demo_env = bare_kernel \<lparr>free_map = \<lambda>_. 0, pm = \<lambda>_. 0, reg_cr3 = 0, g_cr3 = 0, g_pml4 = 0, g_pdpt = 0, g_pd = 0, g_pt = 0,
     physfree_start = 0, physfree_end = 0, virt_addr = 0\<rparr>"

text \<open>C22: After \<open>setEnv("k=v")\<close>, \<open>printEnv("k")\<close> prints the value and a newline: the store keeps the
  last setting, whichever of its five slots it went to.\<close>

theorem set_then_print:
  assumes "env_ok (pcbs st (curr_process st))" "env_fit k v" "fits 100 (k @ 61 # v)" "37 \<notin> set v"
  shows "\<exists>st'. setEnv (k @ 61 # v) st = Some st' \<and> env_ok (pcbs st' (curr_process st')) \<and>
    printEnv k st' = Some (st'\<lparr>out := out st @ v @ [10]\<rparr>)"
proof -
  obtain p where p: "setEnv_pcb k v (pcbs st (curr_process st)) = Some p" using env.put_fit assms(1,2) by blast
  have "setEnv (k @ 61 # v) st = Some (upd_pcb (curr_process st) (\<lambda>_. p) st)"
    using assms(2,3) p by (simp add: setEnv_put env_fit_def)
  then show ?thesis
    using env.put_ok [OF assms(1,2) p] printEnv_get [OF _ assms(4)] env.get_same [OF assms(1,2) p]
    by (simp add: upd_pcb_def print_def)
qed

theorem set_then_print_witness:
  "\<exists>st'. setEnv (bytes ''A'' @ 61 # bytes ''hi'') demo_env = Some st' \<and> env_ok (pcbs st' (curr_process st')) \<and>
    printEnv (bytes ''A'') st' = Some (st'\<lparr>out := out demo_env @ bytes ''hi'' @ [10]\<rparr>)"
  by (rule set_then_print) (simp_all add: demo_env_def bare_kernel_def null_pcb_def env_ok_def env_fit_def uniq_def fits_def
      bytes_def uniq_replicate)

text \<open>C23: A variable that was set is never printed with a stale value: after any sequence of settings, the
  lookup of a key that was not set before gives its last setting, or reports that there is no such
  variable (the five slots are reused in turn).\<close>

theorem printEnv_last_or_missing:
  assumes "env_ok (pcbs st (curr_process st))" "getEnv k (pcbs st (curr_process st)) = None"
    "\<forall>(k', v') \<in> set kvs. env_fit k' v' \<and> fits 100 (k' @ 61 # v') \<and> 37 \<notin> set v'" "k \<noteq> []" "61 \<notin> set k" "fits 50 k"
  shows "\<exists>st'. setEnvs kvs st = Some st' \<and>
    (printEnv k st' = Some (st'\<lparr>out := out st @ bytes ''sbush: No such environment variable'' @ [10]\<rparr>) \<or>
     (\<exists>v. map_of (rev kvs) k = Some v \<and> printEnv k st' = Some (st'\<lparr>out := out st @ v @ [10]\<rparr>)))"
proof -
  let ?p = "pcbs st (curr_process st)"
  have fit: "\<forall>(k, v) \<in> set kvs. env_fit k v" using assms(3) by auto
  obtain p where p: "env.puts kvs ?p = Some p" using env.puts_total [OF assms(1) fit] by blast
  have s: "setEnvs kvs st = Some (upd_pcb (curr_process st) (\<lambda>_. p) st)" (is "_ = Some ?st")
    using assms(3) p by (subst setEnvs_puts) (auto simp: env_fit_def)
  have "env_fit k []" using assms(4-6) by (simp add: env_fit_def fits_def)
  from env.last_value [OF assms(1) fit assms(2) this p]
  consider "getEnv k p = None" | v where "getEnv k p = Some v" "map_of (rev kvs) k = Some v"
    by (cases "getEnv k p") auto
  then show ?thesis
  proof cases
    case 1
    then have "find_key k (echo_var_key p) = None" by (simp add: getEnv_def)
    then show ?thesis using s by (auto simp: printEnv_def upd_pcb_def print_def)
  next
    case (2 v)
    then have "(k, v) \<in> set kvs" by (auto dest: map_of_SomeD)
    then have "37 \<notin> set v" using assms(3) by blast
    then have "printEnv k ?st = Some (print [10] (print v ?st))"
      using 2 by (intro printEnv_get) (simp_all add: upd_pcb_def)
    then show ?thesis using s 2 by (auto simp: print_def upd_pcb_def)
  qed
qed

theorem printEnv_last_or_missing_witness:
  "\<exists>st'. setEnvs [(bytes ''A'', bytes ''1''), (bytes ''A'', bytes ''2'')] demo_env = Some st' \<and>
    (printEnv (bytes ''A'') st' = Some (st'\<lparr>out := out demo_env @ bytes ''sbush: No such environment variable'' @ [10]\<rparr>) \<or>
     (\<exists>v. map_of (rev [(bytes ''A'', bytes ''1''), (bytes ''A'', bytes ''2'')]) (bytes ''A'') = Some v \<and>
       printEnv (bytes ''A'') st' = Some (st'\<lparr>out := out demo_env @ v @ [10]\<rparr>)))"
  by (rule printEnv_last_or_missing) (simp_all add: demo_env_def bare_kernel_def null_pcb_def env_ok_def env_fit_def uniq_def
      fits_def getEnv_def bytes_def uniq_replicate find_key_None)

end
