(* ===== verification/PageFault.thy ===== *)
theory PageFault
  imports Process
begin

text \<open>
  Page faults and user memory, from \<^verbatim>\<open>sys/paging.c\<close>: the handler \<open>pagefault_handler\<close>, which
  gives a process its own copy of a page shared by \<^verbatim>\<open>fork\<close> or a zeroed page of its heap, stack or
  data, and \<open>init_mmap\<close> and \<open>mmap\<close>, its heap. From \<^verbatim>\<open>sys/paging_helper.c\<close>: loading \<^verbatim>\<open>cr3\<close>.
\<close>

unbundle bit_operations_syntax

section \<open>Definitions\<close>

text \<open>The types of an area, from \<^verbatim>\<open>include/sys/elf64.h\<close>.\<close>

abbreviation (input) TEXT :: u64 where "TEXT \<equiv> 0"
abbreviation (input) DATA :: u64 where "DATA \<equiv> 1"
abbreviation (input) HEAP :: u64 where "HEAP \<equiv> 2"
abbreviation (input) STACK :: u64 where "STACK \<equiv> 3"

text \<open>\<open>load_CR3\<close> also moves the bitmap's pointer to the direct map, which the model does not see.\<close>

definition load_CR3 :: "'a paging_scheme \<Rightarrow> 'a paging_scheme" where
  "load_CR3 st =
     (let pml4_addr = g_cr3 st;
          st = st\<lparr>reg_cr3 := pml4_addr\<rparr>
      in st\<lparr>g_pml4 := kaddr (g_pml4 st)\<rparr>)"

definition set_CR3 :: "u64 \<Rightarrow> 'a paging_scheme \<Rightarrow> 'a paging_scheme" where
  "set_CR3 pml4_addr st = st\<lparr>reg_cr3 := pml4_addr\<rparr>"

definition get_CR3_address :: "'a paging_scheme \<Rightarrow> u64" where
  "get_CR3_address st = reg_cr3 st"

text \<open>
  Copying a page from a user address: the processor reads it through the current tables. A page
  that is not mapped is a fault inside the handler, \<open>None\<close>.
\<close>

definition memcpy_from_user :: "u64 \<Rightarrow> u64 \<Rightarrow> 'a paging_scheme \<Rightarrow> 'a paging_scheme option" where
  "memcpy_from_user src dst st =
     (case translate (pm st) (reg_cr3 st) src of
        None \<Rightarrow> None
      | Some e \<Rightarrow> Some (memcpy_page (kaddr (remove_flag e)) dst st))"

text \<open>
  The walk over the areas. An area that contains the address but is neither heap, stack nor
  data is looked at again and again.
\<close>

partial_function (option) area_loop :: "u64 \<Rightarrow> u64 \<Rightarrow> kernel \<Rightarrow> kernel option" where
  "area_loop v fault_addr st =
     (if v \<noteq> 0 then
        if vm_start (vmas st v) \<le> fault_addr \<and> fault_addr \<le> vm_end (vmas st v) then
          if vm_type (vmas st v) = HEAP \<or> vm_type (vmas st v) = STACK \<or> vm_type (vmas st v) = DATA then
            (let (st, new_page) = allocate_virt_page st;
                 st = st\<lparr>virt_addr := KERNEL_ADDR OR new_page\<rparr>;
                 st = memset_page (virt_addr st) st
             in Some (map_phys_to_user_virt_addr fault_addr new_page (cr3 (pcbs st (curr_process st))) st))
          else area_loop v fault_addr st
        else area_loop (vm_next (vmas st v)) fault_addr st
      else Some st)"

text \<open>\<open>cr2\<close> is the faulting address; \<open>sys_exit\<close> does not come back.\<close>

definition pagefault_handler :: "u64 \<Rightarrow> u64 \<Rightarrow> u64 \<Rightarrow> kernel \<Rightarrow> kernel option" where
  "pagefault_handler schedule_sbush sp cr2 st =
     (let fault_addr = remove_flag cr2;
          phys_addr = virt_to_phys fault_addr st;
          m = mm (pcbs st (curr_process st));
          v = mm_vma (mms st m)
      in if m = 0 then None
         else if phys_addr \<noteq> 999 \<and> phys_addr \<noteq> 0 then do {
           let (st, new_page) = allocate_virt_page st;
           let st = st\<lparr>virt_addr := KERNEL_ADDR OR new_page\<rparr>;
           st \<leftarrow> memcpy_from_user fault_addr (virt_addr st) st;
           let st = map_phys_to_user_virt_addr fault_addr new_page (cr3 (pcbs st (curr_process st))) st;
           Some (set_CR3 (cr3 (pcbs st (curr_process st))) st)
         }
         else if v \<noteq> 0 then do {
           st \<leftarrow> area_loop v fault_addr st;
           Some (set_CR3 (cr3 (pcbs st (curr_process st))) st)
         }
         else if phys_addr = 999 \<or> v = 0 then
           sys_exit schedule_sbush sp (print (bytes ''Segmentation fault'' @ [10]) st)
         else Some (set_CR3 (cr3 (pcbs st (curr_process st))) st))"

text \<open>The walk of \<open>init_mmap\<close> to the heap area follows a NULL pointer when there is none.\<close>

partial_function (option) heap_area :: "u64 \<Rightarrow> kernel \<Rightarrow> u64 option" where
  "heap_area v st =
     (if v = 0 then None
      else if vm_type (vmas st v) \<noteq> HEAP then heap_area (vm_next (vmas st v)) st
      else Some v)"

definition init_mmap :: "u64 \<Rightarrow> kernel \<Rightarrow> kernel option" where
  "init_mmap proc st = do {
     let (st, phy_addr) = allocate_virt_page st;
     let virt = HEAP_ADDR;
     let st = map_phys_to_user_virt_addr virt phy_addr (cr3 (pcbs st proc)) st;
     let m = mm (pcbs st proc);
     v \<leftarrow> (if m = 0 then None else heap_area (mm_vma (mms st m)) st);
     let st = st\<lparr>vmas := (vmas st)(v := (vmas st v)\<lparr>vm_start := virt\<rparr>)\<rparr>;
     let st = st\<lparr>vmas := (vmas st)(v := (vmas st v)\<lparr>vm_end := HEAP_END\<rparr>)\<rparr>;
     let st = st\<lparr>mms := (mms st)(m := (mms st m)\<lparr>mmap_start_addr := virt\<rparr>)\<rparr>;
     let st = st\<lparr>mms := (mms st)(m := (mms st m)\<lparr>mmap_end_addr := HEAP_END\<rparr>)\<rparr>;
     Some (st\<lparr>mms := (mms st)(m := (mms st m)\<lparr>mmap_alloc_addr := virt\<rparr>)\<rparr>)
   }"

text \<open>
  \<open>mmap\<close>: the next block of the heap, cleared (\<open>mem\<close> is memory as the process sees it). The
  comparison is unsigned, so a negative size is a huge one. With no room the next address is
  returned all the same. The step gives the block to clear.
\<close>

definition clear_bytes :: "u64 \<Rightarrow> nat \<Rightarrow> mem \<Rightarrow> mem" where
  "clear_bytes a n m = write_bytes m a (replicate n 0)"

definition mmap_step :: "cint \<Rightarrow> kernel \<Rightarrow> (kernel \<times> u64 \<times> nat) option" where
  "mmap_step sz st =
     (let a = mm (pcbs st (curr_process st));
          ending_addr = mmap_end_addr (mms st a);
          starting_addr = mmap_alloc_addr (mms st a)
      in if a = 0 then None
         else if of_int sz \<le> ending_addr - starting_addr then
           Some (st\<lparr>mms := (mms st)(a := (mms st a)\<lparr>mmap_alloc_addr := mmap_alloc_addr (mms st a) + of_int sz\<rparr>)\<rparr>,
             starting_addr, unat (of_int sz :: u32))
         else Some (st, starting_addr, 0))"

definition mmap :: "cint \<Rightarrow> mem \<Rightarrow> kernel \<Rightarrow> (mem \<times> kernel \<times> u64) option" where
  "mmap sz m st = map_option (\<lambda>(st, a, n). (clear_bytes a n m, st, a)) (mmap_step sz st)"

section \<open>The memory manager and the kernel's objects\<close>

text \<open>No operation of the memory manager changes an object or a global of the kernel.\<close>

lemma same_objs:
  assumes "paging.more st' = paging.more st"
  shows "vmas st' = vmas st" "mms st' = mms st" "pcbs st' = pcbs st" "processID st' = processID st"
    "first_process st' = first_process st" "curr_process st' = curr_process st" "next_process st' = next_process st"
    "stopped_process st' = stopped_process st" "forked_process st' = forked_process st" "zombie st' = zombie st"
    "rsp_pointer st' = rsp_pointer st" "tss_rsp0 st' = tss_rsp0 st" "global_tarfs st' = global_tarfs st"
    "file_count st' = file_count st" "out st' = out st"
  using assms by (cases st; cases st'; simp)+

lemma allocate_virt_page_more: "allocate_virt_page st = (st', a) \<Longrightarrow> paging.more st' = paging.more st"
  by (auto simp: allocate_virt_page_def Let_def)

lemma memset_page_more [simp]: "paging.more (memset_page a st) = paging.more st"
  by (simp add: memset_page_def)

lemma memcpy_page_more [simp]: "paging.more (memcpy_page a b st) = paging.more st"
  by (simp add: memcpy_page_def)

lemma wr_more [simp]: "paging.more (wr a v st) = paging.more st"
  by (simp add: wr_def)

lemma level_virt_more: "level_virt fl t i st = (st', c) \<Longrightarrow> paging.more st' = paging.more st"
  by (auto simp: level_virt_def Let_def allocate_virt_page_more split: if_splits prod.splits)

lemma map_phys_to_virt_addr_more [simp]: "paging.more (map_phys_to_virt_addr va phys st) = paging.more st"
  by (auto simp: map_phys_to_virt_addr_def Let_def simp del: level_virt_globals dest!: level_virt_more split: prod.split)

lemma map_phys_to_user_virt_addr_more [simp]: "paging.more (map_phys_to_user_virt_addr va phys r st) = paging.more st"
  by (auto simp: map_phys_to_user_virt_addr_def Let_def simp del: level_virt_globals allocate_virt_page_globals
      dest!: level_virt_more allocate_virt_page_more split: prod.split)

lemma kmalloc_loop_more: "kmalloc_loop n i ret st = (st', a) \<Longrightarrow> paging.more st' = paging.more st"
  by (induction n arbitrary: i ret st) (auto simp: Let_def allocate_virt_page_more split: prod.splits)

lemma kmalloc_more: "kmalloc sz st = (st', a) \<Longrightarrow> paging.more st' = paging.more st"
  by (simp add: kmalloc_def kmalloc_loop_more)

section \<open>A fresh page for a process\<close>

text \<open>Taking a frame and writing only into it.\<close>

lemma take_frame:
  assumes inv: "table_inv (pm st) (avail st) r L" and ne: "avail st \<noteq> {}"
    and b: "allocate_virt_page st = (s, b)" and h: "\<forall>x. remove_flag x \<noteq> b \<longrightarrow> h x = pm st x"
  shows "table_inv h (avail st - {b}) r L" "translate h r va = translate (pm st) r va"
    "path_cost h r va = path_cost (pm st) r va" "b \<in> avail st" "avail s = avail st - {b}" "pm s = pm st" "L b = None"
    "reg_cr3 s = reg_cr3 st"
proof -
  note alloc = allocate_virt_page_avail [OF ne b]
  have wf: "wf_tables (pm st) r L" by (rule table_inv_wf [OF inv])
  have root: "L r = Some (length (indices va))" using wf_tables_root [OF wf] by (simp add: indices_def)
  show "L b = None" by (rule table_inv_free [OF inv alloc(1)])
  note leaf = data_write_leaf_of(1) [OF wf h [rule_format] this root indices_less]
  have g: "grows r (pm st) (avail st) L h (avail st - {b}) L"
    by (rule grows_take [OF grows_refl [OF inv] alloc(1) h [rule_format]])
  show "table_inv h (avail st - {b}) r L" by (rule grows_inv [OF g])
  show "translate h r va = translate (pm st) r va" by (rule grows_translate [OF g])
  show "path_cost h r va = path_cost (pm st) r va" by (simp add: path_cost_def leaf)
  show "b \<in> avail st" "avail s = avail st - {b}" by (fact alloc(1), fact alloc(3))
  show "pm s = pm st" "reg_cr3 s = reg_cr3 st" by (subst alloc(4), simp)+
qed

text \<open>
  The way a process gets a page: a frame is taken and filled, and mapping it copies it into a second
  one. The first is neither free nor mapped by this afterwards.
\<close>

definition fresh_page :: "u64 \<Rightarrow> u64 \<Rightarrow> (u64 \<Rightarrow> u64) \<Rightarrow> kernel \<Rightarrow> kernel \<Rightarrow> bool" where
  "fresh_page r va content st st' \<longleftrightarrow>
     (\<exists>a b. a \<in> avail st \<and> b \<in> avail st \<and> a \<noteq> b \<and> avail st' \<subseteq> avail st - {a, b} \<and>
        (\<forall>va'. translate (pm st') r va' = (if indices va' = indices va then Some (a OR 7) else translate (pm st) r va')) \<and>
        (\<forall>i<512. pm st' (slot a i) = content i)) \<and>
     (\<exists>L'. table_inv (pm st') (avail st') r L') \<and>
     card (avail st) \<le> card (avail st') + path_cost (pm st) r va + 2 \<and>
     paging.more st' = paging.more st \<and> reg_cr3 st' = reg_cr3 st"

lemma fresh_user_page:
  fixes st :: kernel
  assumes inv: "table_inv (pm st) (avail st) r L" and n: "path_cost (pm st) r va + 2 \<le> card (avail st)"
    and b: "allocate_virt_page st = (s, b)" and h: "\<forall>x. remove_flag x \<noteq> b \<longrightarrow> h x = pm st x"
    and s2: "pm s2 = h" "avail s2 = avail s" "reg_cr3 s2 = reg_cr3 s" "paging.more s2 = paging.more s"
    and content: "\<forall>i<512. h (slot b i) = content i"
    and st': "st' = map_phys_to_user_virt_addr va b r s2"
  obtains L' where "fresh_page r va content st st'" "dom L' \<subseteq> dom L \<union> avail st" "table_inv (pm st') (avail st') r L'"
    "\<forall>x. remove_flag x \<notin> dom L \<and> remove_flag x \<notin> avail st \<longrightarrow> pm st' x = pm st x"
    "\<forall>a \<in> avail st. translate (pm st') r va = Some (a OR 7) \<longrightarrow> L' a = None"
    "\<forall>va' y. leaf_of (pm st) r (indices va') = Some y \<longrightarrow> leaf_of (pm st') r (indices va') = Some y"
proof -
  have ne: "avail st \<noteq> {}" using n by auto
  note t = take_frame [OF inv ne b h]
  have b_low: "page_aligned b" "unat b < 2 ^ 26" using t(4) by (simp_all add: avail_def)
  have inv2: "table_inv (pm s2) (avail s2) r L" using t(1) by (simp add: s2 t(5))
  have c: "card (avail st) = Suc (card (avail s2))"
    unfolding s2(2) t(5) using t(4) by (metis card.remove finite_avail)
  have cost: "path_cost (pm s2) r va = path_cost (pm st) r va" using t(3) by (simp add: s2(1))
  have n2: "path_cost (pm s2) r va + 1 \<le> card (avail s2)" using n c cost by simp
  have fr: "b \<notin> dom L" "b \<notin> avail s2" using t(5,7) by (auto simp: s2(2))
  obtain L' a where a: "a \<in> avail s2" "a \<notin> avail st'" and
    m: "maps_page r va (a OR 7) (pm s2) (avail s2) L (pm st') (avail st') L'" and "L' a = None" and
    cp: "\<forall>i < 512. pm st' (slot a i) = pm s2 (slot b i)" and
    cd: "card (avail s2) \<le> card (avail st') + path_cost (pm s2) r va + 1" and "reg_cr3 st' = reg_cr3 s2"
    by (rule map_phys_to_user_virt_addr_maps [OF inv2 n2 b_low fr st'])
  have more: "paging.more st' = paging.more st"
    by (simp add: st' s2(4) allocate_virt_page_more [OF b])
  have av: "avail st' \<subseteq> avail st - {a, b}" using maps_page_pool [OF m] a t(5) by (auto simp: s2(2))
  have tr: "translate (pm st') r va' = (if indices va' = indices va then Some (a OR 7) else translate (pm st) r va')" for va'
    using maps_page_translate [OF m, of va'] t(2) by (simp add: s2(1))
  have fp: "fresh_page r va content st st'"
    unfolding fresh_page_def
  proof (intro conjI)
    show "\<exists>a b. a \<in> avail st \<and> b \<in> avail st \<and> a \<noteq> b \<and> avail st' \<subseteq> avail st - {a, b} \<and>
        (\<forall>va'. translate (pm st') r va' = (if indices va' = indices va then Some (a OR 7) else translate (pm st) r va')) \<and>
        (\<forall>i<512. pm st' (slot a i) = content i)"
      using a t(4,5) av tr cp content by (intro exI [of _ a] exI [of _ b]) (auto simp: s2(1,2))
    show "\<exists>L'. table_inv (pm st') (avail st') r L'" using maps_page_inv [OF m] by blast
    show "card (avail st) \<le> card (avail st') + path_cost (pm st) r va + 2" using c cd cost by simp
    show "paging.more st' = paging.more st" by (fact more)
    show "reg_cr3 st' = reg_cr3 st" using \<open>reg_cr3 st' = reg_cr3 s2\<close> t(8) by (simp add: s2(3))
  qed
  have dom: "dom L' \<subseteq> dom L \<union> avail st" using maps_page_dom [OF m] t(5) by (auto simp: s2(2))
  have keep: "\<forall>x. remove_flag x \<notin> dom L \<and> remove_flag x \<notin> avail st \<longrightarrow> pm st' x = pm st x"
  proof (intro allI impI, elim conjE)
    fix x assume x: "remove_flag x \<notin> dom L" "remove_flag x \<notin> avail st"
    then have "remove_flag x \<notin> avail s2" "remove_flag x \<noteq> b" using t(4,5) by (auto simp: s2(2))
    then show "pm st' x = pm st x" using maps_page_data [OF m x(1)] h by (simp add: s2(1))
  qed
  have data: "L' a' = None" if "a' \<in> avail st" "translate (pm st') r va = Some (a' OR 7)" for a'
  proof -
    have "a OR 7 = a' OR 7" using tr [of va] that(2) by simp
    moreover have "page_aligned a" "page_aligned a'" using a(1) that(1) t(5) by (simp_all add: avail_def s2(2))
    moreover have "(7 :: u64) < 4096" by simp
    ultimately have "a = a'" using remove_flag_or by metis
    with \<open>L' a = None\<close> show ?thesis by simp
  qed
  have leaves: "leaf_of (pm st') r (indices va') = Some y" if "leaf_of (pm st) r (indices va') = Some y" for va' y
  proof (rule maps_page_leaves [OF m])
    have wf: "wf_tables (pm st) r L" by (rule table_inv_wf [OF inv])
    have "L r = Some (length (indices va'))" using wf_tables_root [OF wf] by (simp add: indices_def)
    from data_write_leaf_of(1) [OF wf h [rule_format] t(7) this indices_less] that
    show "leaf_of (pm s2) r (indices va') = Some y" by (simp add: s2(1))
  qed
  show ?thesis
  proof (rule that [OF fp dom maps_page_inv [OF m] keep])
    show "\<forall>a\<in>avail st. translate (pm st') r va = Some (a OR 7) \<longrightarrow> L' a = None"
      using data by blast
    show "\<forall>va' y. leaf_of (pm st) r (indices va') = Some y \<longrightarrow> leaf_of (pm st') r (indices va') = Some y"
      using leaves by blast
  qed
qed

section \<open>The handler\<close>

lemma area_loop_find:
  "vlist (vmas st) v vs \<Longrightarrow> find (\<lambda>q. vm_start (vmas st q) \<le> fa \<and> fa \<le> vm_end (vmas st q)) vs = Some q \<Longrightarrow>
    area_loop v fa st = area_loop q fa st"
proof (induction vs arbitrary: v)
  case (Cons p vs)
  show ?case
  proof (cases "vm_start (vmas st p) \<le> fa \<and> fa \<le> vm_end (vmas st p)")
    case False
    then have "area_loop v fa st = area_loop (vm_next (vmas st p)) fa st"
      using Cons.prems(1) by (subst area_loop.simps) auto
    with False Cons show ?thesis by (auto split: if_splits)
  qed (use Cons.prems in auto)
qed simp

lemma find_in_area:
  "find (\<lambda>q. vm_start (h q) \<le> fa \<and> fa \<le> vm_end (h q)) vs = Some q \<Longrightarrow>
    q \<in> set vs \<and> vm_start (h q) \<le> fa \<and> fa \<le> vm_end (h q)"
  by (auto simp: find_Some_iff)

lemma vlist_not_0: "vlist h p vs \<Longrightarrow> 0 \<notin> set vs"
  by (induction vs arbitrary: p) auto

lemma area_loop_none:
  "vlist (vmas st) v vs \<Longrightarrow> find (\<lambda>q. vm_start (vmas st q) \<le> fa \<and> fa \<le> vm_end (vmas st q)) vs = None \<Longrightarrow>
    area_loop v fa st = Some st"
proof (induction vs arbitrary: v)
  case Nil
  then show ?case by (subst area_loop.simps) simp
next
  case (Cons p vs)
  then have "area_loop v fa st = area_loop (vm_next (vmas st p)) fa st"
    by (subst area_loop.simps) (auto split: if_splits)
  with Cons show ?case by (simp split: if_splits)
qed

text \<open>An area of another type is looked at for ever.\<close>

lemma area_loop_stuck:
  assumes "q \<noteq> 0" "vm_start (vmas st q) \<le> fa" "fa \<le> vm_end (vmas st q)"
    "vm_type (vmas st q) \<noteq> HEAP" "vm_type (vmas st q) \<noteq> STACK" "vm_type (vmas st q) \<noteq> DATA"
  shows "area_loop q fa st = None"
proof -
  have "\<not> (v = q \<and> f = fa \<and> s = st)" if "area_loop v f s = Some r" for v f s r
    using _ that
  proof (rule area_loop.raw_induct [of "\<lambda>v f s r. \<not> (v = q \<and> f = fa \<and> s = st)"])
    fix loop :: "u64 \<Rightarrow> u64 \<Rightarrow> kernel \<Rightarrow> kernel option" and v f s r
    assume "\<And>v f s r. loop v f s = Some r \<Longrightarrow> \<not> (v = q \<and> f = fa \<and> s = st)"
    then have "loop q fa st = None" by (cases "loop q fa st") auto
    moreover assume "(if v \<noteq> 0 then
        if vm_start (vmas s v) \<le> f \<and> f \<le> vm_end (vmas s v) then
          if vm_type (vmas s v) = HEAP \<or> vm_type (vmas s v) = STACK \<or> vm_type (vmas s v) = DATA then
            (let (st, new_page) = allocate_virt_page s;
                 st = st\<lparr>virt_addr := KERNEL_ADDR OR new_page\<rparr>;
                 st = memset_page (virt_addr st) st
             in Some (map_phys_to_user_virt_addr f new_page (cr3 (pcbs st (curr_process st))) st))
          else loop v f s
        else loop (vm_next (vmas s v)) f s
      else Some s) = Some r"
    ultimately show "\<not> (v = q \<and> f = fa \<and> s = st)" using assms by auto
  qed
  then show ?thesis by (cases "area_loop q fa st") auto
qed

lemma indices_remove_flag: "indices (remove_flag va) = indices va"
  by (simp add: indices_def get_index_remove_flag)

lemma pagefault_area_spec:
  assumes inv: "table_inv (pm st) (avail st) (reg_cr3 st) L" and cr3: "cr3 (pcbs st (curr_process st)) = reg_cr3 st"
    and m: "mm (pcbs st (curr_process st)) \<noteq> 0" "vlist (vmas st) (mm_vma (mms st (mm (pcbs st (curr_process st))))) vs"
    and q: "find (\<lambda>q. vm_start (vmas st q) \<le> remove_flag cr2 \<and> remove_flag cr2 \<le> vm_end (vmas st q)) vs = Some q"
      "vm_type (vmas st q) \<in> {HEAP, STACK, DATA}"
    and un: "translate (pm st) (reg_cr3 st) cr2 = None"
    and n: "path_cost (pm st) (reg_cr3 st) cr2 + 2 \<le> card (avail st)"
  shows "\<exists>st'. pagefault_handler x sp cr2 st = Some st' \<and> fresh_page (reg_cr3 st) cr2 (\<lambda>_. 0) st st'"
proof -
  let ?fa = "remove_flag cr2" and ?r = "reg_cr3 st" and ?v = "mm_vma (mms st (mm (pcbs st (curr_process st))))"
  have tr: "translate (pm st) ?r ?fa = None" using un by (simp add: translate_def indices_remove_flag)
  have phys: "virt_to_phys ?fa st = 0" using virt_to_phys_eq [OF inv, of ?fa] tr by simp
  have q0: "q \<noteq> 0" "vm_start (vmas st q) \<le> ?fa" "?fa \<le> vm_end (vmas st q)"
    using find_in_area [OF q(1)] vlist_not_0 [OF m(2)] by auto
  have v0: "?v \<noteq> 0" using m(2) q(1) by (cases vs) auto
  obtain s b where b: "allocate_virt_page st = (s, b)" by fastforce
  have ne: "avail st \<noteq> {}" using n by auto
  note al = allocate_virt_page_avail [OF ne b]
  have b_low: "unat b < 2 ^ 31" "page_aligned b" using al(1) by (simp_all add: avail_def)
  define s2 where "s2 = memset_page (KERNEL_ADDR OR b) (s\<lparr>virt_addr := KERNEL_ADDR OR b\<rparr>)"
  define st' where "st' = map_phys_to_user_virt_addr ?fa b ?r s2"
  have pms: "pm s = pm st" by (subst al(4)) simp
  have s2: "pm s2 = clear_page (pm st) b" "avail s2 = avail s" "reg_cr3 s2 = reg_cr3 s" "paging.more s2 = paging.more s"
    using b_low kphys_kaddr [of b] by (simp_all add: s2_def memset_page_def pms kaddr_def [symmetric] avail_def)
  have n': "path_cost (pm st) ?r ?fa + 2 \<le> card (avail st)" using n by (simp add: path_cost_def indices_remove_flag)
  have "\<forall>x. remove_flag x \<noteq> b \<longrightarrow> clear_page (pm st) b x = pm st x" by (simp add: clear_page_def)
  moreover have "\<forall>i<512. clear_page (pm st) b (slot b i) = 0"
    using remove_flag_slot [OF b_low(2)] by (simp add: clear_page_def)
  ultimately have "fresh_page ?r ?fa (\<lambda>_. 0) st st'"
    by (rule fresh_user_page [OF inv n' b _ s2 _ st'_def])
  then have fp: "fresh_page ?r cr2 (\<lambda>_. 0) st st'" by (simp add: fresh_page_def path_cost_def indices_remove_flag)
  then have more: "paging.more st' = paging.more st" and r': "reg_cr3 st' = reg_cr3 st" by (simp_all add: fresh_page_def)
  have pc: "pcbs s2 = pcbs st" "curr_process s2 = curr_process st"
    using same_objs [of s2 st] s2(4) allocate_virt_page_more [OF b] by simp_all
  have "area_loop ?v ?fa st = area_loop q ?fa st" by (rule area_loop_find [OF m(2) q(1)])
  also have "\<dots> = Some st'"
    using q0 q(2) pc by (subst area_loop.simps) (auto simp: b Let_def st'_def s2_def cr3)
  finally have "area_loop ?v ?fa st = Some st'" .
  moreover have "set_CR3 (cr3 (pcbs st' (curr_process st'))) st' = st'"
    using cr3 r' same_objs [OF more] by (simp add: set_CR3_def)
  ultimately have "pagefault_handler x sp cr2 st = Some st'"
    using m(1) phys v0 by (simp add: pagefault_handler_def Let_def)
  with fp show ?thesis by blast
qed

lemma pagefault_cow_spec:
  assumes inv: "table_inv (pm st) (avail st) (reg_cr3 st) L" and cr3: "cr3 (pcbs st (curr_process st)) = reg_cr3 st"
    and m: "mm (pcbs st (curr_process st)) \<noteq> 0"
    and e: "translate (pm st) (reg_cr3 st) cr2 = Some e" "e AND COW \<noteq> 0" "src = remove_flag e" "src \<noteq> 0" "unat src < 2 ^ 31"
    and n: "path_cost (pm st) (reg_cr3 st) cr2 + 2 \<le> card (avail st)" and data: "src \<notin> dom L" "src \<notin> avail st"
  shows "\<exists>st'. pagefault_handler x sp cr2 st = Some st' \<and>
    fresh_page (reg_cr3 st) cr2 (\<lambda>i. pm st (slot src i)) st st' \<and> (\<forall>i<512. pm st' (slot src i) = pm st (slot src i)) \<and>
    (\<forall>x. remove_flag x \<notin> dom L \<and> remove_flag x \<notin> avail st \<longrightarrow> pm st' x = pm st x)"
proof -
  let ?fa = "remove_flag cr2" and ?r = "reg_cr3 st" and ?v = "mm_vma (mms st (mm (pcbs st (curr_process st))))"
  have tr: "translate (pm st) ?r ?fa = Some e" using e(1) by (simp add: translate_def indices_remove_flag)
  have src: "page_aligned src" using e(3) by simp
  have "src \<noteq> 999" using src by (auto simp: page_aligned_def)
  then have phys: "virt_to_phys ?fa st \<noteq> 999" "virt_to_phys ?fa st \<noteq> 0"
    using virt_to_phys_eq [OF inv, of ?fa] tr e(2,4) by (simp_all add: e(3) [symmetric])
  obtain s b where b: "allocate_virt_page st = (s, b)" by fastforce
  have ne: "avail st \<noteq> {}" using n by auto
  note al = allocate_virt_page_avail [OF ne b]
  have b_low: "unat b < 2 ^ 31" "page_aligned b" using al(1) by (simp_all add: avail_def)
  define h where "h = (\<lambda>y. if remove_flag y = b then pm st (y - b + src) else pm st y)"
  define s2 where "s2 = memcpy_page (kaddr src) (KERNEL_ADDR OR b) (s\<lparr>virt_addr := KERNEL_ADDR OR b\<rparr>)"
  define st' where "st' = map_phys_to_user_virt_addr ?fa b ?r s2"
  have pms: "pm s = pm st" "reg_cr3 s = ?r" by (subst al(4), simp)+
  have kb: "kphys (KERNEL_ADDR OR b) = b" using b_low kphys_kaddr [of b] by (simp add: kaddr_def)
  have s2: "pm s2 = h" "avail s2 = avail s" "reg_cr3 s2 = reg_cr3 s" "paging.more s2 = paging.more s"
    using e(5) by (simp_all add: s2_def memcpy_page_def pms kb kphys_kaddr avail_def h_def cong: if_cong)
  have n': "path_cost (pm st) ?r ?fa + 2 \<le> card (avail st)" using n by (simp add: path_cost_def indices_remove_flag)
  have hx: "\<forall>x. remove_flag x \<noteq> b \<longrightarrow> h x = pm st x" by (simp add: h_def)
  have "\<forall>i<512. h (slot b i) = pm st (slot src i)"
    using remove_flag_slot [OF b_low(2)] by (simp add: h_def slot_def add.commute)
  from fresh_user_page [OF inv n' b hx s2 this st'_def] obtain L' where
    f: "fresh_page ?r ?fa (\<lambda>i. pm st (slot src i)) st st'" and
    keep: "\<forall>x. remove_flag x \<notin> dom L \<and> remove_flag x \<notin> avail st \<longrightarrow> pm st' x = pm st x" by blast
  have fp: "fresh_page ?r cr2 (\<lambda>i. pm st (slot src i)) st st'"
    using f by (simp add: fresh_page_def path_cost_def indices_remove_flag)
  then have more: "paging.more st' = paging.more st" and r': "reg_cr3 st' = reg_cr3 st" by (simp_all add: fresh_page_def)
  have pc: "pcbs s2 = pcbs st" "curr_process s2 = curr_process st"
    using same_objs [of s2 st] s2(4) allocate_virt_page_more [OF b] by simp_all
  have "memcpy_from_user ?fa (KERNEL_ADDR OR b) (s\<lparr>virt_addr := KERNEL_ADDR OR b\<rparr>) = Some s2"
    using tr by (simp add: memcpy_from_user_def pms s2_def e(3))
  moreover have "set_CR3 (cr3 (pcbs st' (curr_process st'))) st' = st'"
    using cr3 r' same_objs [OF more] by (simp add: set_CR3_def)
  ultimately have "pagefault_handler x sp cr2 st = Some st'"
    using m phys by (simp add: pagefault_handler_def Let_def b pc cr3 st'_def [symmetric])
  moreover have "\<forall>i<512. pm st' (slot src i) = pm st (slot src i)"
    using keep remove_flag_slot [OF src] data by simp
  ultimately show ?thesis using fp keep by blast
qed

section \<open>Properties\<close>

text \<open>A process with a text area, a heap and a stack, over the tables of the paging example.\<close>

definition demo_fault :: "u64 \<Rightarrow> kernel" where
  "demo_fault e = (bare_kernel (demo_mapped e))
     \<lparr>curr_process := 0x10, pcbs := (\<lambda>_. null_pcb)(0x10 := null_pcb\<lparr>pid := 2, cr3 := 0x1000, mm := 0x20\<rparr>),
      mms := (\<lambda>_. null_mm)(0x20 := null_mm\<lparr>mm_vma := 0x30\<rparr>),
      vmas := (\<lambda>_. null_vma)(0x30 := null_vma\<lparr>vm_start := 0x400000, vm_end := 0x401000, vm_next := 0x40, vm_type := TEXT\<rparr>,
        0x40 := null_vma\<lparr>vm_start := HEAP_ADDR, vm_end := HEAP_END, vm_next := 0, vm_type := HEAP\<rparr>)\<rparr>"

lemma demo_fault_simps [simp]:
  "pm (demo_fault e) = pm (demo_mapped e)" "avail (demo_fault e) = avail demo" "reg_cr3 (demo_fault e) = 0x1000"
  "curr_process (demo_fault e) = 0x10" "mm (pcbs (demo_fault e) 0x10) = 0x20" "cr3 (pcbs (demo_fault e) 0x10) = 0x1000"
  "mm_vma (mms (demo_fault e) 0x20) = 0x30" "vlist (vmas (demo_fault e)) 0x30 [0x30, 0x40]"
  "vmas (demo_fault e) 0x30 = null_vma\<lparr>vm_start := 0x400000, vm_end := 0x401000, vm_next := 0x40, vm_type := TEXT\<rparr>"
  "vmas (demo_fault e) 0x40 = null_vma\<lparr>vm_start := HEAP_ADDR, vm_end := HEAP_END, vm_next := 0, vm_type := HEAP\<rparr>"
  by (simp_all add: demo_fault_def demo_mapped_def bare_kernel_def avail_def)



text \<open>C25: A fault on a page that \<^verbatim>\<open>fork\<close> shared (bit 9 of its entry): the handler gives the process a private,
  writable copy of it in a frame that was free, whatever areas the process has; the shared frame keeps
  its contents, and nothing else changes.\<close>

theorem pagefault_copy:
  assumes "table_inv (pm st) (avail st) (reg_cr3 st) L" "cr3 (pcbs st (curr_process st)) = reg_cr3 st"
    and "mm (pcbs st (curr_process st)) \<noteq> 0"
    and "translate (pm st) (reg_cr3 st) cr2 = Some e" "e AND 0x200 \<noteq> 0" "src = remove_flag e" "src \<noteq> 0" "unat src < 2 ^ 31"
    and "path_cost (pm st) (reg_cr3 st) cr2 + 2 \<le> card (avail st)" and "src \<notin> dom L" "src \<notin> avail st"
  shows "\<exists>st' a. pagefault_handler schedule_sbush sp cr2 st = Some st' \<and> a \<in> avail st \<and> a \<notin> avail st' \<and>
    (\<forall>va. translate (pm st') (reg_cr3 st) va = (if indices va = indices cr2 then Some (a OR 7) else translate (pm st) (reg_cr3 st) va)) \<and>
    (\<forall>i<512. pm st' (slot a i) = pm st (slot src i) \<and> pm st' (slot src i) = pm st (slot src i)) \<and>
    paging.more st' = paging.more st \<and> reg_cr3 st' = reg_cr3 st"
  using pagefault_cow_spec [OF assms, of schedule_sbush sp] unfolding fresh_page_def by blast

theorem pagefault_copy_witness:
  "\<exists>st' a. pagefault_handler 0 0 0xFFFFFFFF80005000 (demo_fault 0xC203) = Some st' \<and> a \<noteq> 0xC000 \<and>
     translate (pm st') 0x1000 0xFFFFFFFF80005000 = Some (a OR 7)"
proof -
  have p: "present 0xC203" by (simp add: present_def)
  note facts = demo_mapped_facts [OF p]
  have "\<exists>st' a. pagefault_handler 0 0 0xFFFFFFFF80005000 (demo_fault 0xC203) = Some st' \<and>
    a \<in> avail (demo_fault 0xC203) \<and> a \<notin> avail st' \<and>
    (\<forall>va. translate (pm st') (reg_cr3 (demo_fault 0xC203)) va =
       (if indices va = indices 0xFFFFFFFF80005000 then Some (a OR 7)
        else translate (pm (demo_fault 0xC203)) (reg_cr3 (demo_fault 0xC203)) va)) \<and>
    (\<forall>i<512. pm st' (slot a i) = pm (demo_fault 0xC203) (slot 0xC000 i) \<and>
       pm st' (slot 0xC000 i) = pm (demo_fault 0xC203) (slot 0xC000 i)) \<and>
    paging.more st' = paging.more (demo_fault 0xC203) \<and> reg_cr3 st' = reg_cr3 (demo_fault 0xC203)"
    by (rule pagefault_copy [where L = demo_levels and e = "0xC203"])
      (use facts in \<open>simp_all add: demo_card path_cost_def remove_flag_def demo_levels_def dom_def demo_avail\<close>)
  then show ?thesis by (force simp: demo_avail)
qed

text \<open>C26: The other faults. On an address in an area that is not heap, stack or data the handler never
  returns; on an address in no area it returns without mapping anything, so that the faulting
  instruction faults again for ever: a process with areas never gets the segmentation fault.\<close>

theorem pagefault_unhandled:
  assumes "table_inv (pm st) (avail st) (reg_cr3 st) L" "cr3 (pcbs st (curr_process st)) = reg_cr3 st"
    and "mm (pcbs st (curr_process st)) \<noteq> 0" "vlist (vmas st) (mm_vma (mms st (mm (pcbs st (curr_process st))))) vs" "vs \<noteq> []"
    and "translate (pm st) (reg_cr3 st) cr2 = None"
  shows "case find (\<lambda>q. vm_start (vmas st q) \<le> remove_flag cr2 \<and> remove_flag cr2 \<le> vm_end (vmas st q)) vs of
      None \<Rightarrow> pagefault_handler schedule_sbush sp cr2 st = Some st
    | Some q \<Rightarrow> vm_type (vmas st q) \<in> {HEAP, STACK, DATA} \<or> pagefault_handler schedule_sbush sp cr2 st = None"
proof -
  let ?v = "mm_vma (mms st (mm (pcbs st (curr_process st))))" and ?fa = "remove_flag cr2"
  have "virt_to_phys ?fa st = 0"
    using virt_to_phys_eq [OF assms(1), of ?fa] assms(6) by (simp add: translate_def indices_remove_flag)
  moreover have "?v \<noteq> 0" using assms(4,5) by (cases vs) auto
  ultimately have h: "pagefault_handler schedule_sbush sp cr2 st = do {
      st \<leftarrow> area_loop ?v ?fa st; Some (set_CR3 (cr3 (pcbs st (curr_process st))) st) }"
    using assms(3) by (simp add: pagefault_handler_def Let_def)
  show ?thesis
  proof (cases "find (\<lambda>q. vm_start (vmas st q) \<le> ?fa \<and> ?fa \<le> vm_end (vmas st q)) vs")
    case None
    then show ?thesis using area_loop_none [OF assms(4) None] assms(2) by (simp add: h set_CR3_def)
  next
    case (Some q)
    have "q \<noteq> 0" "vm_start (vmas st q) \<le> ?fa" "?fa \<le> vm_end (vmas st q)"
      using find_in_area [OF Some] vlist_not_0 [OF assms(4)] by auto
    note stuck = area_loop_stuck [OF this]
    show ?thesis
    proof (cases "vm_type (vmas st q) \<in> {HEAP, STACK, DATA}")
      case False
      then have "area_loop ?v ?fa st = None" using stuck area_loop_find [OF assms(4) Some] by simp
      then show ?thesis by (simp add: h Some)
    qed (simp add: Some)
  qed
qed

theorem pagefault_unhandled_witness:
  "pagefault_handler 0 0 0x400010 (demo_fault 0xC003) = None \<and>
   pagefault_handler 0 0 0x500000 (demo_fault 0xC003) = Some (demo_fault 0xC003)"
proof -
  have p: "present 0xC003" by (simp add: present_def)
  note facts = demo_mapped_facts [OF p]
  have fa: "remove_flag 0x400010 = 0x400000" "remove_flag 0x500000 = 0x500000" by (simp_all add: remove_flag_def)
  have un: "translate (pm (demo_mapped 0xC003)) 0x1000 va = None" if "indices va \<noteq> indices 0xFFFFFFFF80005000" for va
    using translate_leaf_write(1) [OF demo_inv [simplified] demo_leaf p, of va] that demo_unmapped
    by (simp add: demo_mapped_def)
  have idx: "indices 0x400010 \<noteq> indices 0xFFFFFFFF80005000" "indices 0x500000 \<noteq> indices 0xFFFFFFFF80005000"
    by (simp_all add: indices_eq_iff page_no_def)
  show ?thesis
    using pagefault_unhandled [of "demo_fault 0xC003" demo_levels "[0x30, 0x40]" "0x400010" 0 0]
      pagefault_unhandled [of "demo_fault 0xC003" demo_levels "[0x30, 0x40]" "0x500000" 0 0] un [OF idx(1)] un [OF idx(2)] facts
    by (simp add: fa null_vma_def)
qed

end
