(* ===== verification/Boot.thy ===== *)
theory Boot
  imports PagingSpec PageFault
begin

text \<open>
  The memory set-up of \<^verbatim>\<open>start\<close> in \<^verbatim>\<open>sys/main.c\<close>: the largest range of the memory map is given to
  \<open>init_paging\<close>, \<open>setup_page_tables\<close> of \<^verbatim>\<open>sys/paging.c\<close> builds the first tree of tables, which maps
  the kernel's image and the screen, \<open>set_identity_paging\<close> maps all memory, and \<open>load_CR3\<close> makes
  the tree live. Until then tables are written at their physical addresses.
\<close>

unbundle bit_operations_syntax

section \<open>Definitions\<close>

abbreviation (input) VIDEO_PHYS_ADDR :: u64 where "VIDEO_PHYS_ADDR \<equiv> 0xB8000"

definition pdpt_allocate :: "u64 \<Rightarrow> u64 \<Rightarrow> 'a paging_scheme \<Rightarrow> 'a paging_scheme" where
  "pdpt_allocate pml4 pml4_index st =
     (let (st, p) = allocate_page st;
          st = st\<lparr>g_pdpt := p\<rparr>;
          pdpt_entry = g_pdpt st OR (PT_PR OR PT_WR)
      in st\<lparr>pm := (pm st)(slot pml4 pml4_index := pdpt_entry)\<rparr>)"

definition pd_allocate :: "u64 \<Rightarrow> u64 \<Rightarrow> 'a paging_scheme \<Rightarrow> 'a paging_scheme" where
  "pd_allocate pdpt pdpt_index st =
     (let (st, p) = allocate_page st;
          st = st\<lparr>g_pd := p\<rparr>;
          pd_entry = g_pd st OR (PT_PR OR PT_WR)
      in st\<lparr>pm := (pm st)(slot pdpt pdpt_index := pd_entry)\<rparr>)"

definition pt_allocate :: "u64 \<Rightarrow> u64 \<Rightarrow> 'a paging_scheme \<Rightarrow> 'a paging_scheme" where
  "pt_allocate pd pd_index st =
     (let (st, p) = allocate_page st;
          st = st\<lparr>g_pt := p\<rparr>;
          pt_entry = g_pt st OR (PT_PR OR PT_WR)
      in st\<lparr>pm := (pm st)(slot pd pd_index := pt_entry)\<rparr>)"

text \<open>The loop over the pages of the kernel's image, all in one page table.\<close>

partial_function (option) kernel_loop :: "u64 \<Rightarrow> u64 \<Rightarrow> 'a paging_scheme \<Rightarrow> 'a paging_scheme option" where
  "kernel_loop phys_base vAddress st =
     (if phys_base < physfree_start st then
        (let pt_index = get_index vAddress PT_INDEX;
             address_ptr = phys_base OR (PT_PR OR PT_WR);
             st = st\<lparr>pm := (pm st)(slot (g_pt st) pt_index := address_ptr)\<rparr>
         in kernel_loop (phys_base + 0x1000) (vAddress + 0x1000) st)
      else Some st)"

text \<open>\<open>kernmem\<close> is the address the linker gives the symbol of that name.\<close>

definition setup_page_tables :: "u64 \<Rightarrow> u64 \<Rightarrow> 'a paging_scheme \<Rightarrow> 'a paging_scheme option" where
  "setup_page_tables kernmem phys_base st = do {
     let vAddress = kernmem;
     let pml4_index = get_index vAddress PML4_INDEX;
     let pdpt_index = get_index vAddress PDPT_INDEX;
     let pd_index = get_index vAddress PD_INDEX;
     let (st, p) = allocate_page st;
     let st = st\<lparr>g_pml4 := p\<rparr>;
     let st = st\<lparr>g_cr3 := g_pml4 st\<rparr>;
     let st = pdpt_allocate (g_pml4 st) pml4_index st;
     let st = pd_allocate (g_pdpt st) pdpt_index st;
     let st = pt_allocate (g_pd st) pd_index st;
     st \<leftarrow> kernel_loop phys_base vAddress st;
     let vAddress = (kernmem AND 0xFFFFF000000) OR VIDEO_PHYS_ADDR;
     let pd_index = get_index vAddress PD_INDEX;
     let pt_index = get_index vAddress PT_INDEX;
     let st = pt_allocate (g_pd st) pd_index st;
     let st = st\<lparr>pm := (pm st)(slot (g_pt st) pt_index := VIDEO_PHYS_ADDR OR (PT_PR OR PT_WR))\<rparr>;
     let st = map_virt_to_phys_addr (KERNEL_ADDR OR g_pml4 st) (g_pml4 st) st;
     let st = map_virt_to_phys_addr (KERNEL_ADDR OR g_pdpt st) (g_pdpt st) st;
     let st = map_virt_to_phys_addr (KERNEL_ADDR OR g_pd st) (g_pd st) st;
     Some (map_virt_to_phys_addr (KERNEL_ADDR OR g_pt st) (g_pt st) st)
   }"

text \<open>The memory map of the loader: base, length and type of each range; the first of the longest usable ones is taken.\<close>

fun largest :: "(u64 \<times> u64 \<times> u32) list \<Rightarrow> u64 \<Rightarrow> u64 \<times> u64 \<Rightarrow> u64 \<times> u64" where
  "largest [] max_size smap_max = smap_max"
| "largest ((base, len, ty) # smap) max_size smap_max =
     (if ty = 1 \<and> len \<noteq> 0 \<and> max_size < len then largest smap len (base, len)
      else largest smap max_size smap_max)"

definition start :: "u64 \<Rightarrow> u64 \<Rightarrow> u64 \<Rightarrow> (u64 \<times> u64 \<times> u32) list \<Rightarrow> 'a paging_scheme \<Rightarrow> 'a paging_scheme option" where
  "start kernmem physbase physfree smap st = do {
     let (base, len) = largest smap 0 (0, 0);
     let st = init_paging physbase physfree base len st;
     st \<leftarrow> setup_page_tables kernmem physbase st;
     st \<leftarrow> set_identity_paging st;
     Some (load_CR3 st)
   }"

section \<open>New tables\<close>

lemma new_table:
  assumes inv: "table_inv (pm st) (avail st) r L" and t: "L t = Some (Suc (Suc l))" "i < 512"
    and np: "\<not> present (pm st (slot t i))" and ne: "avail st \<noteq> {}" and a: "allocate_page st = (s, a)"
    and f': "f' = (pm s)(slot t i := a OR 3)"
  shows "grows r (pm st) (avail st) L f' (avail st - {a}) (L(a \<mapsto> Suc l))" "a \<in> avail st" "avail s = avail st - {a}"
    "remove_flag (a OR 3) = a" "present (a OR 3)" "\<forall>j<512. f' (slot a j) = 0" "f' (slot t i) = a OR 3"
    "L a = None" "pm s = clear_page (pm st) a" "\<exists>m. s = st\<lparr>free_map := m, pm := clear_page (pm st) a\<rparr>"
    "L t0 = Some l0 \<Longrightarrow> i0 < 512 \<Longrightarrow> (t0, i0) \<noteq> (t, i) \<Longrightarrow> f' (slot t0 i0) = pm st (slot t0 i0)"
proof -
  obtain s1 b where b: "allocate_virt_page st = (s1, b)" by fastforce
  note al = allocate_virt_page_avail [OF ne b]
  have e: "s = s1\<lparr>pm := clear_page (pm s1) b\<rparr>" "b = a" "pm s1 = pm st"
    using a b al(4) by (auto simp: allocate_page_def allocate_virt_page_def Let_def)
  show a_in: "a \<in> avail st" using al(1) e(2) by simp
  show "avail s = avail st - {a}" using al(3) by (simp add: e(1,2))
  show pm_s: "pm s = clear_page (pm st) a" by (simp add: e)
  have "s1 = st\<lparr>free_map := free_map s1\<rparr>" by (fact al(4))
  then have "s = st\<lparr>free_map := free_map s1, pm := clear_page (pm st) a\<rparr>" using e by (metis e(1,2,3) paging.update_convs(2))
  then show "\<exists>m. s = st\<lparr>free_map := m, pm := clear_page (pm st) a\<rparr>" by blast
  show La: "L a = None" by (rule table_inv_free [OF inv a_in])
  have c: "can_install (pm st) r L t l i a 3"
    using inv t np a_in La by (simp add: can_install_def table_inv_def avail_def)
  have f'_eq: "f' = install (pm st) t i a 3" by (simp add: f' install_def pm_s)
  show "grows r (pm st) (avail st) L f' (avail st - {a}) (L(a \<mapsto> Suc l))"
    unfolding f'_eq using install_grows [OF c a_in] inv by (simp add: table_inv_def)
  show "remove_flag (a OR 3) = a" "present (a OR 3)" "f' (slot t i) = a OR 3"
    using install_new [OF c] by (simp_all add: f'_eq)
  have pa: "page_aligned a" using a_in by (simp add: avail_def)
  note sl = install_slots [OF table_inv_wf [OF inv] t pa La, of 3]
  show "\<forall>j<512. f' (slot a j) = 0" using sl(3) by (simp add: f'_eq)
  show "L t0 = Some l0 \<Longrightarrow> i0 < 512 \<Longrightarrow> (t0, i0) \<noteq> (t, i) \<Longrightarrow> f' (slot t0 i0) = pm st (slot t0 i0)"
    using sl(2) by (simp add: f'_eq)
qed

text \<open>The root of a new tree.\<close>

lemma new_root:
  assumes ne: "avail st \<noteq> {}" and a: "allocate_page st = (s, a)"
  shows "table_inv (pm s) (avail s) a [a \<mapsto> 4]" "\<forall>j<512. pm s (slot a j) = 0" "a \<in> avail st" "avail s = avail st - {a}"
    "\<exists>m. s = st\<lparr>free_map := m, pm := clear_page (pm st) a\<rparr>"
proof -
  obtain s1 b where b: "allocate_virt_page st = (s1, b)" by fastforce
  note al = allocate_virt_page_avail [OF ne b]
  have e: "s = s1\<lparr>pm := clear_page (pm s1) b\<rparr>" "b = a" "pm s1 = pm st"
    using a b al(4) by (auto simp: allocate_page_def allocate_virt_page_def Let_def)
  show a_in: "a \<in> avail st" using al(1) e(2) by simp
  show av: "avail s = avail st - {a}" using al(3) by (simp add: e(1,2))
  have pm_s: "pm s = clear_page (pm st) a" by (simp add: e)
  have "s = st\<lparr>free_map := free_map s1, pm := clear_page (pm st) a\<rparr>"
    using e al(4) by (metis e(1,2,3) paging.update_convs(2))
  then show "\<exists>m. s = st\<lparr>free_map := m, pm := clear_page (pm st) a\<rparr>" by blast
  have pa: "page_aligned a" "unat a < 2 ^ 26" using a_in by (simp_all add: avail_def)
  show z: "\<forall>j<512. pm s (slot a j) = 0" using remove_flag_slot [OF pa(1)] by (simp add: pm_s clear_page_def)
  have "wf_tables (pm s) a [a \<mapsto> 4]"
    by (rule wf_tablesI) (use z pa in \<open>auto split: if_splits\<close>)
  then show "table_inv (pm s) (avail s) a [a \<mapsto> 4]" using av by (simp add: table_inv_def)
qed

text \<open>One more table under slot \<open>i\<close> of the table \<open>t\<close>.\<close>

definition adds_table ::
  "u64 \<Rightarrow> (u64 \<Rightarrow> nat option) \<Rightarrow> u64 \<Rightarrow> nat \<Rightarrow> u64 \<Rightarrow> 'a paging_scheme \<Rightarrow> 'a paging_scheme \<Rightarrow> u64 \<Rightarrow> bool" where
  "adds_table r L t l i st st' a \<longleftrightarrow>
     grows r (pm st) (avail st) L (pm st') (avail st') (L(a \<mapsto> Suc l)) \<and> a \<in> avail st \<and> L a = None \<and>
     avail st' = avail st - {a} \<and> remove_flag (a OR 3) = a \<and> present (a OR 3) \<and> (\<forall>j<512. pm st' (slot a j) = 0) \<and>
     pm st' (slot t i) = a OR 3 \<and>
     (\<forall>t0 l0 i0. L t0 = Some l0 \<and> i0 < 512 \<and> (t0, i0) \<noteq> (t, i) \<longrightarrow> pm st' (slot t0 i0) = pm st (slot t0 i0))"

lemma adds_tableD:
  assumes "adds_table r L t l i st st' a"
  shows "table_inv (pm st') (avail st') r (L(a \<mapsto> Suc l))" "a \<in> avail st" "L a = None" "avail st' = avail st - {a}"
    "remove_flag (a OR 3) = a" "present (a OR 3)" "j < 512 \<Longrightarrow> pm st' (slot a j) = 0" "pm st' (slot t i) = a OR 3"
    "L t0 = Some l0 \<Longrightarrow> i0 < 512 \<Longrightarrow> (t0, i0) \<noteq> (t, i) \<Longrightarrow> pm st' (slot t0 i0) = pm st (slot t0 i0)"
    "translate (pm st') r va = translate (pm st) r va" "card (avail st) = Suc (card (avail st'))"
proof -
  have g: "grows r (pm st) (avail st) L (pm st') (avail st') (L(a \<mapsto> Suc l))" and a: "a \<in> avail st"
    and av: "avail st' = avail st - {a}"
    using assms unfolding adds_table_def by blast+
  show "table_inv (pm st') (avail st') r (L(a \<mapsto> Suc l))" by (rule grows_inv [OF g])
  show "translate (pm st') r va = translate (pm st) r va" by (rule grows_translate [OF g])
  show "card (avail st) = Suc (card (avail st'))" unfolding av using a by (metis card.remove finite_avail)
qed (use assms in \<open>unfold adds_table_def, blast\<close>)+

lemma allocate_adds:
  assumes inv: "table_inv (pm st) (avail st) r L" and t: "L t = Some (Suc (Suc l))" "i < 512"
    and np: "\<not> present (pm st (slot t i))" and ne: "avail st \<noteq> {}"
  shows "\<exists>a m f. pdpt_allocate t i st = st\<lparr>free_map := m, pm := f, g_pdpt := a\<rparr> \<and> adds_table r L t l i st (pdpt_allocate t i st) a"
    "\<exists>a m f. pd_allocate t i st = st\<lparr>free_map := m, pm := f, g_pd := a\<rparr> \<and> adds_table r L t l i st (pd_allocate t i st) a"
    "\<exists>a m f. pt_allocate t i st = st\<lparr>free_map := m, pm := f, g_pt := a\<rparr> \<and> adds_table r L t l i st (pt_allocate t i st) a"
proof -
  obtain s a where a: "allocate_page st = (s, a)" by fastforce
  define f' where "f' = (pm s)(slot t i := a OR 3)"
  note n = new_table [OF assms a f'_def]
  obtain m where s: "s = st\<lparr>free_map := m, pm := clear_page (pm st) a\<rparr>" using n(10) by blast
  have ad: "adds_table r L t l i st st' a" if "pm st' = f'" "avail st' = avail st - {a}" for st' :: "'a paging_scheme"
    unfolding adds_table_def that using n by blast
  have av: "avail (s\<lparr>g_pdpt := x, pm := y\<rparr>) = avail st - {a}" "avail (s\<lparr>g_pd := x, pm := y\<rparr>) = avail st - {a}"
    "avail (s\<lparr>g_pt := x, pm := y\<rparr>) = avail st - {a}" for x y
    using n(3) by (simp_all add: avail_def)
  have "pdpt_allocate t i st = s\<lparr>g_pdpt := a, pm := f'\<rparr>" by (simp add: pdpt_allocate_def a f'_def)
  then show "\<exists>a m f. pdpt_allocate t i st = st\<lparr>free_map := m, pm := f, g_pdpt := a\<rparr> \<and> adds_table r L t l i st (pdpt_allocate t i st) a"
    using ad [of "pdpt_allocate t i st"] av(1) by (intro exI [of _ a] exI [of _ m] exI [of _ f']) (simp add: s)
  have "pd_allocate t i st = s\<lparr>g_pd := a, pm := f'\<rparr>" by (simp add: pd_allocate_def a f'_def)
  then show "\<exists>a m f. pd_allocate t i st = st\<lparr>free_map := m, pm := f, g_pd := a\<rparr> \<and> adds_table r L t l i st (pd_allocate t i st) a"
    using ad [of "pd_allocate t i st"] av(2) by (intro exI [of _ a] exI [of _ m] exI [of _ f']) (simp add: s)
  have "pt_allocate t i st = s\<lparr>g_pt := a, pm := f'\<rparr>" by (simp add: pt_allocate_def a f'_def)
  then show "\<exists>a m f. pt_allocate t i st = st\<lparr>free_map := m, pm := f, g_pt := a\<rparr> \<and> adds_table r L t l i st (pt_allocate t i st) a"
    using ad [of "pt_allocate t i st"] av(3) by (intro exI [of _ a] exI [of _ m] exI [of _ f']) (simp add: s)
qed

section \<open>The kernel's image\<close>

text \<open>The \<open>k\<close>-th page after an address.\<close>

definition nth_page :: "u64 \<Rightarrow> nat \<Rightarrow> u64" where
  "nth_page v k = v + of_nat (k * 4096)"

lemma nth_page_0 [simp]: "nth_page v 0 = v"
  by (simp add: nth_page_def)

lemma nth_page_Suc: "nth_page v (Suc k) = nth_page (v + 4096) k"
  by (simp add: nth_page_def)

lemma page_no_add:
  assumes "page_no v mod 512 + m < 512"
  shows "page_no (nth_page v m) = page_no v + m"
proof -
  have "unat v < 2 ^ 64" by (rule unat_lt64)
  then have "page_no v div 512 < 8796093022208" by (simp add: page_no_def)
  then have "page_no v div 512 * 512 + (page_no v mod 512 + m) < 8796093022208 * 512" using assms by linarith
  then have p: "page_no v + m < 4503599627370496" by (simp flip: add.assoc)
  have "unat v = page_no v * 4096 + unat v mod 4096" by (simp add: page_no_def)
  moreover have "unat v mod 4096 < 4096" by simp
  ultimately have lt: "unat v + m * 4096 < 18446744073709551616" using p by linarith
  then have "unat (of_nat (m * 4096) :: u64) = m * 4096" by (simp add: unsigned_of_nat take_bit_nat_eq_self del: of_nat_mult)
  with lt have "unat (nth_page v m) = unat v + m * 4096"
    unfolding nth_page_def by (simp only: unat_word_ariths) simp
  then show ?thesis by (simp add: page_no_def)
qed

lemma page_indices_neq:
  assumes "page_no v mod 512 + m < 512" "0 < m"
  shows "indices v \<noteq> indices (nth_page v m)"
proof
  assume "indices v = indices (nth_page v m)"
  then have "get_index v 12 = get_index (nth_page v m) 12" by (simp add: indices_def)
  then have eq: "page_no v mod 512 = (page_no v + m) mod 512"
    using unat_get_index_page(1) [of v] unat_get_index_page(1) [of "nth_page v m"] page_no_add [OF assms(1)] by simp
  have "(page_no v + m) mod 512 = (page_no v mod 512 + m) mod 512" by (rule mod_add_left_eq [symmetric])
  also have "\<dots> = page_no v mod 512 + m" using assms(1) by (rule mod_less)
  finally show False using assms(2) eq by simp
qed

text \<open>The loop maps page after page, and leaves every table above the last level as it was.\<close>

definition image_mapped :: "(u64 \<Rightarrow> u64) \<Rightarrow> (u64 \<Rightarrow> u64) \<Rightarrow> u64 \<Rightarrow> u64 \<Rightarrow> u64 \<Rightarrow> nat \<Rightarrow> bool" where
  "image_mapped f f' r v p n \<longleftrightarrow>
     (\<forall>k<n. translate f' r (nth_page v k) = Some (nth_page p k OR 3)) \<and>
     (\<forall>va. (\<forall>k<n. indices va \<noteq> indices (nth_page v k)) \<longrightarrow> translate f' r va = translate f r va)"

lemma image_mapped_Suc:
  assumes d: "page_no v mod 512 + Suc n \<le> 512" and t: "translate f1 r v = Some (p OR 3)"
    and o: "\<forall>va. indices va \<noteq> indices v \<longrightarrow> translate f1 r va = translate f r va"
    and m: "image_mapped f1 f' r (v + 4096) (p + 4096) n"
  shows "image_mapped f f' r v p (Suc n)"
proof -
  have all: "(\<forall>k<Suc n. P k) \<longleftrightarrow> P 0 \<and> (\<forall>k<n. P (Suc k))" for P
    by (auto simp: less_Suc_eq_0_disj)
  have "indices v \<noteq> indices (nth_page v (Suc k))" if "k < n" for k
    by (rule page_indices_neq) (use that d in simp_all)
  then have "translate f' r v = translate f1 r v"
    using m by (simp add: image_mapped_def nth_page_Suc)
  with t m show ?thesis
    unfolding image_mapped_def all nth_page_Suc using o by simp
qed

lemma kernel_loop_spec:
  assumes inv: "table_inv (pm st) (avail st) r L"
    and leaf: "0 < n \<longrightarrow> leaf_of (pm st) r (indices v) = Some (g_pt st, get_index v 12)"
    and d: "page_no v mod 512 + n \<le> 512" and n: "visits p (physfree_start st) = n" "unat (physfree_start st) \<le> 2 ^ 64 - 4096"
  shows "\<exists>f'. kernel_loop p v st = Some (st\<lparr>pm := f'\<rparr>) \<and> table_inv f' (avail st) r L \<and> image_mapped (pm st) f' r v p n \<and>
    (\<forall>t i l. L t = Some (Suc (Suc l)) \<and> i < 512 \<longrightarrow> f' (slot t i) = pm st (slot t i))"
  using assms
proof (induction n arbitrary: p v st)
  case 0
  then have "\<not> p < physfree_start st" using visits_step(1) [of p "physfree_start st"] by auto
  then have "kernel_loop p v st = Some (st\<lparr>pm := pm st\<rparr>)" by (subst kernel_loop.simps) simp
  then show ?case using 0(1) by (intro exI [of _ "pm st"]) (simp add: image_mapped_def)
next
  case (Suc n)
  let ?t = "g_pt st" and ?i = "get_index v 12" and ?e = "physfree_start st"
  have leaf: "leaf_of (pm st) r (indices v) = Some (?t, ?i)" using Suc.prems(2) by simp
  have wf: "wf_tables (pm st) r L" by (rule table_inv_wf [OF Suc.prems(1)])
  have root: "L r = Some (length (indices va))" for va using wf_tables_root [OF wf] by (simp add: indices_def)
  have t: "L ?t = Some 1" using leaf_of_level [OF wf root indices_less leaf] by simp
  have lt: "p < ?e" using Suc.prems(4) by (auto simp: visits_def word_less_nat_alt intro: ccontr)
  define f1 where "f1 = (pm st)(slot ?t ?i := p OR 3)"
  define s1 where "s1 = st\<lparr>pm := f1\<rparr>"
  note w = translate_leaf_write [OF Suc.prems(1) leaf, of "p OR 3"]
  have pr: "present (p OR 3)" by (rule present_or) (simp add: present_def)
  have inv1: "table_inv (pm s1) (avail s1) r L" using w(2) [OF pr] by (simp add: s1_def f1_def)
  have vis: "visits (p + 4096) (physfree_start s1) = n"
    using visits_step(1) [OF lt Suc.prems(5)] Suc.prems(4) by (simp add: s1_def)
  have leaf1: "0 < n \<longrightarrow> leaf_of (pm s1) r (indices (v + 4096)) = Some (g_pt s1, get_index (v + 4096) 12)"
  proof
    assume "0 < n"
    then have "page_no v mod 512 + 1 < 512" using Suc.prems(3) by simp
    from page_no_add [OF this] have "page_no (v + 4096) = page_no v + 1" by (simp add: nth_page_def)
    moreover have "(page_no v + 1) div 512 = page_no v div 512"
      using \<open>page_no v mod 512 + 1 < 512\<close> by (simp add: div_Suc mod_Suc)
    ultimately have "leaf_of (pm st) r (indices (v + 4096)) = Some (?t, get_index (v + 4096) 12)"
      by (intro leaf_of_same_region [OF leaf]) simp
    then show "leaf_of (pm s1) r (indices (v + 4096)) = Some (g_pt s1, get_index (v + 4096) 12)"
      using leaf_of_leaf_write [OF wf t get_index_less root indices_less] by (simp add: s1_def f1_def)
  qed
  have d1: "page_no (v + 4096) mod 512 + n \<le> 512"
  proof (cases "n = 0")
    case False
    then have "page_no v mod 512 + 1 < 512" using Suc.prems(3) by simp
    from page_no_add [OF this] have "page_no (v + 4096) = Suc (page_no v)" by (simp add: nth_page_def)
    with \<open>page_no v mod 512 + 1 < 512\<close> Suc.prems(3) show ?thesis by (simp add: mod_Suc)
  qed simp
  obtain f' where f': "kernel_loop (p + 4096) (v + 4096) s1 = Some (s1\<lparr>pm := f'\<rparr>)" "table_inv f' (avail s1) r L"
    "image_mapped (pm s1) f' r (v + 4096) (p + 4096) n"
    "\<forall>t i l. L t = Some (Suc (Suc l)) \<and> i < 512 \<longrightarrow> f' (slot t i) = pm s1 (slot t i)"
    using Suc.IH [OF inv1 leaf1 d1 vis] Suc.prems(5) by (auto simp: s1_def)
  have "kernel_loop p v st = Some (st\<lparr>pm := f'\<rparr>)"
    using lt f'(1) by (subst kernel_loop.simps) (simp add: s1_def f1_def)
  moreover have "image_mapped (pm st) f' r v p (Suc n)"
    by (rule image_mapped_Suc [OF Suc.prems(3) _ _ f'(3)]) (simp_all add: s1_def f1_def w(1) [OF pr])
  moreover have "f' (slot t i) = pm st (slot t i)" if "L t = Some (Suc (Suc l))" "i < 512" for t i l
    using f'(4) that leaf_write_other [OF wf t get_index_less that, of v 12 "p OR 3"] by (simp add: s1_def f1_def)
  ultimately show ?case using f'(2) by (intro exI [of _ f']) (simp add: s1_def)
qed

section \<open>The first tree\<close>

text \<open>\<open>setup_page_tables\<close> up to the loop over the image, and up to the maps of its own tables.\<close>

definition first_path :: "u64 \<Rightarrow> 'a paging_scheme \<Rightarrow> 'a paging_scheme" where
  "first_path kernmem st =
     (let (st, p) = allocate_page st;
          st = st\<lparr>g_pml4 := p\<rparr>;
          st = st\<lparr>g_cr3 := g_pml4 st\<rparr>;
          st = pdpt_allocate (g_pml4 st) (get_index kernmem 39) st;
          st = pd_allocate (g_pdpt st) (get_index kernmem 30) st
      in pt_allocate (g_pd st) (get_index kernmem 21) st)"

definition first_tree :: "u64 \<Rightarrow> u64 \<Rightarrow> 'a paging_scheme \<Rightarrow> 'a paging_scheme option" where
  "first_tree kernmem phys_base st = do {
     st \<leftarrow> kernel_loop phys_base kernmem (first_path kernmem st);
     let vAddress = (kernmem AND 0xFFFFF000000) OR VIDEO_PHYS_ADDR;
     let st = pt_allocate (g_pd st) (get_index vAddress 21) st;
     Some (st\<lparr>pm := (pm st)(slot (g_pt st) (get_index vAddress 12) := VIDEO_PHYS_ADDR OR (PT_PR OR PT_WR))\<rparr>)
   }"

text \<open>The four tables, and the entries that lead from the root to the last of them.\<close>

definition tables_ok :: "u64 set \<Rightarrow> (u64 \<Rightarrow> nat option) \<Rightarrow> 'a paging_scheme \<Rightarrow> bool" where
  "tables_ok A L st \<longleftrightarrow>
     table_inv (pm st) (avail st) (g_pml4 st) L \<and> L (g_pdpt st) = Some 3 \<and> L (g_pd st) = Some 2 \<and> L (g_pt st) = Some 1 \<and>
     dom L \<subseteq> A \<and> avail st \<subseteq> A \<and> g_cr3 st = g_pml4 st"

definition path_to :: "u64 \<Rightarrow> 'a paging_scheme \<Rightarrow> bool" where
  "path_to va st \<longleftrightarrow>
     present (pm st (slot (g_pml4 st) (get_index va 39))) \<and> remove_flag (pm st (slot (g_pml4 st) (get_index va 39))) = g_pdpt st \<and>
     present (pm st (slot (g_pdpt st) (get_index va 30))) \<and> remove_flag (pm st (slot (g_pdpt st) (get_index va 30))) = g_pd st"

lemma first_path_spec:
  assumes n: "4 \<le> card (avail st)" and s: "s = first_path kernmem st"
  obtains L where "tables_ok (avail st) L s" "path_to kernmem s" "card (avail st) = card (avail s) + 4"
    "leaf_of (pm s) (g_pml4 s) (indices kernmem) = Some (g_pt s, get_index kernmem 12)"
    "\<forall>j<512. j \<noteq> get_index kernmem 21 \<longrightarrow> pm s (slot (g_pd s) j) = 0" "\<forall>va. translate (pm s) (g_pml4 s) va = None"
    "physfree_start s = physfree_start st" "physfree_end s = physfree_end st"
proof -
  let ?k = "\<lambda>j. get_index kernmem j"
  have ne0: "avail st \<noteq> {}" using n by auto
  obtain s0 a0 where a0: "allocate_page st = (s0, a0)" by fastforce
  note r = new_root [OF ne0 a0]
  obtain m0 where s0: "s0 = st\<lparr>free_map := m0, pm := clear_page (pm st) a0\<rparr>" using r(5) by blast
  define s1 where "s1 = s0\<lparr>g_pml4 := a0, g_cr3 := a0\<rparr>"
  have av1: "avail s1 = avail s0" "pm s1 = pm s0" by (simp_all add: s1_def avail_def)
  have c0: "card (avail st) = Suc (card (avail s1))" unfolding av1 r(4) using r(3) by (metis card.remove finite_avail)
  define L0 where "L0 = [a0 \<mapsto> (4 :: nat)]"
  have i0: "table_inv (pm s1) (avail s1) a0 L0" using r(1) by (simp add: av1 L0_def)
  have ne1: "avail s1 \<noteq> {}" using n c0 by auto
  have "L0 a0 = Some (Suc (Suc 2))" by (simp add: L0_def)
  moreover have "\<not> present (pm s1 (slot a0 (?k 39)))" using r(2) by (simp add: av1)
  ultimately obtain a1 m1 f1 where s2: "pdpt_allocate a0 (?k 39) s1 = s1\<lparr>free_map := m1, pm := f1, g_pdpt := a1\<rparr>"
    and ad1: "adds_table a0 L0 a0 2 (?k 39) s1 (pdpt_allocate a0 (?k 39) s1) a1"
    using allocate_adds(1) [OF i0 _ get_index_less _ ne1] by blast
  define s2 where "s2 = pdpt_allocate a0 (?k 39) s1"
  note d1 = adds_tableD [OF ad1 [folded s2_def]]
  have ne2: "avail s2 \<noteq> {}" using n c0 d1(11) by auto
  define L1 where "L1 = L0(a1 \<mapsto> Suc 2)"
  have i1: "table_inv (pm s2) (avail s2) a0 L1" using d1(1) by (simp add: L1_def)
  have "L1 a1 = Some (Suc (Suc 1))" by (simp add: L1_def)
  moreover have "\<not> present (pm s2 (slot a1 (?k 30)))" using d1(7) by simp
  ultimately obtain a2 m2 f2 where s3: "pd_allocate a1 (?k 30) s2 = s2\<lparr>free_map := m2, pm := f2, g_pd := a2\<rparr>"
    and ad2: "adds_table a0 L1 a1 1 (?k 30) s2 (pd_allocate a1 (?k 30) s2) a2"
    using allocate_adds(2) [OF i1 _ get_index_less _ ne2] by blast
  define s3 where "s3 = pd_allocate a1 (?k 30) s2"
  note d2 = adds_tableD [OF ad2 [folded s3_def]]
  have ne3: "avail s3 \<noteq> {}" using n c0 d1(11) d2(11) by auto
  define L2 where "L2 = L1(a2 \<mapsto> Suc 1)"
  have i2: "table_inv (pm s3) (avail s3) a0 L2" using d2(1) by (simp add: L2_def)
  have "L2 a2 = Some (Suc (Suc 0))" by (simp add: L2_def)
  moreover have "\<not> present (pm s3 (slot a2 (?k 21)))" using d2(7) by simp
  ultimately obtain a3 m3 f3 where s4: "pt_allocate a2 (?k 21) s3 = s3\<lparr>free_map := m3, pm := f3, g_pt := a3\<rparr>"
    and ad3: "adds_table a0 L2 a2 0 (?k 21) s3 (pt_allocate a2 (?k 21) s3) a3"
    using allocate_adds(3) [OF i2 _ get_index_less _ ne3] by blast
  define s4 where "s4 = pt_allocate a2 (?k 21) s3"
  note d3 = adds_tableD [OF ad3 [folded s4_def]]
  have ne: "a1 \<noteq> a0" "a2 \<noteq> a0" "a2 \<noteq> a1" "a3 \<noteq> a0" "a3 \<noteq> a1" "a3 \<noteq> a2"
    using d1(3) d2(3) d3(3) by (auto simp: L0_def L1_def L2_def split: if_splits)
  have g1: "g_pml4 s1 = a0" "g_cr3 s1 = a0" "physfree_start s1 = physfree_start st" "physfree_end s1 = physfree_end st"
    by (simp_all add: s1_def s0)
  have g2: "g_pdpt s2 = a1" "g_pml4 s2 = a0" "g_cr3 s2 = a0" "physfree_start s2 = physfree_start st" "physfree_end s2 = physfree_end st"
    unfolding s2_def s2 using g1 by simp_all
  have g3: "g_pd s3 = a2" "g_pdpt s3 = a1" "g_pml4 s3 = a0" "g_cr3 s3 = a0"
    "physfree_start s3 = physfree_start st" "physfree_end s3 = physfree_end st"
    unfolding s3_def s3 using g2 by simp_all
  have g4: "g_pt s4 = a3" "g_pd s4 = a2" "g_pdpt s4 = a1" "g_pml4 s4 = a0" "g_cr3 s4 = a0"
    "physfree_start s4 = physfree_start st" "physfree_end s4 = physfree_end st"
    unfolding s4_def s4 using g3 by simp_all
  have s1_eq: "s0\<lparr>g_pml4 := a0\<rparr>\<lparr>g_cr3 := g_pml4 (s0\<lparr>g_pml4 := a0\<rparr>)\<rparr> = s1" by (simp add: s1_def)
  have s_eq: "s = s4"
    unfolding s first_path_def Let_def a0 prod.case s1_eq g1 s2_def [symmetric] g2(1) s3_def [symmetric] g3(1) s4_def by (rule refl)
  define L3 where "L3 = L2(a3 \<mapsto> Suc 0)"
  have L3: "L3 a0 = Some 4" "L3 a1 = Some 3" "L3 a2 = Some 2" "L3 a3 = Some 1" "dom L3 = {a0, a1, a2, a3}"
    using ne by (auto simp: L3_def L2_def L1_def L0_def)
  have L2: "L2 a0 = Some 4" "L2 a1 = Some 3" "L1 a0 = Some 4" using ne by (simp_all add: L2_def L1_def L0_def)
  have e0: "pm s4 (slot a0 (?k 39)) = a1 OR 3"
    using d3(9) [OF L2(1) get_index_less [of kernmem 39]] d2(9) [OF L2(3) get_index_less [of kernmem 39]] d1(8) ne by simp
  have e1: "pm s4 (slot a1 (?k 30)) = a2 OR 3"
    using d3(9) [OF L2(2) get_index_less [of kernmem 30]] d2(8) ne by simp
  have e2: "pm s4 (slot a2 (?k 21)) = a3 OR 3" by (rule d3(8))
  show ?thesis
  proof (rule that)
    show "tables_ok (avail st) L3 s"
      unfolding tables_ok_def s_eq g4
      using d3(1,2,4) d2(2,4) d1(2,4) r(3,4) L3 by (auto simp: L3_def [symmetric] av1)
    show "path_to kernmem s"
      unfolding path_to_def s_eq g4 e0 e1 using d1(5,6) d2(5,6) by simp
    show "card (avail st) = card (avail s) + 4" using c0 d1(11) d2(11) d3(11) by (simp add: s_eq)
    show "leaf_of (pm s) (g_pml4 s) (indices kernmem) = Some (g_pt s, ?k 12)"
      unfolding s_eq g4 indices_def using e0 e1 e2 d1(5,6) d2(5,6) d3(5,6) by simp
    show "\<forall>j<512. j \<noteq> ?k 21 \<longrightarrow> pm s (slot (g_pd s) j) = 0"
      unfolding s_eq g4 using d3(9) [of a2] d2(7) by (auto simp: L2_def)
    have "entry_at (pm s0) a0 (indices va) = None" for va
      using entry_at_empty_table [OF r(2) indices_less] .
    then show "\<forall>va. translate (pm s) (g_pml4 s) va = None"
      unfolding s_eq g4 using d3(10) d2(10) d1(10) by (simp add: translate_def av1)
    show "physfree_start s = physfree_start st" "physfree_end s = physfree_end st"
      unfolding s_eq using g4 by simp_all
  qed
qed

text \<open>The place the screen is mapped at: the kernel's upper tables, and the lower indices of the masked address.\<close>

definition video_indices :: "u64 \<Rightarrow> u64 list" where
  "video_indices kernmem =
     (let v = (kernmem AND 0xFFFFF000000) OR VIDEO_PHYS_ADDR
      in [get_index kernmem 39, get_index kernmem 30, get_index v 21, get_index v 12])"

definition boot_maps :: "u64 \<Rightarrow> u64 \<Rightarrow> nat \<Rightarrow> u64 \<Rightarrow> 'a paging_scheme \<Rightarrow> bool" where
  "boot_maps kernmem p n vid st \<longleftrightarrow>
     (\<forall>k<n. translate (pm st) (g_pml4 st) (nth_page kernmem k) = Some (nth_page p k OR 3)) \<and>
     translate (pm st) (g_pml4 st) vid = Some (VIDEO_PHYS_ADDR OR 3)"

lemma nth_page_index:
  assumes "page_no v mod 512 + k < 512"
  shows "get_index (nth_page v k) 21 = get_index v 21"
proof -
  have "(page_no v + k) div 512 = page_no v div 512"
    using assms by (subst div_add1_eq) simp
  then show ?thesis
    using page_no_add [OF assms] by (simp add: word_unat_eq_iff unat_get_index_page)
qed

lemma first_tree_spec:
  assumes n: "5 \<le> card (avail st)"
    and d: "page_no kernmem mod 512 + n \<le> 512" "visits p (physfree_start st) = n" "unat (physfree_start st) \<le> 2 ^ 64 - 4096"
    and v: "indices vid = video_indices kernmem" "get_index vid 21 \<noteq> get_index kernmem 21"
  obtains st' L where "first_tree kernmem p st = Some st'" "tables_ok (avail st) L st'" "card (avail st) = card (avail st') + 5"
    "physfree_end st' = physfree_end st" "boot_maps kernmem p n vid st'"
proof -
  let ?w = "(kernmem AND 0xFFFFF000000) OR VIDEO_PHYS_ADDR"
  have vi: "get_index vid 39 = get_index kernmem 39" "get_index vid 30 = get_index kernmem 30"
    "get_index ?w 21 = get_index vid 21" "get_index ?w 12 = get_index vid 12"
    using v(1) by (simp_all add: indices_def video_indices_def Let_def)
  define s where "s = first_path kernmem st"
  define r where "r = g_pml4 s"
  have "4 \<le> card (avail st)" using n by simp
  then obtain L where L: "tables_ok (avail st) L s" "path_to kernmem s" "card (avail st) = card (avail s) + 4"
    "leaf_of (pm s) r (indices kernmem) = Some (g_pt s, get_index kernmem 12)"
    "\<forall>j<512. j \<noteq> get_index kernmem 21 \<longrightarrow> pm s (slot (g_pd s) j) = 0" "\<forall>va. translate (pm s) r va = None"
    "physfree_start s = physfree_start st" "physfree_end s = physfree_end st"
    unfolding r_def by (rule first_path_spec [OF _ s_def])
  have inv: "table_inv (pm s) (avail s) r L" and lv: "L (g_pdpt s) = Some 3" "L (g_pd s) = Some 2" "L (g_pt s) = Some 1"
    and dm: "dom L \<subseteq> avail st" "avail s \<subseteq> avail st" "g_cr3 s = g_pml4 s" using L(1) by (simp_all add: tables_ok_def r_def)
  obtain f where f: "kernel_loop p kernmem s = Some (s\<lparr>pm := f\<rparr>)" "table_inv f (avail s) r L"
    "image_mapped (pm s) f r kernmem p n" "\<forall>t i l. L t = Some (Suc (Suc l)) \<and> i < 512 \<longrightarrow> f (slot t i) = pm s (slot t i)"
    using kernel_loop_spec [OF inv, of n kernmem p] L(4,7) d by auto
  have root: "L r = Some 4" using wf_tables_root [OF table_inv_wf [OF inv]] .
  have up: "f (slot r i) = pm s (slot r i)" "f (slot (g_pdpt s) i) = pm s (slot (g_pdpt s) i)" "f (slot (g_pd s) i) = pm s (slot (g_pd s) i)"
    if "i < 512" for i using f(4) root lv(1,2) that by (simp_all add: numeral_eq_Suc)
  define s1 where "s1 = s\<lparr>pm := f\<rparr>"
  have s1: "pm s1 = f" "avail s1 = avail s" "g_pd s1 = g_pd s" by (simp_all add: s1_def)
  have i1: "table_inv (pm s1) (avail s1) r L" using f(2) by (simp add: s1)
  have "L (g_pd s) = Some (Suc (Suc 0))" using lv(2) by (simp add: numeral_2_eq_2)
  moreover have "\<not> present (pm s1 (slot (g_pd s) (get_index vid 21)))" using up(3) L(5) v(2) by (simp add: s1)
  moreover have "avail s1 \<noteq> {}" using n L(3) by (auto simp: s1)
  ultimately obtain a m g where al: "pt_allocate (g_pd s) (get_index vid 21) s1 = s1\<lparr>free_map := m, pm := g, g_pt := a\<rparr>"
    and ad: "adds_table r L (g_pd s) 0 (get_index vid 21) s1 (pt_allocate (g_pd s) (get_index vid 21) s1) a"
    using allocate_adds(3) [OF i1 _ get_index_less] by blast
  define s2 where "s2 = pt_allocate (g_pd s) (get_index vid 21) s1"
  note dd = adds_tableD [OF ad [folded s2_def]]
  have s2: "g_pt s2 = a" "g_pd s2 = g_pd s" "g_pdpt s2 = g_pdpt s" "g_pml4 s2 = r" "g_cr3 s2 = r" "physfree_end s2 = physfree_end st"
    unfolding s2_def al using L(8) dm(3) by (simp_all add: s1_def r_def)
  define L2 where "L2 = L(a \<mapsto> Suc 0)"
  have i2: "table_inv (pm s2) (avail s2) r L2" using dd(1) by (simp add: L2_def)
  have ne: "g_pd s \<noteq> r" "g_pd s \<noteq> g_pdpt s" using root lv by auto
  have "leaf_of (pm s2) r (indices vid) = Some (a, get_index vid 12)"
    using L(2) dd(5,6,8) dd(9) [OF root get_index_less, of kernmem 39] dd(9) [OF lv(1) get_index_less, of kernmem 30] ne
    by (simp add: indices_def vi path_to_def r_def [symmetric] s1 up)
  note w = translate_leaf_write [OF i2 this, of "VIDEO_PHYS_ADDR OR 3"]
  define st' where "st' = s2\<lparr>pm := (pm s2)(slot a (get_index vid 12) := VIDEO_PHYS_ADDR OR 3)\<rparr>"
  have pr: "present (VIDEO_PHYS_ADDR OR 3)" by (rule present_or) (simp add: present_def)
  have st': "pm st' = (pm s2)(slot a (get_index vid 12) := VIDEO_PHYS_ADDR OR 3)" "avail st' = avail s2" "g_pml4 st' = r"
    by (simp_all add: st'_def s2)
  have "indices (nth_page kernmem k) \<noteq> indices vid" if "k < n" for k
    using nth_page_index [of kernmem k] that d(1) v(2) by (auto simp: indices_def)
  then have "boot_maps kernmem p n vid st'"
    using f(3) dd(10) w(1) [OF pr] by (simp add: boot_maps_def st' image_mapped_def s1)
  moreover have "first_tree kernmem p st = Some st'"
    unfolding first_tree_def s_def [symmetric] f(1) by (simp add: s1_def [symmetric] s1 vi s2_def [symmetric] s2 st'_def)
  moreover have "tables_ok (avail st) L2 st'"
    using w(2) [OF pr] lv dd(2,3) dm dd(4) s2 by (auto simp: tables_ok_def st' L2_def s1 st'_def)
  moreover have "card (avail st) = card (avail st') + 5" using L(3) dd(11) by (simp add: st' s1)
  moreover have "physfree_end st' = physfree_end st" by (simp add: st'_def s2)
  ultimately show ?thesis by (intro that)
qed

text \<open>One of the maps at the end of \<open>setup_page_tables\<close>.\<close>

lemma map_own_table:
  assumes ok: "tables_ok A L st" and n: "3 \<le> card (avail st)" and st': "st' = map_virt_to_phys_addr va phys st"
  obtains L' where "tables_ok A L' st'" "card (avail st) \<le> card (avail st') + 3" "physfree_end st' = physfree_end st"
    "g_pml4 st' = g_pml4 st"
    "\<forall>va'. translate (pm st') (g_pml4 st) va' = (if indices va' = indices va then Some (phys OR 3) else translate (pm st) (g_pml4 st) va')"
proof -
  let ?r = "g_pml4 st" and ?i = "get_index va 12"
  have inv: "table_inv (pm st) (avail st) ?r L" and A: "dom L \<subseteq> A" "avail st \<subseteq> A" "g_cr3 st = ?r"
    using ok by (simp_all add: tables_ok_def)
  obtain s p q t where e: "ensure_path 3 ?r va st = (s, p, q, t)" by (metis prod_cases4)
  have v: "present (phys OR 3)" by (rule present_or) (simp add: present_def)
  have eq: "st' = s\<lparr>g_pdpt := p, g_pd := q, g_pt := t, pm := (pm s)(slot t ?i := phys OR 3)\<rparr>"
    using e by (simp add: st' map_virt_to_phys_addr_eq)
  have fr: "g_pml4 s = ?r" "g_cr3 s = g_cr3 st" "physfree_end s = physfree_end st"
    by (subst ensure_path_frame [OF e], simp)+
  obtain L' where g: "grows ?r (pm st) (avail st) L (pm s) (avail s) L'" and l: "L' t = Some 1" "L' p = Some 3" "L' q = Some 2"
    and leaf: "leaf_of (pm s) ?r (indices va) = Some (t, ?i)" and c: "card (avail st) \<le> card (avail s) + 3"
    by (rule ensure_path_grows [OF inv _ n e]) simp_all
  note m = grows_maps_page [OF inv g leaf v]
  have s': "pm st' = (pm s)(slot t ?i := phys OR 3)" "avail st' = avail s" "g_pml4 st' = ?r" "g_cr3 st' = ?r"
    using fr A(3) by (simp_all add: eq avail_def)
  show ?thesis
  proof (rule that [of L'])
    show "tables_ok A L' st'"
    proof -
      have "dom L' \<subseteq> A" "avail s \<subseteq> A" using maps_page_dom [OF m] maps_page_pool [OF m] A by blast+
      moreover have "g_pdpt st' = p" "g_pd st' = q" "g_pt st' = t" by (simp_all add: eq)
      ultimately show ?thesis using maps_page_inv [OF m] l by (simp add: tables_ok_def s')
    qed
    show "\<forall>va'. translate (pm st') ?r va' = (if indices va' = indices va then Some (phys OR 3) else translate (pm st) ?r va')"
      using maps_page_translate [OF m] by (simp add: s')
  qed (use c fr s' in \<open>simp_all add: eq avail_def\<close>)
qed

text \<open>The pages of the image and the screen are not among the direct-map pages of the frames in \<open>A\<close>.\<close>

definition boot_apart :: "u64 \<Rightarrow> nat \<Rightarrow> u64 \<Rightarrow> u64 set \<Rightarrow> bool" where
  "boot_apart kernmem n vid A \<longleftrightarrow>
     (\<forall>a \<in> A. indices (kaddr a) \<noteq> indices vid \<and> (\<forall>k<n. indices (kaddr a) \<noteq> indices (nth_page kernmem k)))"

lemma map_own_table_boot:
  assumes ok: "tables_ok A L st" and n: "3 \<le> card (avail st)" and st': "st' = map_virt_to_phys_addr (KERNEL_ADDR OR x) x st"
    and x: "x \<in> dom L"
  obtains L' where "tables_ok A L' st'" "card (avail st) \<le> card (avail st') + 3" "physfree_end st' = physfree_end st"
    "g_pml4 st' = g_pml4 st" "boot_apart kernmem k vid A \<and> boot_maps kernmem p k vid st \<longrightarrow> boot_maps kernmem p k vid st'"
proof -
  have xA: "x \<in> A" using ok x by (auto simp: tables_ok_def)
  obtain L' where L': "tables_ok A L' st'" "card (avail st) \<le> card (avail st') + 3" "physfree_end st' = physfree_end st"
    "g_pml4 st' = g_pml4 st"
    "\<forall>va'. translate (pm st') (g_pml4 st) va' =
      (if indices va' = indices (KERNEL_ADDR OR x) then Some (x OR 3) else translate (pm st) (g_pml4 st) va')"
    by (rule map_own_table [OF ok n st'])
  have "boot_maps kernmem p k vid st'" if "boot_apart kernmem k vid A" "boot_maps kernmem p k vid st"
  proof -
    have "indices vid \<noteq> indices (KERNEL_ADDR OR x)" "\<forall>j<k. indices (nth_page kernmem j) \<noteq> indices (KERNEL_ADDR OR x)"
      using that(1) xA unfolding boot_apart_def kaddr_def by metis+
    with L'(5) that(2) show ?thesis by (simp add: boot_maps_def L'(4))
  qed
  with L' show ?thesis by (intro that [of L']) simp_all
qed

lemma setup_page_tables_spec:
  assumes n: "17 \<le> card (avail st)"
    and d: "page_no kernmem mod 512 + n \<le> 512" "visits p (physfree_start st) = n" "unat (physfree_start st) \<le> 2 ^ 64 - 4096"
    and v: "indices vid = video_indices kernmem" "get_index vid 21 \<noteq> get_index kernmem 21"
  obtains st' L where "setup_page_tables kernmem p st = Some st'" "table_inv (pm st') (avail st') (g_pml4 st') L"
    "g_cr3 st' = g_pml4 st'" "card (avail st) \<le> card (avail st') + 17" "physfree_end st' = physfree_end st"
    "boot_apart kernmem n vid (avail st) \<longrightarrow> boot_maps kernmem p n vid st'"
proof -
  have "5 \<le> card (avail st)" using n by simp
  then obtain s0 L0 where f: "first_tree kernmem p st = Some s0" and ok0: "tables_ok (avail st) L0 s0"
    and c0: "card (avail st) = card (avail s0) + 5" and e0: "physfree_end s0 = physfree_end st" and m0: "boot_maps kernmem p n vid s0"
    by (rule first_tree_spec [OF _ d v])
  define s1 where "s1 = map_virt_to_phys_addr (KERNEL_ADDR OR g_pml4 s0) (g_pml4 s0) s0"
  have dom: "g_pml4 s \<in> dom L \<and> g_pdpt s \<in> dom L \<and> g_pd s \<in> dom L \<and> g_pt s \<in> dom L" if "tables_ok A L s" for A L and s :: "'a paging_scheme"
  proof -
    have "table_inv (pm s) (avail s) (g_pml4 s) L" using that by (simp add: tables_ok_def)
    from wf_tables_root [OF table_inv_wf [OF this]] that show ?thesis by (simp add: tables_ok_def dom_def)
  qed
  have "3 \<le> card (avail s0)" using n c0 by simp
  then obtain L1 where ok1: "tables_ok (avail st) L1 s1" and c1: "card (avail s0) \<le> card (avail s1) + 3" and e1: "physfree_end s1 = physfree_end s0"
    and p1: "g_pml4 s1 = g_pml4 s0" and m1: "boot_apart kernmem n vid (avail st) \<and> boot_maps kernmem p n vid s0 \<longrightarrow> boot_maps kernmem p n vid s1"
    by (rule map_own_table_boot [OF ok0 _ s1_def]) (use dom [OF ok0] in auto)
  define s2 where "s2 = map_virt_to_phys_addr (KERNEL_ADDR OR g_pdpt s1) (g_pdpt s1) s1"
  have "3 \<le> card (avail s1)" using n c0 c1 by simp
  then obtain L2 where ok2: "tables_ok (avail st) L2 s2" and c2: "card (avail s1) \<le> card (avail s2) + 3" and e2: "physfree_end s2 = physfree_end s1"
    and p2: "g_pml4 s2 = g_pml4 s1" and m2: "boot_apart kernmem n vid (avail st) \<and> boot_maps kernmem p n vid s1 \<longrightarrow> boot_maps kernmem p n vid s2"
    by (rule map_own_table_boot [OF ok1 _ s2_def]) (use dom [OF ok1] in auto)
  define s3 where "s3 = map_virt_to_phys_addr (KERNEL_ADDR OR g_pd s2) (g_pd s2) s2"
  have "3 \<le> card (avail s2)" using n c0 c1 c2 by simp
  then obtain L3 where ok3: "tables_ok (avail st) L3 s3" and c3: "card (avail s2) \<le> card (avail s3) + 3" and e3: "physfree_end s3 = physfree_end s2"
    and p3: "g_pml4 s3 = g_pml4 s2" and m3: "boot_apart kernmem n vid (avail st) \<and> boot_maps kernmem p n vid s2 \<longrightarrow> boot_maps kernmem p n vid s3"
    by (rule map_own_table_boot [OF ok2 _ s3_def]) (use dom [OF ok2] in auto)
  define s4 where "s4 = map_virt_to_phys_addr (KERNEL_ADDR OR g_pt s3) (g_pt s3) s3"
  have "3 \<le> card (avail s3)" using n c0 c1 c2 c3 by simp
  then obtain L4 where ok4: "tables_ok (avail st) L4 s4" and c4: "card (avail s3) \<le> card (avail s4) + 3" and e4: "physfree_end s4 = physfree_end s3"
    and p4: "g_pml4 s4 = g_pml4 s3" and m4: "boot_apart kernmem n vid (avail st) \<and> boot_maps kernmem p n vid s3 \<longrightarrow> boot_maps kernmem p n vid s4"
    by (rule map_own_table_boot [OF ok3 _ s4_def]) (use dom [OF ok3] in auto)
  have "setup_page_tables kernmem p st =
      do { s0 \<leftarrow> first_tree kernmem p st;
           let s1 = map_virt_to_phys_addr (KERNEL_ADDR OR g_pml4 s0) (g_pml4 s0) s0;
           let s2 = map_virt_to_phys_addr (KERNEL_ADDR OR g_pdpt s1) (g_pdpt s1) s1;
           let s3 = map_virt_to_phys_addr (KERNEL_ADDR OR g_pd s2) (g_pd s2) s2;
           Some (map_virt_to_phys_addr (KERNEL_ADDR OR g_pt s3) (g_pt s3) s3) }"
    unfolding setup_page_tables_def first_tree_def first_path_def
    by (cases "allocate_page st") (simp add: Let_def split: Option.bind_splits)
  also have "\<dots> = Some s4" by (simp add: f s1_def s2_def s3_def s4_def Let_def)
  finally show ?thesis
    using ok4 c0 c1 c2 c3 c4 e0 e1 e2 e3 e4 m0 m1 m2 m3 m4
    by (intro that [of s4 L4]) (simp_all add: tables_ok_def)
qed

section \<open>Properties\<close>

lemma map_virt_to_phys_addr_cr3: "g_cr3 (map_virt_to_phys_addr v p st) = g_cr3 st"
proof -
  obtain s x y t where e: "ensure_path 3 (g_pml4 st) v st = (s, x, y, t)" by (metis prod_cases4)
  have "g_cr3 s = g_cr3 st" by (subst ensure_path_frame [OF e]) simp
  then show ?thesis by (simp add: map_virt_to_phys_addr_eq e)
qed

lemma identity_loop_cr3:
  assumes "identity_loop v p st = Some st'"
  shows "g_cr3 st' = g_cr3 st"
  using _ assms
proof (rule identity_loop.raw_induct [of "\<lambda>v p s r. g_cr3 r = g_cr3 s"])
  fix loop :: "u64 \<Rightarrow> u64 \<Rightarrow> 'a paging_scheme \<Rightarrow> 'a paging_scheme option" and v p st st'
  assume "\<And>v p st st'. loop v p st = Some st' \<Longrightarrow> g_cr3 st' = g_cr3 st"
    and "(if p < physfree_end st then loop (v + 0x1000) (p + 0x1000) (map_virt_to_phys_addr v p st) else Some st) = Some st'"
  then show "g_cr3 st' = g_cr3 st"
    by (metis map_virt_to_phys_addr_cr3 option.inject)
qed

text \<open>The frames that \<open>init_paging\<close> leaves free, counted from a bitmap that marks a range.\<close>

lemma card_avail_range:
  assumes "free_frames (free_map st) = {i..<j}" "j < 2 ^ 19"
  shows "card (avail st) = j - i"
proof -
  have "inj_on (\<lambda>n. of_nat n * PAGE_SIZE) {i..<j}"
  proof (rule inj_onI)
    fix m n :: nat assume mn: "m \<in> {i..<j}" "n \<in> {i..<j}" and "of_nat m * PAGE_SIZE = of_nat n * PAGE_SIZE"
    then have "unat (of_nat (m * 4096) :: u64) = unat (of_nat (n * 4096) :: u64)" by simp
    with mn assms(2) show "m = n" by (simp add: unsigned_of_nat take_bit_nat_eq_self del: of_nat_mult)
  qed
  then show ?thesis unfolding avail_image assms(1) by (simp add: card_image)
qed

text \<open>A machine at boot: 64 free frames from 0x240000 on, below an image of two pages at 0x200000.\<close>

definition demo_boot :: paging where
  "demo_boot = demo\<lparr>free_map := (\<lambda>i. if i = 9 then -1 else 0), physfree_start := 0x202000, physfree_end := 0x280000\<rparr>"

lemma demo_boot_frames: "free_frames (free_map demo_boot) = {576..<640}"
proof -
  have "page_bit (free_map demo_boot) n \<longleftrightarrow> n \<in> {576..<640}" if "n < 16384" for n
  proof -
    have "page_bit (free_map demo_boot) n \<longleftrightarrow> (of_nat (n div 64) :: u64) = 9"
      by (simp add: page_bit_def demo_boot_def)
    also
have "(of_nat (n div 64) :: u64) = 9 \<longleftrightarrow> n div 64 = 9"
      using that by (simp add: word_unat_eq_iff unsigned_of_nat take_bit_nat_eq_self)
    also have "\<dots> \<longleftrightarrow> n \<in> {576..<640}" by auto
    finally show ?thesis .
  qed
  then show ?thesis by (auto simp: free_frames_def)
qed

lemma demo_boot_avail: "a \<in> avail demo_boot \<Longrightarrow> \<exists>k. 576 \<le> k \<and> k < 640 \<and> kaddr a = direct k"
proof -
  assume a: "a \<in> avail demo_boot"
  note f = avail_all_frames [OF a]
  have "unat a div 4096 \<in> free_frames (free_map demo_boot)"
    using a frame_no(1) [OF f] by (simp add: avail_def free_frames_def)
  then show ?thesis using kaddr_direct [OF f] by (auto simp: demo_boot_frames)
qed

text \<open>\<open>setup_page_tables\<close> returns and has built a well-formed tree with a fresh root, in \<^verbatim>\<open>cr3\<close>: page \<open>k\<close> of
  the kernel's image (as long as it fits the one page table) is mapped to frame \<open>k\<close> from \<^verbatim>\<open>physbase\<close> on, and the
  screen's page to 0xB8000, given 17 free frames away from both, and as long as the screen's slot is not in the
  image's page table.\<close>

theorem setup_page_tables_correct:
  assumes "17 \<le> card (avail st)"
    and "n = (unat (physfree_start st) - unat physbase + 4095) div 4096" "unat kernmem div 4096 mod 512 + n \<le> 512"
      "unat (physfree_start st) \<le> 2 ^ 64 - 4096"
    and "indices vid = video_indices kernmem" "get_index vid 21 \<noteq> get_index kernmem 21"
    and "\<forall>a \<in> avail st. indices (KERNEL_ADDR OR a) \<noteq> indices vid \<and> (\<forall>k<n. indices (KERNEL_ADDR OR a) \<noteq> indices (kernmem + of_nat (k * 4096)))"
  shows "\<exists>st' L. setup_page_tables kernmem physbase st = Some st' \<and> table_inv (pm st') (avail st') (g_cr3 st') L \<and>
    (\<forall>k<n. translate (pm st') (g_cr3 st') (kernmem + of_nat (k * 4096)) = Some ((physbase + of_nat (k * 4096)) OR 3)) \<and>
    translate (pm st') (g_cr3 st') vid = Some (0xB8000 OR 3)"
proof -
  have d: "page_no kernmem mod 512 + n \<le> 512" "visits physbase (physfree_start st) = n"
    using assms(2,3) by (simp_all add: page_no_def visits_def)
  have "boot_apart kernmem n vid (avail st)" using assms(7) by (simp add: boot_apart_def kaddr_def nth_page_def)
  then show ?thesis
    using setup_page_tables_spec [OF assms(1) d assms(4-6)] unfolding boot_maps_def nth_page_def by metis
qed

text \<open>C28: After \<open>start\<close> has set up memory the tables are live, and all of physical memory (from 0 to the end of the
  largest range of the loader's map) is mapped at \<^verbatim>\<open>KERNEL_ADDR\<close>, given enough free frames: 17 for the first tree
  and three for each 2 MiB.\<close>

theorem start_maps_memory:
  assumes "largest smap 0 (0, 0) = (base, len)" "s = init_paging physbase physfree base len st"
    and "n = (unat (physfree_start s) - unat physbase + 4095) div 4096" "unat kernmem div 4096 mod 512 + n \<le> 512"
      "unat (physfree_start s) \<le> 2 ^ 64 - 4096"
    and "indices vid = video_indices kernmem" "get_index vid 21 \<noteq> get_index kernmem 21"
    and "m = (unat (physfree_end s) + 4095) div 4096" "m \<le> 2 ^ 19" "17 + 3 * ((m + 511) div 512) \<le> card (avail s)"
  shows "\<exists>st' L. start kernmem physbase physfree smap st = Some st' \<and> table_inv (pm st') (avail st') (reg_cr3 st') L \<and>
    (\<forall>j<m. translate (pm st') (reg_cr3 st') (KERNEL_ADDR + of_nat (j * 4096)) = Some (of_nat (j * 4096) OR 3))"
proof -
  have d: "page_no kernmem mod 512 + n \<le> 512" "visits physbase (physfree_start s) = n"
    using assms(3,4) by (simp_all add: page_no_def visits_def)
  have "17 \<le> card (avail s)" using assms(10) by simp
  then obtain s1 L where s1: "setup_page_tables kernmem physbase s = Some s1" "table_inv (pm s1) (avail s1) (g_pml4 s1) L"
    "g_cr3 s1 = g_pml4 s1" "card (avail s) \<le> card (avail s1) + 17" "physfree_end s1 = physfree_end s"
    by (rule setup_page_tables_spec [OF _ d assms(5-7)])
  have "direct_cost 0 m \<le> card (avail s1)" using assms(10) s1(4) by (simp add: direct_cost_def)
  then have "\<exists>st' L'. identity_loop (direct 0) (of_nat (0 * 4096)) s1 = Some st' \<and>
     table_inv (pm st') (avail st') (g_pml4 s1) L' \<and> g_pml4 st' = g_pml4 s1 \<and> directly_mapped (g_pml4 s1) 0 m (pm s1) (pm st')"
    by (intro identity_loop_maps [OF s1(2) assms(9)]) (use assms(8) s1(5) in \<open>simp_all add: region_ready_def\<close>)
  then obtain s2 L' where s2: "set_identity_paging s1 = Some s2" "table_inv (pm s2) (avail s2) (g_pml4 s1) L'"
    "directly_mapped (g_pml4 s1) 0 m (pm s1) (pm s2)"
    by (auto simp: set_identity_paging_def direct_0)
  have "g_cr3 s2 = g_pml4 s1" using identity_loop_cr3 s2(1) s1(3) by (metis set_identity_paging_def)
  then have r: "reg_cr3 (load_CR3 s2) = g_pml4 s1" "pm (load_CR3 s2) = pm s2" "avail (load_CR3 s2) = avail s2"
    by (simp_all add: load_CR3_def Let_def avail_def)
  have "start kernmem physbase physfree smap st = Some (load_CR3 s2)"
    using s1(1) s2(1) by (simp add: start_def assms(1,2))
  with s2(2,3) show ?thesis by (auto simp: r directly_mapped_def direct_def)
qed

theorem setup_page_tables_correct_witness:
  "\<exists>st'. setup_page_tables 0xFFFFFFFF80200000 0x200000 demo_boot = Some st' \<and>
     translate (pm st') (g_cr3 st') 0xFFFFFFFF80201000 = Some 0x201003 \<and>
     translate (pm st') (g_cr3 st') 0xFFFFFFFF800B8000 = Some 0xB8003"
proof -
  have vid: "(0xFFFFFFFF800B8000 :: u64) = direct 184" and img: "(0xFFFFFFFF80200000 :: u64) + of_nat (k * 4096) = direct (512 + k)" for k
    by (simp_all add: direct_def)
  have "\<exists>st' L. setup_page_tables 0xFFFFFFFF80200000 0x200000 demo_boot = Some st' \<and> table_inv (pm st') (avail st') (g_cr3 st') L \<and>
    (\<forall>k<2. translate (pm st') (g_cr3 st') (0xFFFFFFFF80200000 + of_nat (k * 4096)) = Some ((0x200000 + of_nat (k * 4096)) OR 3)) \<and>
    translate (pm st') (g_cr3 st') 0xFFFFFFFF800B8000 = Some (0xB8000 OR 3)"
  proof (rule setup_page_tables_correct)
    show "17 \<le> card (avail demo_boot)" using card_avail_range [OF demo_boot_frames] by simp
    show "indices 0xFFFFFFFF800B8000 = video_indices 0xFFFFFFFF80200000"
      "get_index 0xFFFFFFFF800B8000 21 \<noteq> get_index 0xFFFFFFFF80200000 21"
      by (simp_all add: indices_def video_indices_def get_index_def)
    show "\<forall>a\<in>avail demo_boot. indices (KERNEL_ADDR OR a) \<noteq> indices 0xFFFFFFFF800B8000 \<and>
        (\<forall>k<2. indices (KERNEL_ADDR OR a) \<noteq> indices (0xFFFFFFFF80200000 + of_nat (k * 4096)))"
    proof
      fix a assume "a \<in> avail demo_boot"
      then obtain k where k: "576 \<le> k" "k < 640" "kaddr a = direct k" using demo_boot_avail by blast
      have "indices (direct k) \<noteq> indices (direct j)" if "j < 576" for j
        using indices_direct_eq [of k j] k(1,2) that by simp
      then show "indices (KERNEL_ADDR OR a) \<noteq> indices 0xFFFFFFFF800B8000 \<and>
        (\<forall>k<2. indices (KERNEL_ADDR OR a) \<noteq> indices (0xFFFFFFFF80200000 + of_nat (k * 4096)))"
        unfolding kaddr_def [symmetric] k(3) vid img by simp
    qed
  qed (simp_all add: demo_boot_def)
  then obtain st' where "setup_page_tables 0xFFFFFFFF80200000 0x200000 demo_boot = Some st'"
    "\<forall>k<2. translate (pm st') (g_cr3 st') (0xFFFFFFFF80200000 + of_nat (k * 4096)) = Some ((0x200000 + of_nat (k * 4096)) OR 3)"
    "translate (pm st') (g_cr3 st') 0xFFFFFFFF800B8000 = Some (0xB8000 OR 3)" by blast
  from this(1,3) this(2) [rule_format, of 1] show ?thesis by simp
qed

text \<open>A loader's map with one small and one large usable range, the bitmap at 0x23F800 and an image of 64 pages.\<close>

theorem start_maps_memory_witness:
  "\<exists>st'. start 0xFFFFFFFF80200000 0x200000 0x23F800 [(0, 0x9F000, 1), (0x100000, 0x180000, 1)] demo = Some st' \<and>
     translate (pm st') (reg_cr3 st') 0xFFFFFFFF8027F000 = Some 0x27F003"
proof -
  let ?s = "init_paging 0x200000 0x23F800 0x100000 0x180000 demo"
  have k: "unat ((0x100000 + 0x180000 :: u64) div PAGE_SIZE) = 640" by (simp add: unat_div)
  have "page_bit (free_map ?s) n \<longleftrightarrow> n \<in> {576..<640}" if "n < 16384" for n
    using init_paging_page_bit [of "0x100000" "0x180000" n "0x200000" "0x23F800" demo] that unfolding k by auto
  then have "free_frames (free_map ?s) = {576..<640}" by (auto simp: free_frames_def)
  from card_avail_range [OF this] have c: "card (avail ?s) = 64" by simp
  have e: "physfree_start ?s = 0x240000" "physfree_end ?s = 0x280000" by (simp_all add: init_paging_def Let_def)
  have "\<exists>st' L. start 0xFFFFFFFF80200000 0x200000 0x23F800 [(0, 0x9F000, 1), (0x100000, 0x180000, 1)] demo = Some st' \<and>
    table_inv (pm st') (avail st') (reg_cr3 st') L \<and>
    (\<forall>j<640. translate (pm st') (reg_cr3 st') (KERNEL_ADDR + of_nat (j * 4096)) = Some (of_nat (j * 4096) OR 3))"
  proof (rule start_maps_memory [where base = "0x100000" and len = "0x180000", OF _ refl refl])
    show "indices 0xFFFFFFFF800B8000 = video_indices 0xFFFFFFFF80200000"
      "get_index 0xFFFFFFFF800B8000 21 \<noteq> get_index 0xFFFFFFFF80200000 21"
      by (simp_all add: indices_def video_indices_def get_index_def)
  qed (simp_all add: c e)
  then obtain st' where "start 0xFFFFFFFF80200000 0x200000 0x23F800 [(0, 0x9F000, 1), (0x100000, 0x180000, 1)] demo = Some st'"
    "\<forall>j<640. translate (pm st') (reg_cr3 st') (KERNEL_ADDR + of_nat (j * 4096)) = Some (of_nat (j * 4096) OR 3)" by blast
  from this(1) this(2) [rule_format, of 639] show ?thesis by simp
qed

end
