(* ===== verification/UserMem.thy ===== *)
theory UserMem
  imports PageFault
begin

text \<open>
  Memory as a program sees it: a byte at a virtual address is a byte of the frame that the current
  tables map the address to. An access to an address that is not mapped is a fault, \<open>None\<close>. The
  memory routines of \<^verbatim>\<open>sys/paging_helper.c\<close> on such addresses.
\<close>

unbundle bit_operations_syntax

section \<open>Bytes of words\<close>

definition byte_of :: "u64 \<Rightarrow> nat \<Rightarrow> u8" where
  "byte_of w k = ucast (drop_bit (8 * k) w)"

definition set_byte :: "u64 \<Rightarrow> nat \<Rightarrow> u8 \<Rightarrow> u64" where
  "set_byte w k b = (w AND NOT (push_bit (8 * k) 0xFF)) OR push_bit (8 * k) (ucast b)"

lemma bit_byte_of: "k < 8 \<Longrightarrow> bit (byte_of w k) n \<longleftrightarrow> n < 8 \<and> bit w (8 * k + n)"
  by (auto simp: byte_of_def bit_simps)

lemma bit_0xFF: "bit (0xFF :: u64) n \<longleftrightarrow> n < 8"
proof -
  have "(0xFF :: u64) = mask 8" by (simp add: mask_eq_exp_minus_1)
  then show ?thesis by (simp only: bit_mask_iff) auto
qed

lemma bit_set_byte:
  assumes "k < 8" "i < 64"
  shows "bit (set_byte w k b) i \<longleftrightarrow> (if 8 * k \<le> i \<and> i < 8 * k + 8 then bit b (i - 8 * k) else bit w i)"
proof -
  have b: "bit b m \<Longrightarrow> m < 8" for m using bit_imp_le_length [of b m] by simp
  have "bit (push_bit (8 * k) 0xFF :: u64) i \<longleftrightarrow> 8 * k \<le> i \<and> i < 8 * k + 8"
    using assms unfolding bit_push_bit_iff bit_0xFF by auto
  moreover have "bit (push_bit (8 * k) (ucast b) :: u64) i \<longleftrightarrow> 8 * k \<le> i \<and> bit b (i - 8 * k)"
    using assms b by (auto simp: bit_push_bit_iff bit_unsigned_iff)
  ultimately show ?thesis
    using assms b [of "i - 8 * k"] unfolding set_byte_def by (auto simp: bit_or_iff bit_and_iff bit_not_iff)
qed

lemma byte_of_set_byte:
  assumes "k < 8" "j < 8"
  shows "byte_of (set_byte w k b) j = (if j = k then b else byte_of w j)"
proof (rule bit_word_eqI)
  fix n assume "n < LENGTH(8)"
  then have n: "n < 8" by simp
  have "8 * k \<le> 8 * j + n \<and> 8 * j + n < 8 * k + 8 \<longleftrightarrow> j = k" using n by (cases j k rule: linorder_cases) auto
  moreover have "8 * j + n < 64" using n assms by simp
  ultimately show "bit (byte_of (set_byte w k b) j) n = bit (if j = k then b else byte_of w j) n"
    using n assms(2) bit_set_byte [OF assms(1), of "8 * j + n" w b] by (simp add: bit_byte_of)
qed

text \<open>The cell of an address, and a byte of the memory.\<close>

definition cell :: "u64 \<Rightarrow> u64" where
  "cell a = a AND 0xFFFFFFFFFFFFFFF8"

definition lane :: "u64 \<Rightarrow> nat" where
  "lane a = unat (a AND 7)"

definition pbyte :: "(u64 \<Rightarrow> u64) \<Rightarrow> u64 \<Rightarrow> u8" where
  "pbyte f a = byte_of (f (cell a)) (lane a)"

definition pset :: "(u64 \<Rightarrow> u64) \<Rightarrow> u64 \<Rightarrow> u8 \<Rightarrow> (u64 \<Rightarrow> u64)" where
  "pset f a b = f(cell a := set_byte (f (cell a)) (lane a) b)"

lemma lane_less: "lane a < 8"
proof -
  have "(7 :: u64) = mask 3" by (simp add: mask_eq_exp_minus_1)
  then have "a AND 7 = take_bit 3 a" by (simp add: take_bit_eq_mask)
  then have "lane a = take_bit 3 (unat a)" by (simp add: lane_def unsigned_take_bit_eq)
  then show ?thesis using take_bit_nat_less_exp [of 3 "unat a"] by simp
qed

lemma cell_lane_inj:
  assumes "cell a = cell b" "lane a = lane b"
  shows "a = b"
proof (rule bit_word_eqI)
  fix n assume "n < LENGTH(64)"
  have m: "(7 :: u64) = mask 3" "(0xFFFFFFFFFFFFFFF8 :: u64) = NOT (mask 3)" by (simp_all add: mask_eq_exp_minus_1)
  have "a AND 7 = b AND 7" using assms(2) by (simp add: lane_def word_unat_eq_iff)
  then have "bit (a AND mask 3) n = bit (b AND mask 3) n" "bit (a AND NOT (mask 3)) n = bit (b AND NOT (mask 3)) n"
    using assms(1) by (simp_all add: cell_def m)
  with \<open>n < LENGTH(64)\<close> show "bit a n = bit b n" by (cases "n < 3") (simp_all add: bit_simps)
qed

lemma pbyte_pset: "pbyte (pset f a b) x = (if x = a then b else pbyte f x)"
proof (cases "cell x = cell a")
  case True
  then show ?thesis
    using cell_lane_inj [of x a] by (auto simp: pbyte_def pset_def byte_of_set_byte lane_less)
qed (auto simp: pbyte_def pset_def)

lemma remove_flag_cell: "remove_flag (cell a) = remove_flag a"
proof -
  have "(0xFFFFFFFFFFFFFFF8 :: u64) AND 0xFFFFFFFFFFFFF000 = 0xFFFFFFFFFFFFF000" by simp
  then show ?thesis by (simp add: remove_flag_def cell_def and.assoc)
qed

lemma pset_other: "remove_flag x \<noteq> remove_flag a \<Longrightarrow> pset f a b x = f x"
  by (auto simp: pset_def remove_flag_cell)

section \<open>Virtual memory\<close>

definition frame_of :: "'a paging_scheme \<Rightarrow> u64 \<Rightarrow> u64 option" where
  "frame_of st va = map_option remove_flag (translate (pm st) (reg_cr3 st) va)"

definition phys_of :: "'a paging_scheme \<Rightarrow> u64 \<Rightarrow> u64 option" where
  "phys_of st va = map_option (\<lambda>a. a + (va AND mask 12)) (frame_of st va)"

definition ld :: "'a paging_scheme \<Rightarrow> u64 \<Rightarrow> u8 option" where
  "ld st va = map_option (pbyte (pm st)) (phys_of st va)"

definition sb :: "u64 \<Rightarrow> u8 \<Rightarrow> 'a paging_scheme \<Rightarrow> 'a paging_scheme option" where
  "sb va b st = map_option (\<lambda>a. st\<lparr>pm := pset (pm st) a b\<rparr>) (phys_of st va)"

text \<open>Little-endian fields of \<open>n\<close> bytes.\<close>

fun ld_le :: "nat \<Rightarrow> 'a paging_scheme \<Rightarrow> u64 \<Rightarrow> u64 option" where
  "ld_le 0 st a = Some 0"
| "ld_le (Suc n) st a = do { b \<leftarrow> ld st a; w \<leftarrow> ld_le n st (a + 1); Some (ucast b OR push_bit 8 w) }"

text \<open>\<^verbatim>\<open>memset\<close> with 0 and \<^verbatim>\<open>memcpy\<close>, byte by byte from the front.\<close>

fun memset0 :: "u64 \<Rightarrow> nat \<Rightarrow> 'a paging_scheme \<Rightarrow> 'a paging_scheme option" where
  "memset0 a 0 st = Some st"
| "memset0 a (Suc n) st = do { st \<leftarrow> sb a 0 st; memset0 (a + 1) n st }"

fun copy_mem :: "u64 \<Rightarrow> u64 \<Rightarrow> nat \<Rightarrow> 'a paging_scheme \<Rightarrow> 'a paging_scheme option" where
  "copy_mem src dst 0 st = Some st"
| "copy_mem src dst (Suc n) st = do { b \<leftarrow> ld st src; st \<leftarrow> sb dst b st; copy_mem (src + 1) (dst + 1) n st }"

text \<open>Storing a list of bytes, and the string at an address.\<close>

fun store_bytes :: "u64 \<Rightarrow> u8 list \<Rightarrow> 'a paging_scheme \<Rightarrow> 'a paging_scheme option" where
  "store_bytes a [] st = Some st"
| "store_bytes a (b # bs) st = do { st \<leftarrow> sb a b st; store_bytes (a + 1) bs st }"

partial_function (option) ld_string :: "'a paging_scheme \<Rightarrow> u64 \<Rightarrow> u8 list option" where
  "ld_string st a = do {
     b \<leftarrow> ld st a;
     if b = 0 then Some [] else do { s \<leftarrow> ld_string st (a + 1); Some (b # s) }
   }"

section \<open>Bytes through the tables\<close>

lemma remove_flag_plus: "page_aligned f \<Longrightarrow> remove_flag (f + (va AND mask 12)) = f"
proof -
  assume f: "page_aligned f"
  obtain k where k: "unat f = 4096 * k" using f unfolding page_aligned_def by (metis mod_0_imp_dvd dvdE)
  have low: "unat (va AND mask 12) < 4096" by (simp add: unat_low12)
  have "k < 2 ^ 52" using unat_lt64 [of f] k by simp
  then have "unat (f + (va AND mask 12)) = unat f + unat (va AND mask 12)"
    using k low by (subst unat_word_ariths) simp
  with k low show ?thesis by (simp add: word_unat_eq_iff unat_remove_flag)
qed

lemma frame_plus_inj:
  assumes "page_aligned f" "page_aligned g" "f + (x AND mask 12) = g + (y AND mask 12)"
  shows "f = g \<and> x AND mask 12 = y AND mask 12"
  using remove_flag_plus [OF assms(1), of x] remove_flag_plus [OF assms(2), of y] assms(3) by auto

lemma phys_of_frame: "phys_of st va = Some p \<Longrightarrow> frame_of st va = Some (remove_flag p)"
  by (auto simp: phys_of_def frame_of_def remove_flag_plus)

lemma phys_of_cong:
  "translate (pm st') (reg_cr3 st') va = translate (pm st) (reg_cr3 st) va \<Longrightarrow> phys_of st' va = phys_of st va"
  by (simp add: phys_of_def frame_of_def)

text \<open>A byte stored in a frame that is no table changes that byte, and no mapping.\<close>

lemma sb_eq:
  assumes inv: "table_inv (pm st) A (reg_cr3 st) L" and p: "phys_of st a = Some p" "L (remove_flag p) = None"
  shows "sb a b st = Some (st\<lparr>pm := pset (pm st) p b\<rparr>)"
    and "table_inv (pset (pm st) p b) A (reg_cr3 st) L"
    and "translate (pset (pm st) p b) (reg_cr3 st) va = translate (pm st) (reg_cr3 st) va"
proof -
  let ?r = "reg_cr3 st"
  have wf: "wf_tables (pm st) ?r L" by (rule table_inv_wf [OF inv])
  note eq = pset_other [of _ p "pm st" b]
  show "sb a b st = Some (st\<lparr>pm := pset (pm st) p b\<rparr>)" by (simp add: sb_def p(1))
  show "table_inv (pset (pm st) p b) A ?r L"
    using inv data_write_wf [OF wf eq p(2)] by (simp add: table_inv_def)
  have "L ?r = Some (length (indices va))" using wf_tables_root [OF wf] by (simp add: indices_def)
  from data_write_leaf_of(2) [OF wf eq p(2) this indices_less]
  show "translate (pset (pm st) p b) ?r va = translate (pm st) ?r va" by (simp add: translate_def)
qed

text \<open>
  \<open>memcpy\<close> between mapped bytes: the target bytes (at the physical addresses \<open>P\<close>) become the source
  bytes (at \<open>S\<close>), every other byte and every mapping stays.
\<close>

lemma copy_mem_eq:
  assumes "table_inv (pm st) A (reg_cr3 st) L"
    and "\<forall>j<n. phys_of st (src + of_nat j) = Some (S j)"
    and "\<forall>j<n. phys_of st (dst + of_nat j) = Some (P j) \<and> L (remove_flag (P j)) = None"
    and "\<forall>i<n. \<forall>j<n. S i \<noteq> P j" and "\<forall>i<n. \<forall>j<n. P i = P j \<longrightarrow> i = j"
  shows "\<exists>g. copy_mem src dst n st = Some (st\<lparr>pm := g\<rparr>) \<and> table_inv g A (reg_cr3 st) L \<and>
    (\<forall>va. translate g (reg_cr3 st) va = translate (pm st) (reg_cr3 st) va) \<and>
    (\<forall>j<n. pbyte g (P j) = pbyte (pm st) (S j)) \<and> (\<forall>x. (\<forall>j<n. x \<noteq> P j) \<longrightarrow> pbyte g x = pbyte (pm st) x)"
  using assms
proof (induction n arbitrary: st src dst S P)
  case 0
  then show ?case by (intro exI [of _ "pm st"]) simp
next
  case (Suc n)
  let ?r = "reg_cr3 st"
  define b where "b = pbyte (pm st) (S 0)"
  define g1 where "g1 = pset (pm st) (P 0) b"
  define st1 where "st1 = st\<lparr>pm := g1\<rparr>"
  have p0: "phys_of st dst = Some (P 0)" "L (remove_flag (P 0)) = None" and s0: "phys_of st src = Some (S 0)"
    using Suc.prems(2,3) [rule_format, of 0] by simp_all
  note sb = sb_eq [OF Suc.prems(1) p0, of b, folded g1_def]
  have inv1: "table_inv (pm st1) A (reg_cr3 st1) L" using sb(2) by (simp add: st1_def)
  have same: "phys_of st1 va = phys_of st va" for va
    by (rule phys_of_cong) (simp add: st1_def sb(3))
  have "\<forall>j<n. phys_of st1 (src + 1 + of_nat j) = Some (S (Suc j))"
  proof (intro allI impI)
    fix j assume "j < n"
    then show "phys_of st1 (src + 1 + of_nat j) = Some (S (Suc j))"
      using Suc.prems(2) [rule_format, of "Suc j"] unfolding same by (simp add: add.assoc)
  qed
  moreover have "\<forall>j<n. phys_of st1 (dst + 1 + of_nat j) = Some (P (Suc j)) \<and> L (remove_flag (P (Suc j))) = None"
  proof (intro allI impI)
    fix j assume "j < n"
    then show "phys_of st1 (dst + 1 + of_nat j) = Some (P (Suc j)) \<and> L (remove_flag (P (Suc j))) = None"
      using Suc.prems(3) [rule_format, of "Suc j"] unfolding same by (simp add: add.assoc)
  qed
  moreover have "\<forall>i<n. \<forall>j<n. S (Suc i) \<noteq> P (Suc j)" using Suc.prems(4) by auto
  moreover have "\<forall>i<n. \<forall>j<n. P (Suc i) = P (Suc j) \<longrightarrow> i = j"
    using Suc.prems(5) [rule_format, of "Suc i" "Suc j" for i j] by simp
  ultimately have "\<exists>g. copy_mem (src + 1) (dst + 1) n st1 = Some (st1\<lparr>pm := g\<rparr>) \<and> table_inv g A (reg_cr3 st1) L \<and>
    (\<forall>va. translate g (reg_cr3 st1) va = translate (pm st1) (reg_cr3 st1) va) \<and>
    (\<forall>j<n. pbyte g (P (Suc j)) = pbyte (pm st1) (S (Suc j))) \<and>
    (\<forall>x. (\<forall>j<n. x \<noteq> P (Suc j)) \<longrightarrow> pbyte g x = pbyte (pm st1) x)"
    by (rule Suc.IH [OF inv1])
  moreover have "reg_cr3 st1 = ?r" by (simp add: st1_def)
  ultimately obtain g where g: "copy_mem (src + 1) (dst + 1) n st1 = Some (st1\<lparr>pm := g\<rparr>)" "table_inv g A ?r L"
      "\<forall>va. translate g ?r va = translate (pm st1) ?r va"
      "\<forall>j<n. pbyte g (P (Suc j)) = pbyte (pm st1) (S (Suc j))"
      "\<forall>x. (\<forall>j<n. x \<noteq> P (Suc j)) \<longrightarrow> pbyte g x = pbyte (pm st1) x"
    by metis
  have pb: "pbyte (pm st1) x = (if x = P 0 then b else pbyte (pm st) x)" for x
    by (simp add: st1_def g1_def pbyte_pset)
  have "copy_mem src dst (Suc n) st = Some (st\<lparr>pm := g\<rparr>)"
    using g(1) sb(1) s0 by (simp add: ld_def b_def st1_def)
  moreover have "\<forall>va. translate g ?r va = translate (pm st) ?r va" using g(3) sb(3) by (simp add: st1_def)
  moreover have "pbyte g (P j) = pbyte (pm st) (S j)" if "j < Suc n" for j
  proof (cases j)
    case 0
    have "\<forall>i<n. P 0 \<noteq> P (Suc i)" using Suc.prems(5) by (metis Suc_less_eq nat.distinct(1) zero_less_Suc)
    with g(5) 0 show ?thesis by (simp add: pb b_def)
  next
    case (Suc i)
    with that g(4) Suc.prems(4) show ?thesis by (simp add: pb)
  qed
  moreover have "pbyte g x = pbyte (pm st) x" if "\<forall>j<Suc n. x \<noteq> P j" for x
    using that g(5) pb by auto
  ultimately show ?case using g(2) by blast
qed

end
