(* ===== verification/Elf.thy ===== *)
theory Elf
  imports UserMem
begin

text \<open>
  The loader, \<^verbatim>\<open>sys/elf64.c\<close>: the check of a header, and \<open>load_binaries\<close>, which maps and fills
  the segments of an executable and gives the process its areas. It runs in the address space of
  the process; headers and segments are read through it.
\<close>

unbundle bit_operations_syntax

section \<open>Definitions\<close>

text \<open>The headers of \<^verbatim>\<open>include/sys/elf64.h\<close>, the fields that are read, at their offsets.\<close>

record elf64_ehdr =
  e_entry :: u64
  e_phoff :: u64
  e_phnum :: nat

record elf64_phdr =
  p_type :: u64
  p_flags :: u64
  p_offset :: u64
  p_vaddr :: u64
  p_filesz :: u64
  p_memsz :: u64

abbreviation (input) PT_LOAD :: u64 where "PT_LOAD \<equiv> 1"
abbreviation (input) PF_R :: u64 where "PF_R \<equiv> 4"
abbreviation (input) PF_W :: u64 where "PF_W \<equiv> 2"
abbreviation (input) PF_X :: u64 where "PF_X \<equiv> 1"

definition ld_ehdr :: "kernel \<Rightarrow> u64 \<Rightarrow> elf64_ehdr option" where
  "ld_ehdr st a = do {
     entry \<leftarrow> ld_le 8 st (a + 24);
     phoff \<leftarrow> ld_le 8 st (a + 32);
     phnum \<leftarrow> ld_le 2 st (a + 56);
     Some \<lparr>e_entry = entry, e_phoff = phoff, e_phnum = unat phnum\<rparr>
   }"

definition ld_phdr :: "kernel \<Rightarrow> u64 \<Rightarrow> elf64_phdr option" where
  "ld_phdr st a = do {
     ty \<leftarrow> ld_le 4 st a;
     fl \<leftarrow> ld_le 4 st (a + 4);
     off \<leftarrow> ld_le 8 st (a + 8);
     vaddr \<leftarrow> ld_le 8 st (a + 16);
     filesz \<leftarrow> ld_le 8 st (a + 32);
     memsz \<leftarrow> ld_le 8 st (a + 40);
     Some \<lparr>p_type = ty, p_flags = fl, p_offset = off, p_vaddr = vaddr, p_filesz = filesz, p_memsz = memsz\<rparr>
   }"

definition bad_magic :: "string \<Rightarrow> kernel \<Rightarrow> kernel" where
  "bad_magic field st = print (bytes ''ELF Header '' @ bytes field @ bytes '' incorrect '' @ [10]) st"

definition elf_check_header :: "u64 \<Rightarrow> kernel \<Rightarrow> (kernel \<times> cint) option" where
  "elf_check_header elfhdr st =
     (if elfhdr = 0 then Some (st, 0)
      else do {
        b0 \<leftarrow> ld st elfhdr;
        if b0 \<noteq> 0x7F then Some (bad_magic ''EI_MAG0'' st, 0)
        else do {
          b1 \<leftarrow> ld st (elfhdr + 1);
          if b1 \<noteq> 69 then Some (bad_magic ''EI_MAG1'' st, 0)
          else do {
            b2 \<leftarrow> ld st (elfhdr + 2);
            if b2 \<noteq> 76 then Some (bad_magic ''EI_MAG2'' st, 0)
            else do {
              b3 \<leftarrow> ld st (elfhdr + 3);
              if b3 \<noteq> 70 then Some (bad_magic ''EI_MAG3'' st, 0) else Some (st, 1)
            }
          }
        }
      })"

text \<open>A fresh object: \<open>kmalloc\<close> of a page, whose fields are all 0.\<close>

definition new_vma :: "kernel \<Rightarrow> kernel \<times> u64" where
  "new_vma st = (let (st, v) = kmalloc 4096 st in (st\<lparr>vmas := (vmas st)(v := null_vma)\<rparr>, v))"

definition upd_vma :: "u64 \<Rightarrow> (vma \<Rightarrow> vma) \<Rightarrow> kernel \<Rightarrow> kernel" where
  "upd_vma v f st = st\<lparr>vmas := (vmas st)(v := f (vmas st v))\<rparr>"

definition upd_mm :: "u64 \<Rightarrow> (mm_struct \<Rightarrow> mm_struct) \<Rightarrow> kernel \<Rightarrow> kernel" where
  "upd_mm m f st = st\<lparr>mms := (mms st)(m := f (mms st m))\<rparr>"

text \<open>The pages of a segment, from the page of its first byte to the page of the byte after its last.\<close>

partial_function (option) map_segment :: "u64 \<Rightarrow> u64 \<Rightarrow> u64 \<Rightarrow> kernel \<Rightarrow> (kernel \<times> u64) option" where
  "map_segment phdr_start phdr_end cr3_addr st =
     (if phdr_start \<le> phdr_end then
        (let (st, page) = allocate_virt_page st;
             virt_page = KERNEL_ADDR OR page;
             st = memset_page virt_page st;
             st = map_phys_to_user_virt_addr phdr_start page cr3_addr st
         in map_segment (phdr_start + PAGE_SIZE) phdr_end cr3_addr st)
      else Some (st, phdr_start))"

definition no_mm_text :: "u8 list" where
  "no_mm_text = bytes ''Unable to add to mmstruct'' @ [10]"

text \<open>One segment to load; the flag is False when the area cannot be added.\<close>

definition load_segment :: "u64 \<Rightarrow> u64 \<Rightarrow> elf64_phdr \<Rightarrow> kernel \<Rightarrow> (kernel \<times> bool) option" where
  "load_segment proc elf_hdr ph st = do {
     let phdr_start = p_vaddr ph div PAGE_SIZE * PAGE_SIZE;
     let phdr_end = p_vaddr ph + p_memsz ph;
     let (st, v) = new_vma st;
     let st = upd_vma v (\<lambda>a. a\<lparr>vm_start := p_vaddr ph\<rparr>) st;
     let st = upd_vma v (\<lambda>a. a\<lparr>vm_end := phdr_end\<rparr>) st;
     (st, ret_val) \<leftarrow> add_mmstruct (mm (pcbs st proc)) v st;
     if ret_val = -1 then Some (print no_mm_text st, False)
     else do {
       (st, phdr_start) \<leftarrow> map_segment phdr_start phdr_end (cr3 (pcbs st proc)) st;
       let st = upd_vma v (\<lambda>a. a\<lparr>vm_flags := p_flags ph\<rparr>) st;
       let st = upd_vma v (\<lambda>a. a\<lparr>vm_next := 0\<rparr>) st;
       if p_flags ph = PF_R OR PF_X \<or> p_flags ph = PF_R OR PF_W then do {
         let st = upd_mm (mm (pcbs st proc)) (\<lambda>m. m\<lparr>code_start := phdr_start\<rparr>) st;
         let st = upd_mm (mm (pcbs st proc)) (\<lambda>m. m\<lparr>code_end := phdr_end\<rparr>) st;
         let (st, f) = kmalloc 4096 st;
         let st = upd_vma v (\<lambda>a. a\<lparr>vm_file := f\<rparr>) st;
         let st = upd_vma v (\<lambda>a. a\<lparr>file_start := p_offset ph\<rparr>) st;
         let st = upd_vma v (\<lambda>a. a\<lparr>file_size := p_filesz ph\<rparr>) st;
         st \<leftarrow> copy_mem (elf_hdr + p_offset ph) (vm_start (vmas st v)) (unat (ucast (p_filesz ph) :: u32)) st;
         Some (upd_vma v (\<lambda>a. a\<lparr>vm_type := if p_flags ph = PF_R OR PF_X then TEXT else DATA\<rparr>) st, True)
       }
       else Some (st, True)
     }
   }"

text \<open>The loop over the program headers, 56 bytes each. A header is read once in its turn.\<close>

partial_function (option) load_loop :: "u64 \<Rightarrow> u64 \<Rightarrow> nat \<Rightarrow> kernel \<Rightarrow> (kernel \<times> bool) option" where
  "load_loop proc elf_hdr i st = do {
     eh \<leftarrow> ld_ehdr st elf_hdr;
     if i < e_phnum eh then do {
       ph \<leftarrow> ld_phdr st (elf_hdr + e_phoff eh + of_nat (56 * i));
       if p_type ph = PT_LOAD then do {
         (st, ok) \<leftarrow> load_segment proc elf_hdr ph st;
         if ok then load_loop proc elf_hdr (Suc i) st else Some (st, False)
       }
       else load_loop proc elf_hdr (Suc i) st
     }
     else Some (st, True)
   }"

definition load_binaries :: "u64 \<Rightarrow> u64 \<Rightarrow> kernel \<Rightarrow> (kernel \<times> cint) option" where
  "load_binaries proc elf_hdr st = do {
     (st, ok) \<leftarrow> elf_check_header elf_hdr st;
     if ok = 0 then Some (st, -1)
     else do {
       eh \<leftarrow> ld_ehdr st elf_hdr;
       let st = upd_pcb proc (\<lambda>p. p\<lparr>rip := e_entry eh\<rparr>) st;
       (st, ok) \<leftarrow> load_loop proc elf_hdr 0 st;
       if \<not> ok then Some (st, -1)
       else do {
         let (st, heap_vma) = new_vma st;
         let st = upd_vma heap_vma (\<lambda>a. a\<lparr>vm_start := HEAP_ADDR\<rparr>) st;
         let st = upd_vma heap_vma (\<lambda>a. a\<lparr>vm_end := HEAP_ADDR + PAGE_SIZE\<rparr>) st;
         (st, ret_val) \<leftarrow> add_mmstruct (mm (pcbs st proc)) heap_vma st;
         if ret_val = -1 then Some (print no_mm_text st, -1)
         else do {
           let st = upd_vma heap_vma (\<lambda>a. a\<lparr>vm_flags := PF_R OR PF_W, vm_type := HEAP, vm_file := 0, vm_next := 0\<rparr>) st;
           let (st, stack_vma) = new_vma st;
           let st = upd_vma stack_vma (\<lambda>a. a\<lparr>vm_start := STACK_ADDR, vm_end := STACK_END, vm_flags := PF_R OR PF_W,
                      vm_type := STACK, vm_file := 0, vm_next := 0\<rparr>) st;
           (st, ret_val) \<leftarrow> add_mmstruct (mm (pcbs st proc)) stack_vma st;
           if ret_val = -1 then Some (print no_mm_text st, -1)
           else do {
             st \<leftarrow> init_mmap proc st;
             Some (st, 0)
           }
         }
       }
     }
   }"

end
