(* ===== verification/Exec.thy ===== *)
theory Exec
  imports Tarfs Elf
begin

text \<open>
  Creating processes, from \<^verbatim>\<open>sys/process.c\<close>: the kernel thread and the first program, \<^verbatim>\<open>fork\<close> (a copy
  of the parent's objects and a tree of tables that shares its pages, \<open>copy_parent_tables\<close> of
  \<^verbatim>\<open>sys/paging.c\<close>), and \<^verbatim>\<open>execve\<close>. Addresses of code and of the kernel's stack pointer are
  arguments; the register moves of the inline assembly are not modelled.
\<close>

unbundle bit_operations_syntax

section \<open>Definitions\<close>

text \<open>A process block is two pages; \<^verbatim>\<open>sizeof(pcb_t)\<close> is 5706, and arithmetic on a \<^verbatim>\<open>pcb_t *\<close> counts in it.\<close>

definition new_pcb :: "kernel \<Rightarrow> kernel \<times> u64" where
  "new_pcb st = (let (st, p) = kmalloc 6000 st in (st\<lparr>pcbs := (pcbs st)(p := null_pcb)\<rparr>, p))"

definition new_mm :: "kernel \<Rightarrow> kernel \<times> u64" where
  "new_mm st = (let (st, m) = kmalloc 4096 st in (st\<lparr>mms := (mms st)(m := null_mm)\<rparr>, m))"

definition kernel_stack_of :: "u64 \<Rightarrow> u64" where
  "kernel_stack_of p = p + (PAGE_SIZE - 8) * 5706"

definition create_kernel_thread :: "u64 \<Rightarrow> kernel \<Rightarrow> kernel option" where
  "create_kernel_thread initial_ret_function st = do {
     let (st, k_pcb) = new_pcb st;
     let st = upd_pcb k_pcb (\<lambda>p. p\<lparr>p_name := bytes ''kernel''\<rparr>) st;
     let (st, i) = get_next_processID st;
     let st = upd_pcb k_pcb (\<lambda>p. p\<lparr>pid := i\<rparr>) st;
     let st = upd_pcb k_pcb (\<lambda>p. p\<lparr>ppid := 1\<rparr>) st;
     let st = upd_pcb k_pcb (\<lambda>p. p\<lparr>cr3 := get_CR3_address st\<rparr>) st;
     let st = upd_pcb k_pcb (\<lambda>p. p\<lparr>state := TASK_RUNNING\<rparr>) st;
     let st = upd_pcb k_pcb (\<lambda>p. p\<lparr>next_proc := next_process st\<rparr>) st;
     let st = upd_pcb k_pcb (\<lambda>p. p\<lparr>mm := 0\<rparr>) st;
     let st = st\<lparr>first_process := k_pcb\<rparr>;
     let st = st\<lparr>curr_process := k_pcb\<rparr>;
     let st = upd_pcb (curr_process st) (\<lambda>p. p\<lparr>next_proc := 0\<rparr>) st;
     let st = upd_pcb k_pcb (\<lambda>p. p\<lparr>init_kernel := k_pcb + PAGE_SIZE\<rparr>) st;
     let st = upd_pcb k_pcb (\<lambda>p. p\<lparr>rsp := k_pcb + PAGE_SIZE\<rparr>) st;
     let st = upd_pcb k_pcb (\<lambda>p. p\<lparr>rsp := rsp p - 8\<rparr>) st;
     Some (wr (rsp (pcbs st k_pcb)) initial_ret_function st)
   }"

text \<open>
  The user stack of a new process: a page below \<^verbatim>\<open>STACK_END\<close>, mapped in the current and in the new
  address space (there to a copy of the frame), and cleared in the new one.
\<close>

definition user_virt :: u64 where
  "user_virt = STACK_END - PAGE_SIZE"

definition make_stack :: "u64 \<Rightarrow> kernel \<Rightarrow> kernel option" where
  "make_stack user_pcb st = do {
     let (st, user_stack) = allocate_virt_page st;
     let st = map_phys_to_virt_addr user_virt user_stack st;
     let st = map_phys_to_user_virt_addr user_virt user_stack (cr3 (pcbs st user_pcb)) st;
     let st = set_CR3 (cr3 (pcbs st user_pcb)) st;
     st \<leftarrow> memset0 user_virt 4096 st;
     let st = set_CR3 (cr3 (pcbs st (first_process st))) st;
     let (st, m) = new_mm st;
     let st = upd_pcb user_pcb (\<lambda>p. p\<lparr>mm := m\<rparr>) st;
     Some (set_CR3 (cr3 (pcbs st user_pcb)) st)
   }"

definition no_binary_text :: "u8 list" where
  "no_binary_text = bytes ''Unable to load binaries'' @ [10]"

text \<open>The result is the new process, or 0 when the program cannot be loaded.\<close>

definition create_user_process :: "u8 list \<Rightarrow> kernel \<Rightarrow> (kernel \<times> u64) option" where
  "create_user_process filename st = do {
     let (st, user_pcb) = new_pcb st;
     let (st, i) = get_next_processID st;
     let st = upd_pcb user_pcb (\<lambda>p. p\<lparr>pid := i\<rparr>) st;
     let st = upd_pcb user_pcb (\<lambda>p. p\<lparr>ppid := 1\<rparr>) st;
     let (st, a) = create_user_address_space st;
     let st = upd_pcb user_pcb (\<lambda>p. p\<lparr>cr3 := a\<rparr>) st;
     if \<not> fits 30 filename then None
     else do {
       let st = upd_pcb user_pcb (\<lambda>p. p\<lparr>p_name := filename\<rparr>) st;
       let st = upd_pcb user_pcb (\<lambda>p. p\<lparr>curr_dir := ROOT\<rparr>) st;
       let st = upd_pcb user_pcb (\<lambda>p. p\<lparr>temp_curr_dir := ROOT\<rparr>) st;
       let st = upd_pcb user_pcb (\<lambda>p. p\<lparr>echo_var_key := (echo_var_key p)[0 := bytes ''PATH'']\<rparr>) st;
       let st = upd_pcb user_pcb (\<lambda>p. p\<lparr>echo_var := (echo_var p)[0 := bytes ''rootfs/bin/'']\<rparr>) st;
       let st = upd_pcb user_pcb (\<lambda>p. p\<lparr>echo_count := 1\<rparr>) st;
       st \<leftarrow> make_stack user_pcb st;
       file_pt \<leftarrow> is_file_exist filename st;
       (st, ret_val) \<leftarrow> load_binaries user_pcb file_pt st;
       if ret_val = -1 then Some (print no_binary_text st, 0)
       else do {
         let st = set_CR3 (cr3 (pcbs st (first_process st))) st;
         let st = upd_pcb user_pcb (\<lambda>p. p\<lparr>state := TASK_READY\<rparr>) st;
         let st = upd_pcb user_pcb (\<lambda>p. p\<lparr>next_proc := first_process st\<rparr>) st;
         let st = upd_pcb user_pcb (\<lambda>p. p\<lparr>user_stack := user_virt + PAGE_SIZE - 8\<rparr>) st;
         let st = upd_pcb user_pcb (\<lambda>p. p\<lparr>rsp := user_virt + PAGE_SIZE - 8\<rparr>) st;
         let st = upd_pcb user_pcb (\<lambda>p. p\<lparr>init_kernel := kernel_stack_of user_pcb\<rparr>) st;
         let st = upd_pcb (curr_process st) (\<lambda>p. p\<lparr>next_proc := user_pcb\<rparr>) st;
         let st = upd_pcb user_pcb (\<lambda>p. p\<lparr>next_proc := curr_process st\<rparr>) st;
         Some (st\<lparr>curr_process := user_pcb\<rparr>, user_pcb)
       }
     }
   }"

text \<open>
  Entering user mode: the result is the state and the instruction and stack pointers the process
  starts with.
\<close>

definition switch_to_ring3 :: "u64 \<Rightarrow> u64 \<Rightarrow> kernel \<Rightarrow> (kernel \<times> u64 \<times> u64) option" where
  "switch_to_ring3 sp proc st = do {
     n \<leftarrow> nxt (curr_process st) st;
     let st = st\<lparr>curr_process := n\<rparr>;
     n2 \<leftarrow> nxt (curr_process st) st;
     let st = st\<lparr>next_process := n2\<rparr>;
     let st = print (bytes ''process: '' @ strtoint (i32 (uint (curr_process st))) []) st;
     if proc = 0 then None
     else do {
       let st = upd_pcb proc (\<lambda>p. p\<lparr>state := TASK_RUNNING\<rparr>) st;
       let st = upd_pcb (first_process st) (\<lambda>p. p\<lparr>state := TASK_READY\<rparr>) st;
       let st = st\<lparr>curr_process := proc\<rparr>;
       let st = set_tss_rsp (init_kernel (pcbs st proc)) st;
       let st = upd_pcb (first_process st) (\<lambda>p. p\<lparr>kern_rsp := sp\<rparr>) st;
       let st = st\<lparr>reg_cr3 := cr3 (pcbs st proc)\<rparr>;
       Some (st, rip (pcbs st proc), rsp (pcbs st proc))
     }
   }"

definition execve_switch_to_ring3 :: "u64 \<Rightarrow> kernel \<Rightarrow> kernel \<times> u64 \<times> u64" where
  "execve_switch_to_ring3 proc st =
     (let st = upd_pcb proc (\<lambda>p. p\<lparr>state := TASK_RUNNING\<rparr>) st;
          st = st\<lparr>curr_process := proc\<rparr>;
          st = set_tss_rsp (init_kernel (pcbs st proc)) st;
          st = st\<lparr>reg_cr3 := cr3 (pcbs st proc)\<rparr>
      in (st, rip (pcbs st proc), rsp (pcbs st proc)))"

definition schedule_sbush :: "u64 \<Rightarrow> kernel \<Rightarrow> (kernel \<times> u64 \<times> u64) option" where
  "schedule_sbush sp st = do {
     (st, user_process) \<leftarrow> create_user_process (bytes ''bin/init'') st;
     switch_to_ring3 sp user_process st
   }"

section \<open>Copying the tables\<close>

fun for_range :: "(u64 \<Rightarrow> 's \<Rightarrow> 's) \<Rightarrow> nat \<Rightarrow> u64 \<Rightarrow> 's \<Rightarrow> 's" where
  "for_range f 0 i st = st"
| "for_range f (Suc n) i st = for_range f n (i + 1) (f i st)"

text \<open>The body of the innermost loop: the entry loses its flags, is marked as shared, and is copied.\<close>

definition copy_pte :: "u64 \<Rightarrow> u64 \<Rightarrow> 'a paging_scheme \<Rightarrow> 'a paging_scheme" where
  "copy_pte c_pt pt_index st =
     (let table_entry = rd st (slot (g_pt st) pt_index)
      in if present table_entry then
           (let table_entry = remove_flag table_entry;
                st = wr (slot (g_pt st) pt_index) 0 st;
                table_entry = table_entry OR (PT_PR OR PT_U OR push_bit 9 1);
                st = wr (slot (g_pt st) pt_index) table_entry st
            in wr (slot c_pt pt_index) table_entry st)
         else st)"

definition copy_pde :: "u64 \<Rightarrow> u64 \<Rightarrow> u64 \<Rightarrow> 'a paging_scheme \<Rightarrow> 'a paging_scheme" where
  "copy_pde pd c_pd pd_index st =
     (let table_entry = rd st (slot pd pd_index)
      in if present table_entry then
           (let table_entry = remove_flag table_entry;
                st = st\<lparr>g_pt := kaddr table_entry\<rparr>;
                (st, c_pt) = allocate_virt_page st;
                phys_addr = c_pt OR (PT_PR OR PT_WR OR PT_U);
                st = wr (slot c_pd pd_index) phys_addr st
            in for_range (copy_pte (kaddr c_pt)) 512 0 st)
         else st)"

definition copy_pdpte :: "u64 \<Rightarrow> u64 \<Rightarrow> u64 \<Rightarrow> 'a paging_scheme \<Rightarrow> 'a paging_scheme" where
  "copy_pdpte pdpt c_pdpt pdpt_index st =
     (let table_entry = rd st (slot pdpt pdpt_index)
      in if present table_entry then
           (let table_entry = remove_flag table_entry;
                pd = kaddr table_entry;
                (st, c_pd) = allocate_virt_page st;
                phys_addr = c_pd OR (PT_PR OR PT_WR OR PT_U);
                st = wr (slot c_pdpt pdpt_index) phys_addr st
            in for_range (copy_pde pd (kaddr c_pd)) 512 0 st)
         else st)"

definition copy_pml4e :: "u64 \<Rightarrow> u64 \<Rightarrow> 'a paging_scheme \<Rightarrow> 'a paging_scheme" where
  "copy_pml4e cr3_addr pml4_index st =
     (let table_entry = rd st (slot (g_pml4 st) pml4_index)
      in if present table_entry then
           (let table_entry = remove_flag table_entry;
                pdpt = kaddr table_entry;
                (st, c_pdpt) = allocate_virt_page st;
                phys_addr = c_pdpt OR (PT_PR OR PT_WR OR PT_U);
                st = wr (slot cr3_addr pml4_index) phys_addr st
            in for_range (copy_pdpte pdpt (kaddr c_pdpt)) 512 0 st)
         else st)"

definition copy_parent_tables :: "u64 \<Rightarrow> 'a paging_scheme \<Rightarrow> 'a paging_scheme" where
  "copy_parent_tables cr3_addr st =
     (let cr3_addr = kaddr cr3_addr;
          st = st\<lparr>g_pml4 := reg_cr3 st\<rparr>;
          st = st\<lparr>g_pml4 := kaddr (g_pml4 st)\<rparr>;
          st = for_range (copy_pml4e cr3_addr) 511 0 st
      in wr (slot cr3_addr 511) (rd st (slot (g_pml4 st) 511)) st)"

section \<open>Fork\<close>

text \<open>The loop over the parent's areas. The first copy becomes the list, the others are added to it.\<close>

partial_function (option) copy_areas :: "u64 \<Rightarrow> bool \<Rightarrow> u64 \<Rightarrow> kernel \<Rightarrow> kernel option" where
  "copy_areas parent_vma first child_pcb st =
     (if parent_vma \<noteq> 0 then do {
        let (st, child_vma) = new_vma st;
        let st = upd_vma child_vma (\<lambda>_. vmas st parent_vma) st;
        let st = upd_vma child_vma (\<lambda>a. a\<lparr>vm_next := 0\<rparr>) st;
        let st = upd_vma child_vma (\<lambda>a. a\<lparr>vm_mm := mm (pcbs st child_pcb)\<rparr>) st;
        let st = (if vm_file (vmas st parent_vma) \<noteq> 0 then
                    (let (st, f) = kmalloc 4096 st in upd_vma child_vma (\<lambda>a. a\<lparr>vm_file := f\<rparr>) st)
                  else st);
        st \<leftarrow> (if first then Some (upd_mm (mm (pcbs st child_pcb)) (\<lambda>m. m\<lparr>mm_vma := child_vma\<rparr>) st)
               else map_option fst (add_mmstruct (mm (pcbs st child_pcb)) child_vma st));
        copy_areas (vm_next (vmas st parent_vma)) False child_pcb st
      }
      else Some st)"

text \<open>The kernel stack is copied cell by cell (both addresses are multiples of 8).\<close>

definition copy_cell :: "u64 \<Rightarrow> u64 \<Rightarrow> u64 \<Rightarrow> 'a paging_scheme \<Rightarrow> 'a paging_scheme" where
  "copy_cell src dst i st = wr (slot dst i) (rd st (slot src i)) st"

definition copy_parent_structure :: "u64 \<Rightarrow> kernel \<Rightarrow> (kernel \<times> u64) option" where
  "copy_parent_structure parent_proc st = do {
     let (st, child_pcb) = new_pcb st;
     let cur = curr_process st;
     let (st, i) = get_next_processID st;
     let st = upd_pcb child_pcb (\<lambda>p. p\<lparr>pid := i\<rparr>) st;
     let st = upd_pcb child_pcb (\<lambda>p. p\<lparr>ppid := pid (pcbs st cur)\<rparr>) st;
     if \<not> fits 30 (p_name (pcbs st cur)) \<or> \<not> fits 50 (curr_dir (pcbs st cur)) \<or> \<not> fits 50 (temp_curr_dir (pcbs st cur)) \<or>
        \<not> (\<forall>s \<in> set (echo_var (pcbs st cur)). fits 50 s) \<or> \<not> (\<forall>s \<in> set (echo_var_key (pcbs st cur)). fits 50 s) \<or>
        mm (pcbs st parent_proc) = 0
     then None
     else do {
       let st = upd_pcb child_pcb (\<lambda>p. p\<lparr>p_name := p_name (pcbs st cur)\<rparr>) st;
       let st = upd_pcb child_pcb (\<lambda>p. p\<lparr>curr_dir := curr_dir (pcbs st cur)\<rparr>) st;
       let st = upd_pcb child_pcb (\<lambda>p. p\<lparr>temp_curr_dir := temp_curr_dir (pcbs st cur)\<rparr>) st;
       let st = upd_pcb child_pcb (\<lambda>p. p\<lparr>echo_count := echo_count (pcbs st cur)\<rparr>) st;
       let st = upd_pcb child_pcb (\<lambda>p. p\<lparr>echo_var := echo_var (pcbs st cur)\<rparr>) st;
       let st = upd_pcb child_pcb (\<lambda>p. p\<lparr>echo_var_key := echo_var_key (pcbs st cur)\<rparr>) st;
       let st = upd_pcb child_pcb (\<lambda>p. p\<lparr>next_proc := 0\<rparr>) st;
       let st = upd_pcb child_pcb (\<lambda>p. p\<lparr>mm := 0\<rparr>) st;
       let st = upd_pcb cur (\<lambda>p. p\<lparr>n_child := i32 (n_child p + 1)\<rparr>) st;
       let st = upd_pcb child_pcb (\<lambda>p. p\<lparr>n_child := 0\<rparr>) st;
       let (st, a) = create_user_address_space st;
       let st = upd_pcb child_pcb (\<lambda>p. p\<lparr>cr3 := a\<rparr>) st;
       let st = upd_pcb cur (\<lambda>p. p\<lparr>cr3 := reg_cr3 st\<rparr>) st;
       let st = copy_parent_tables (cr3 (pcbs st child_pcb)) st;
       let st = upd_pcb child_pcb (\<lambda>p. p\<lparr>init_kernel := kernel_stack_of child_pcb\<rparr>) st;
       let (st, m) = new_mm st;
       let st = upd_pcb child_pcb (\<lambda>p. p\<lparr>mm := m\<rparr>) st;
       let st = upd_mm m (\<lambda>_. mms st (mm (pcbs st parent_proc))) st;
       st \<leftarrow> copy_areas (mm_vma (mms st (mm (pcbs st parent_proc)))) True child_pcb st;
       let src = init_kernel (pcbs st parent_proc) + 8 - PAGE_SIZE;
       let dst = init_kernel (pcbs st child_pcb) + 8 - PAGE_SIZE;
       let st = for_range (copy_cell src dst) 512 0 st;
       let st = upd_pcb child_pcb (\<lambda>p. p\<lparr>user_stack := user_stack (pcbs st parent_proc)\<rparr>) st;
       let st = upd_pcb child_pcb (\<lambda>p. p\<lparr>rsp := init_kernel p - (init_kernel (pcbs st parent_proc) - rsp_pointer st)\<rparr>) st;
       Some (set_CR3 (cr3 (pcbs st (curr_process st))) st, child_pcb)
     }
   }"

definition fork_child :: "kernel \<Rightarrow> (kernel \<times> cint) option" where
  "fork_child st = do {
     (st, c_pcb) \<leftarrow> copy_parent_structure (curr_process st) st;
     let st = upd_pcb c_pcb (\<lambda>p. p\<lparr>next_proc := next_proc (pcbs st (curr_process st))\<rparr>) st;
     let st = upd_pcb (curr_process st) (\<lambda>p. p\<lparr>next_proc := c_pcb\<rparr>) st;
     Some (st, pid (pcbs st c_pcb))
   }"

section \<open>Exec\<close>

text \<open>The word of the command line at an address, up to a space, a newline or the end, and the address after it.\<close>

partial_function (option) scan_word_arg :: "kernel \<Rightarrow> u64 \<Rightarrow> (u8 list \<times> u64) option" where
  "scan_word_arg st a = do {
     c \<leftarrow> ld st a;
     if c \<noteq> 32 \<and> c \<noteq> 0 \<and> c \<noteq> 10 then do {
       (w, e) \<leftarrow> scan_word_arg st (a + 1);
       Some (c # w, e)
     }
     else Some ([], a)
   }"

text \<open>
  The five rows of 64 bytes. A row keeps what was on the stack after its NUL; a sixth word or one of 64
  bytes runs out of them.
\<close>

partial_function (option) split_args :: "kernel \<Rightarrow> u64 \<Rightarrow> nat \<Rightarrow> u8 list list \<Rightarrow> (u8 list list \<times> nat) option" where
  "split_args st a i kernel_args = do {
     c \<leftarrow> ld st a;
     if c \<noteq> 0 then do {
       (w, e) \<leftarrow> scan_word_arg st a;
       if 5 \<le> i \<or> 64 \<le> length w then None
       else split_args st (e + 1) (Suc i) (kernel_args[i := w @ [0] @ drop (length w + 1) (kernel_args ! i)])
     }
     else Some (kernel_args, i)
   }"

text \<open>The edit for a command line that ends in an ampersand, and the word count.\<close>

definition cut_ampersand :: "u64 \<Rightarrow> cint \<Rightarrow> kernel \<Rightarrow> kernel option" where
  "cut_ampersand argv len st = do {
     let st = st\<lparr>zombie := 0\<rparr>;
     c \<leftarrow> ld st (argv + of_int (len - 2));
     if c = 38 then do {
       let st = st\<lparr>zombie := 1\<rparr>;
       st \<leftarrow> sb (argv + of_int (len - 3)) 47 st;
       sb (argv + of_int (len - 2)) 0 st
     }
     else Some st
   }"

text \<open>The walks to the end of the ring and of the list of replaced processes.\<close>

partial_function (option) before_in_ring :: "u64 \<Rightarrow> u64 \<Rightarrow> kernel \<Rightarrow> u64 option" where
  "before_in_ring target pointer st = do {
     n \<leftarrow> nxt pointer st;
     if n \<noteq> target then before_in_ring target n st else Some pointer
   }"

definition retire :: "kernel \<Rightarrow> kernel option" where
  "retire st =
     (let cur = curr_process st
      in if forked_process st = 0 then
           (let st = upd_pcb cur (\<lambda>p. p\<lparr>next_proc := 0\<rparr>) st in Some (st\<lparr>forked_process := cur\<rparr>))
         else do {
           pointer \<leftarrow> before_in_ring 0 (forked_process st) st;
           let st = upd_pcb pointer (\<lambda>p. p\<lparr>next_proc := cur\<rparr>) st;
           Some (upd_pcb cur (\<lambda>p. p\<lparr>next_proc := 0\<rparr>) st)
         })"

text \<open>
  \<open>execve\<close>: the stack of the kernel holds \<open>junk\<close>, the five rows before they are written. \<open>strlen\<close>
  first puts a NUL after the one it finds. The result is the program's entry and stack pointer, or
  nothing when it could not be loaded.
\<close>

definition execve :: "u8 list list \<Rightarrow> u64 \<Rightarrow> u64 \<Rightarrow> kernel \<Rightarrow> (kernel \<times> (u64 \<times> u64) option) option" where
  "execve junk filename argv st = do {
     let (st, user_pcb) = new_pcb st;
     s \<leftarrow> ld_string st argv;
     let len = int (length s);
     st \<leftarrow> sb (argv + of_int len + 1) 0 st;
     st \<leftarrow> cut_ampersand argv len st;
     file \<leftarrow> ld_string st filename;
     (kernel_args, i) \<leftarrow> split_args st argv 0 junk;
     let argc = (if zombie st = 1 then int i - 1 else int i);
     let cur = curr_process st;
     if 100 \<le> length file \<or> \<not> fits 30 file \<or> \<not> fits 50 (curr_dir (pcbs st cur)) \<or> \<not> fits 50 (temp_curr_dir (pcbs st cur)) \<or>
        \<not> (\<forall>s \<in> set (echo_var (pcbs st cur)). fits 50 s) \<or> \<not> (\<forall>s \<in> set (echo_var_key (pcbs st cur)). fits 50 s)
     then None
     else do {
       let st = upd_pcb user_pcb (\<lambda>p. p\<lparr>p_name := file\<rparr>) st;
       let st = upd_pcb user_pcb (\<lambda>p. p\<lparr>pid := pid (pcbs st cur)\<rparr>) st;
       let st = upd_pcb user_pcb (\<lambda>p. p\<lparr>ppid := ppid (pcbs st cur)\<rparr>) st;
       let st = upd_pcb user_pcb (\<lambda>p. p\<lparr>state := TASK_RUNNING\<rparr>) st;
       let st = upd_pcb user_pcb (\<lambda>p. p\<lparr>n_child := 0\<rparr>) st;
       let st = upd_pcb user_pcb (\<lambda>p. p\<lparr>curr_dir := curr_dir (pcbs st cur)\<rparr>) st;
       let st = upd_pcb user_pcb (\<lambda>p. p\<lparr>temp_curr_dir := temp_curr_dir (pcbs st cur)\<rparr>) st;
       let st = upd_pcb user_pcb (\<lambda>p. p\<lparr>echo_count := echo_count (pcbs st cur)\<rparr>) st;
       let st = upd_pcb user_pcb (\<lambda>p. p\<lparr>echo_var := echo_var (pcbs st cur)\<rparr>) st;
       let st = upd_pcb user_pcb (\<lambda>p. p\<lparr>echo_var_key := echo_var_key (pcbs st cur)\<rparr>) st;
       let (st, a) = create_user_address_space st;
       let st = upd_pcb user_pcb (\<lambda>p. p\<lparr>cr3 := a\<rparr>) st;
       st \<leftarrow> make_stack user_pcb st;
       file_pt \<leftarrow> is_file_exist file st;
       (st, ret_val) \<leftarrow> load_binaries user_pcb file_pt st;
       if ret_val = -1 then Some (print no_binary_text st, None)
       else do {
         let st = set_CR3 (cr3 (pcbs st (first_process st))) st;
         let st = upd_pcb user_pcb (\<lambda>p. p\<lparr>state := TASK_READY\<rparr>) st;
         let st = upd_pcb user_pcb (\<lambda>p. p\<lparr>next_proc := first_process st\<rparr>) st;
         let st = upd_pcb user_pcb (\<lambda>p. p\<lparr>user_stack := user_virt + PAGE_SIZE - 8\<rparr>) st;
         let st = upd_pcb user_pcb (\<lambda>p. p\<lparr>rsp := user_virt + PAGE_SIZE - 8\<rparr>) st;
         let st = upd_pcb user_pcb (\<lambda>p. p\<lparr>init_kernel := kernel_stack_of user_pcb\<rparr>) st;
         pointer \<leftarrow> before_in_ring cur cur st;
         let st = upd_pcb pointer (\<lambda>p. p\<lparr>next_proc := user_pcb\<rparr>) st;
         let st = upd_pcb user_pcb (\<lambda>p. p\<lparr>next_proc := next_proc (pcbs st cur)\<rparr>) st;
         st \<leftarrow> retire st;
         let st = set_CR3 (cr3 (pcbs st user_pcb)) st;
         let ptr = user_stack (pcbs st user_pcb) - 320;
         st \<leftarrow> store_bytes ptr (concat kernel_args) st;
         st \<leftarrow> store_bytes (ptr - 8) (map (\<lambda>k. byte_of (of_int argc) k) [0..<4]) st;
         let st = upd_pcb user_pcb (\<lambda>p. p\<lparr>rsp := user_stack p - 320 - 8\<rparr>) st;
         let (st, entry) = execve_switch_to_ring3 user_pcb st;
         Some (st, Some entry)
       }
     }
   }"

end
