(* ===== verification/ElfLoad.thy ===== *)
theory ElfLoad
  imports Elf
begin

text \<open>
  What loading a segment does to the memory of the process: its pages are mapped to fresh cleared
  frames, and its bytes are those of the file, zeros behind them. The allocations of the kernel's own
  objects in between change no mapping a process sees.
\<close>

unbundle bit_operations_syntax

section \<open>The pages of a segment\<close>


lemma path_cost_le: "path_cost f r va \<le> 3"
  by (simp add: path_cost_def)

text \<open>
  \<open>k\<close> pages from \<open>start\<close> are mapped to the frames \<open>fr\<close>, which were free and are no tables now.
\<close>

definition seg_pages ::
  "u64 \<Rightarrow> u64 \<Rightarrow> nat \<Rightarrow> (nat \<Rightarrow> u64) \<Rightarrow> (u64 \<Rightarrow> nat option) \<Rightarrow> kernel \<Rightarrow> kernel \<Rightarrow> bool" where
  "seg_pages r start k fr L' st st' \<longleftrightarrow>
     (\<forall>i<k. fr i \<in> avail st \<and> fr i \<notin> avail st' \<and> L' (fr i) = None \<and> (\<forall>j<512. pm st' (slot (fr i) j) = 0)) \<and>
     inj_on fr {..<k} \<and>
     (\<forall>i<k. \<forall>va. indices va = indices (start + of_nat i * 4096) \<longrightarrow> translate (pm st') r va = Some (fr i OR 7)) \<and>
     (\<forall>va. (\<forall>i<k. indices va \<noteq> indices (start + of_nat i * 4096)) \<longrightarrow> translate (pm st') r va = translate (pm st) r va)"

text \<open>What the mapping keeps.\<close>

definition keeps :: "u64 \<Rightarrow> nat \<Rightarrow> (u64 \<Rightarrow> nat option) \<Rightarrow> (u64 \<Rightarrow> nat option) \<Rightarrow> kernel \<Rightarrow> kernel \<Rightarrow> bool" where
  "keeps r n L L' st st' \<longleftrightarrow>
     table_inv (pm st') (avail st') r L' \<and> dom L' \<subseteq> dom L \<union> avail st \<and> avail st' \<subseteq> avail st \<and>
     card (avail st) \<le> card (avail st') + n \<and>
     (\<forall>x. remove_flag x \<notin> dom L \<and> remove_flag x \<notin> avail st \<longrightarrow> pm st' x = pm st x) \<and>
     (r = reg_cr3 st \<and> direct_ready st \<longrightarrow> direct_ready st') \<and>
     paging.more st' = paging.more st \<and> reg_cr3 st' = reg_cr3 st"

lemma keepsD:
  assumes "keeps r n L L' st st'"
  shows "table_inv (pm st') (avail st') r L'" "dom L' \<subseteq> dom L \<union> avail st" "avail st' \<subseteq> avail st"
    "card (avail st) \<le> card (avail st') + n"
    "\<And>x. remove_flag x \<notin> dom L \<Longrightarrow> remove_flag x \<notin> avail st \<Longrightarrow> pm st' x = pm st x"
    "r = reg_cr3 st \<Longrightarrow> direct_ready st \<Longrightarrow> direct_ready st'"
    "paging.more st' = paging.more st" "reg_cr3 st' = reg_cr3 st"
  using assms unfolding keeps_def by blast+

lemma keeps_refl: "table_inv (pm st) (avail st) r L \<Longrightarrow> keeps r 0 L L st st"
  by (auto simp: keeps_def)

lemma keeps_trans:
  assumes a: "keeps r n L L1 st st1" and b: "keeps r m L1 L2 st1 st2"
  shows "keeps r (n + m) L L2 st st2"
  unfolding keeps_def
proof (intro conjI allI impI; (elim conjE)?)
  show "table_inv (pm st2) (avail st2) r L2" by (rule keepsD(1) [OF b])
  show "dom L2 \<subseteq> dom L \<union> avail st" "avail st2 \<subseteq> avail st"
    using keepsD(2,3) [OF a] keepsD(2,3) [OF b] by blast+
  show "card (avail st) \<le> card (avail st2) + (n + m)" using keepsD(4) [OF a] keepsD(4) [OF b] by simp
  show "pm st2 x = pm st x" if x: "remove_flag x \<notin> dom L" "remove_flag x \<notin> avail st" for x
  proof -
    have "remove_flag x \<notin> dom L1" "remove_flag x \<notin> avail st1" using x keepsD(2,3) [OF a] by blast+
    with keepsD(5) [OF a x] keepsD(5) [OF b] show ?thesis by simp
  qed
  show "direct_ready st2" if "r = reg_cr3 st" "direct_ready st"
    using keepsD(6) [OF a that] keepsD(6) [OF b] keepsD(8) [OF a] that(1) by simp
  show "paging.more st2 = paging.more st" "reg_cr3 st2 = reg_cr3 st"
    using keepsD(7,8) [OF a] keepsD(7,8) [OF b] by simp_all
qed

lemma seg_page:
  assumes inv: "table_inv (pm st) (avail st) r L" and n: "5 \<le> card (avail st)"
    and b: "allocate_virt_page st = (s, b)"
    and st': "st' = map_phys_to_user_virt_addr va b r (memset_page (KERNEL_ADDR OR b) s)"
  obtains a L' where "a \<in> avail st" "a \<notin> avail st'" "keeps r 5 L L' st st'" "L' a = None"
    "\<forall>va'. translate (pm st') r va' = (if indices va' = indices va then Some (a OR 7) else translate (pm st) r va')"
    "\<forall>j<512. pm st' (slot a j) = 0"
proof -
  have n': "path_cost (pm st) r va + 2 \<le> card (avail st)" using n path_cost_le [of "pm st" r va] by simp
  have ne: "avail st \<noteq> {}" using n by auto
  note al = allocate_virt_page_avail [OF ne b]
  have b_low: "unat b < 2 ^ 31" "page_aligned b" using al(1) by (simp_all add: avail_def)
  define s2 where "s2 = memset_page (KERNEL_ADDR OR b) s"
  have pms: "pm s = pm st" by (subst al(4)) simp
  have s2: "pm s2 = clear_page (pm st) b" "avail s2 = avail s" "reg_cr3 s2 = reg_cr3 s" "paging.more s2 = paging.more s"
    using b_low kphys_kaddr [of b] by (simp_all add: s2_def memset_page_def pms kaddr_def [symmetric] avail_def)
  have "\<forall>x. remove_flag x \<noteq> b \<longrightarrow> clear_page (pm st) b x = pm st x" by (simp add: clear_page_def)
  moreover have "\<forall>i<512. clear_page (pm st) b (slot b i) = 0"
    using remove_flag_slot [OF b_low(2)] by (simp add: clear_page_def)
  moreover have "st' = map_phys_to_user_virt_addr va b r s2" by (simp add: st' s2_def)
  ultimately obtain L' where f: "fresh_page r va (\<lambda>_. 0) st st'" "dom L' \<subseteq> dom L \<union> avail st" "table_inv (pm st') (avail st') r L'"
    "\<forall>x. remove_flag x \<notin> dom L \<and> remove_flag x \<notin> avail st \<longrightarrow> pm st' x = pm st x"
    "\<forall>a \<in> avail st. translate (pm st') r va = Some (a OR 7) \<longrightarrow> L' a = None"
    "\<forall>va' y. leaf_of (pm st) r (indices va') = Some y \<longrightarrow> leaf_of (pm st') r (indices va') = Some y"
    by (rule fresh_user_page [OF inv n' b _ s2])
  from f(1) obtain a c where a: "a \<in> avail st" "avail st' \<subseteq> avail st - {a, c}"
      "\<forall>va'. translate (pm st') r va' = (if indices va' = indices va then Some (a OR 7) else translate (pm st) r va')"
      "\<forall>i<512. pm st' (slot a i) = 0"
    and rest: "card (avail st) \<le> card (avail st') + path_cost (pm st) r va + 2"
      "paging.more st' = paging.more st" "reg_cr3 st' = reg_cr3 st"
    unfolding fresh_page_def by blast
  show ?thesis
  proof (rule that [OF a(1) _ _ _ a(3,4)])
    show "a \<notin> avail st'" using a(2) by blast
    show "L' a = None" using f(5) a(1) a(3) by simp
    show "keeps r 5 L L' st st'"
      unfolding keeps_def
    proof (intro conjI)
      show "r = reg_cr3 st \<and> direct_ready st \<longrightarrow> direct_ready st'"
        unfolding direct_ready_def using f(6) a(2) rest(3) by (metis Diff_iff not_Some_eq subset_iff)
    qed (use f(2-4) a(2) rest path_cost_le [of "pm st" r va] in auto)
  qed
qed

lemma indices_page_inj:
  assumes "unat s + 4096 * i < 2 ^ 47" "unat s + 4096 * j < 2 ^ 47" "i \<noteq> j"
  shows "indices ((s :: u64) + of_nat i * 4096) \<noteq> indices (s + of_nat j * 4096)"
proof -
  have u: "unat (s + of_nat k * 4096) = unat s + 4096 * k" if "unat s + 4096 * k < 2 ^ 47" for k
  proof -
    have "s + of_nat k * 4096 = s + of_nat (4096 * k)" by (simp add: mult.commute)
    then show ?thesis using that by (simp add: unat_word_ariths unat_of_nat take_bit_nat_eq_self del: of_nat_mult)
  qed
  have p: "page_no (s + of_nat k * 4096) = unat s div 4096 + k" if "unat s + 4096 * k < 2 ^ 47" for k
    using u [OF that] by (simp add: page_no_def)
  have "unat s div 4096 + i < 2 ^ 36" "unat s div 4096 + j < 2 ^ 36" using assms by simp_all
  with p assms show ?thesis by (simp add: indices_eq_iff)
qed

lemma seg_pages_Suc:
  assumes k1: "keeps r 5 L L1 st st1" and a: "a \<in> avail st" "a \<notin> avail st1" "L1 a = None" "\<forall>j<512. pm st1 (slot a j) = 0"
    and tr: "\<forall>va'. translate (pm st1) r va' = (if indices va' = indices start then Some (a OR 7) else translate (pm st) r va')"
    and s2: "seg_pages r (start + 4096) k fr L2 st1 st2" and k2: "keeps r n L1 L2 st1 st2"
    and bound: "unat start + 4096 * Suc k < 2 ^ 47"
  shows "seg_pages r start (Suc k) (\<lambda>i. case i of 0 \<Rightarrow> a | Suc j \<Rightarrow> fr j) L2 st st2"
proof -
  let ?fr = "\<lambda>i. case i of 0 \<Rightarrow> a | Suc j \<Rightarrow> fr j"
  have pg: "start + 4096 + of_nat j * 4096 = start + of_nat (Suc j) * 4096" for j by (simp add: algebra_simps)
  have s: "\<And>i. i < k \<Longrightarrow> fr i \<in> avail st1 \<and> fr i \<notin> avail st2 \<and> L2 (fr i) = None \<and> (\<forall>j<512. pm st2 (slot (fr i) j) = 0)"
    "inj_on fr {..<k}"
    "\<And>i va. i < k \<Longrightarrow> indices va = indices (start + of_nat (Suc i) * 4096) \<Longrightarrow> translate (pm st2) r va = Some (fr i OR 7)"
    "\<And>va. (\<And>i. i < k \<Longrightarrow> indices va \<noteq> indices (start + of_nat (Suc i) * 4096)) \<Longrightarrow> translate (pm st2) r va = translate (pm st1) r va"
    using s2 unfolding seg_pages_def pg by blast+
  have al: "page_aligned a" using a(1) by (simp add: avail_def)
  have a2: "a \<notin> avail st2" "L2 a = None" using keepsD(2,3) [OF k2] a(2,3) by auto
  have z: "pm st2 (slot a j) = 0" if "j < 512" for j
  proof -
    have "remove_flag (slot a j) = a" using al that by (rule remove_flag_slot)
    then have "pm st2 (slot a j) = pm st1 (slot a j)" using a(2,3) by (intro keepsD(5) [OF k2]) auto
    with a(4) that show ?thesis by simp
  qed
  have first: "translate (pm st2) r va = Some (a OR 7)" if "indices va = indices start" for va
  proof -
    have "indices va \<noteq> indices (start + of_nat (Suc i) * 4096)" if "i < k" for i
      using indices_page_inj [of start 0 "Suc i"] bound that \<open>indices va = indices start\<close> by simp
    then have "translate (pm st2) r va = translate (pm st1) r va" by (rule s(4))
    with tr that show ?thesis by simp
  qed
  show ?thesis
    unfolding seg_pages_def
  proof (intro conjI allI impI)
    fix i assume i: "i < Suc k"
    show "?fr i \<in> avail st" using i a(1) s(1) keepsD(3) [OF k1] by (cases i) auto
    show "?fr i \<notin> avail st2" "L2 (?fr i) = None" using i a2 s(1) by (cases i; simp)+
    show "pm st2 (slot (?fr i) j) = 0" if "j < 512" for j using i z s(1) that by (cases i) auto
    show "translate (pm st2) r va = Some (?fr i OR 7)" if "indices va = indices (start + of_nat i * 4096)" for va
      using i first s(3) that by (cases i) auto
  next
    show "inj_on ?fr {..<Suc k}"
    proof (rule inj_onI)
      fix i j assume ij: "i \<in> {..<Suc k}" "j \<in> {..<Suc k}" "?fr i = ?fr j"
      have "a \<noteq> fr m" if "m < k" for m using s(1) [OF that] a(2) by auto
      with ij s(2) show "i = j" by (auto simp: inj_on_def split: nat.splits)
    qed
  next
    fix va assume h: "\<forall>i<Suc k. indices va \<noteq> indices (start + of_nat i * 4096)"
    then have "translate (pm st2) r va = translate (pm st1) r va" by (intro s(4)) auto
    moreover have "indices va \<noteq> indices start" using h [rule_format, of 0] by simp
    ultimately show "translate (pm st2) r va = translate (pm st) r va" using tr by simp
  qed
qed

lemma map_segment_spec:
  assumes "table_inv (pm st) (avail st) r L" "5 * k \<le> card (avail st)"
    and "unat start + 4096 * k < 2 ^ 47" "unat stop < unat start + 4096 * k" "k = 0 \<or> unat start + 4096 * (k - 1) \<le> unat stop"
  shows "\<exists>st' fr L'. map_segment start stop r st = Some (st', start + of_nat k * 4096) \<and>
    seg_pages r start k fr L' st st' \<and> keeps r (5 * k) L L' st st'"
  using assms
proof (induction k arbitrary: start st L)
  case 0
  then have "\<not> start \<le> stop" by (simp add: word_le_nat_alt)
  then have "map_segment start stop r st = Some (st, start)" by (subst map_segment.simps) simp
  moreover have "seg_pages r start 0 (\<lambda>_. 0) L st st" by (simp add: seg_pages_def)
  ultimately show ?case using keeps_refl [OF 0(1)] by auto
next
  case (Suc k)
  have le: "start \<le> stop" using Suc.prems(5) by (simp add: word_le_nat_alt)
  obtain s b where b: "allocate_virt_page st = (s, b)" by fastforce
  define st1 where "st1 = map_phys_to_user_virt_addr start b r (memset_page (KERNEL_ADDR OR b) s)"
  have five: "5 \<le> card (avail st)" using Suc.prems(2) by simp
  obtain a L1 where a: "a \<in> avail st" "a \<notin> avail st1" "keeps r 5 L L1 st st1" "L1 a = None"
    "\<forall>va'. translate (pm st1) r va' = (if indices va' = indices start then Some (a OR 7) else translate (pm st) r va')"
    "\<forall>j<512. pm st1 (slot a j) = 0"
    by (rule seg_page [OF Suc.prems(1) five b st1_def])
  have u: "unat (start + 4096) = unat start + 4096"
    using Suc.prems(3) by (simp add: unat_word_ariths)
  have "\<exists>st' fr L'. map_segment (start + 4096) stop r st1 = Some (st', start + 4096 + of_nat k * 4096) \<and>
    seg_pages r (start + 4096) k fr L' st1 st' \<and> keeps r (5 * k) L1 L' st1 st'"
  proof (rule Suc.IH [OF keepsD(1) [OF a(3)]])
    show "5 * k \<le> card (avail st1)" using Suc.prems(2) keepsD(4) [OF a(3)] by simp
    show "k = 0 \<or> unat (start + 4096) + 4096 * (k - 1) \<le> unat stop"
      using Suc.prems(5) unfolding u by (cases k) simp_all
  qed (use Suc.prems(3,4) u in simp_all)
  then obtain st' fr L' where st': "map_segment (start + 4096) stop r st1 = Some (st', start + 4096 + of_nat k * 4096)"
    "seg_pages r (start + 4096) k fr L' st1 st'" "keeps r (5 * k) L1 L' st1 st'" by blast
  have "map_segment start stop r st = map_segment (start + 4096) stop r st1"
    using le by (subst map_segment.simps) (simp add: b Let_def st1_def)
  moreover have "start + 4096 + of_nat k * 4096 = start + of_nat (Suc k) * 4096" by (simp add: algebra_simps)
  moreover note seg_pages_Suc [OF a(3,1,2,4,6,5) st'(2,3) Suc.prems(3)]
  moreover have "keeps r (5 * Suc k) L L' st st'" using keeps_trans [OF a(3) st'(3)] by simp
  ultimately show ?case using st'(1) by (intro exI conjI) simp_all
qed

section \<open>The bytes of a segment\<close>

lemma cell_slot: "cell p = slot (remove_flag p) (drop_bit 3 (p AND mask 12))" "drop_bit 3 (p AND mask 12) < (512 :: u64)"
proof -
  have m: "(0xFFFFFFFFFFFFFFF8 :: u64) = NOT (mask 3)" by (simp add: mask_eq_exp_minus_1)
  have "8 * drop_bit 3 (p AND mask 12) = push_bit 3 (drop_bit 3 (p AND mask 12))" by (simp add: push_bit_eq_mult)
  moreover have "remove_flag p + push_bit 3 (drop_bit 3 (p AND mask 12)) = remove_flag p OR push_bit 3 (drop_bit 3 (p AND mask 12))"
    unfolding remove_flag_def page_mask_eq by (rule disjunctive_add_eq_or) (auto simp: bit_eq_iff bit_simps)
  moreover have "remove_flag p OR push_bit 3 (drop_bit 3 (p AND mask 12)) = p AND NOT (mask 3)"
    unfolding remove_flag_def page_mask_eq by (rule bit_eqI) (auto simp: bit_simps)
  ultimately show "cell p = slot (remove_flag p) (drop_bit 3 (p AND mask 12))" by (simp add: slot_def cell_def m)
  show "drop_bit 3 (p AND mask 12) < (512 :: u64)"
    unfolding word_less_nat_alt unat_drop_bit_eq unat_low12 by (simp add: drop_bit_eq_div less_mult_imp_div_less)
qed

lemma pbyte_cong: "(\<And>j. j < 512 \<Longrightarrow> g (slot (remove_flag p) j) = f (slot (remove_flag p) j)) \<Longrightarrow> pbyte g p = pbyte f p"
  using cell_slot [of p] by (simp add: pbyte_def)

lemma pbyte_zero: "(\<And>j. j < 512 \<Longrightarrow> f (slot (remove_flag p) j) = 0) \<Longrightarrow> pbyte f p = 0"
  using cell_slot [of p] by (simp add: pbyte_def byte_of_def)

lemma same_page_indices:
  assumes "page_aligned s" "unat s + 4096 * k < 2 ^ 47" "unat s \<le> unat va" "unat va < unat s + 4096 * k"
  defines "i \<equiv> (unat va - unat s) div 4096"
  shows "i < k" "indices va = indices (s + of_nat i * 4096)"
proof -
  show ik: "i < k" using assms(3,4) by (simp add: i_def less_mult_imp_div_less mult.commute)
  have "s + of_nat i * 4096 = s + of_nat (4096 * i)" by (simp add: mult.commute)
  moreover have "unat s + 4096 * i < 2 ^ 64" using ik assms(2) by simp
  ultimately have u: "unat (s + of_nat i * 4096) = unat s + 4096 * i"
    by (simp add: unat_word_ariths unat_of_nat take_bit_nat_eq_self del: of_nat_mult)
  obtain n where n: "unat s = 4096 * n" using assms(1) unfolding page_aligned_def by (metis mod_0_imp_dvd dvdE)
  have "unat va = 4096 * n + (unat va - unat s)" using assms(3) n by simp
  then have "unat va div 4096 = n + i" unfolding i_def by (metis div_mult_self4 zero_neq_numeral add.commute)
  then have "page_no va = page_no (s + of_nat i * 4096)" by (simp add: page_no_def u n)
  then show "indices va = indices (s + of_nat i * 4096)" by (simp add: indices_eq_iff)
qed

lemma seg_phys:
  assumes seg: "seg_pages r s k fr L' st st'" and r: "r = reg_cr3 st'"
    and s: "page_aligned s" "unat s + 4096 * k < 2 ^ 47" "unat s \<le> unat va" "unat va < unat s + 4096 * k"
  shows "phys_of st' va = Some (fr ((unat va - unat s) div 4096) + (va AND mask 12))"
    and "remove_flag (fr ((unat va - unat s) div 4096) + (va AND mask 12)) = fr ((unat va - unat s) div 4096)"
    and "(unat va - unat s) div 4096 < k"
proof -
  let ?i = "(unat va - unat s) div 4096"
  show i: "?i < k" by (rule same_page_indices(1) [OF s])
  have "page_aligned (fr ?i)" using seg i by (auto simp: seg_pages_def avail_def)
  then show "remove_flag (fr ?i + (va AND mask 12)) = fr ?i" by (rule remove_flag_plus)
  have "translate (pm st') r va = Some (fr ?i OR 7)"
    using seg i same_page_indices(2) [OF s] unfolding seg_pages_def by blast
  moreover have "remove_flag (fr ?i OR 7) = fr ?i" using \<open>page_aligned (fr ?i)\<close> by (intro remove_flag_or) simp_all
  ultimately show "phys_of st' va = Some (fr ?i + (va AND mask 12))" by (simp add: phys_of_def frame_of_def r)
qed

text \<open>Different bytes of the segment are at different places.\<close>

lemma seg_phys_inj:
  assumes seg: "seg_pages r s k fr L' st st'" and r: "r = reg_cr3 st'" and s: "page_aligned s" "unat s + 4096 * k < 2 ^ 47"
    and x: "unat s \<le> unat x" "unat x < unat s + 4096 * k" and y: "unat s \<le> unat y" "unat y < unat s + 4096 * k"
    and eq: "phys_of st' x = phys_of st' y"
  shows "x = y"
proof -
  let ?i = "(unat x - unat s) div 4096" and ?j = "(unat y - unat s) div 4096"
  note px = seg_phys [OF seg r s x] and py = seg_phys [OF seg r s y]
  have al: "page_aligned (fr ?i)" "page_aligned (fr ?j)" using seg px(3) py(3) by (auto simp: seg_pages_def avail_def)
  have "fr ?i + (x AND mask 12) = fr ?j + (y AND mask 12)" using px(1) py(1) eq by simp
  from frame_plus_inj [OF al this] have "fr ?i = fr ?j" "x AND mask 12 = y AND mask 12" by simp_all
  then have ij: "?i = ?j" using seg px(3) py(3) by (auto simp: seg_pages_def inj_on_def)
  have "unat x mod 4096 = unat y mod 4096" using \<open>x AND mask 12 = y AND mask 12\<close> by (metis unat_low12)
  moreover obtain n where n: "unat s = 4096 * n" using s(1) unfolding page_aligned_def by (metis mod_0_imp_dvd dvdE)
  have "unat x mod 4096 = (unat x - unat s) mod 4096" "unat y mod 4096 = (unat y - unat s) mod 4096"
    using n x(1) y(1) by (metis le_add_diff_inverse mod_mult_self4)+
  ultimately have "(unat x - unat s) mod 4096 = (unat y - unat s) mod 4096" by simp
  with ij have "unat x - unat s = unat y - unat s" by (metis div_mult_mod_eq)
  with x(1) y(1) show "x = y" by (simp add: word_unat_eq_iff)
qed

section \<open>Around the pages\<close>

definition areas_only :: "kernel \<Rightarrow> kernel \<Rightarrow> bool" where
  "areas_only st st' \<longleftrightarrow> st' = st\<lparr>vmas := vmas st', mms := mms st'\<rparr>"

lemma areas_only_simps [simp]: "areas_only st st" "areas_only st (link_after m cur v st)"
  "areas_only st (link_after m cur v (st\<lparr>vmas := x\<rparr>))" "areas_only st (st\<lparr>vmas := x, mms := y\<rparr>)"
  by (simp_all add: areas_only_def link_after_def Let_def)

lemma areas_onlyD:
  assumes "areas_only st st'"
  shows "pm st' = pm st" "avail st' = avail st" "reg_cr3 st' = reg_cr3 st" "pcbs st' = pcbs st"
  by (subst assms [unfolded areas_only_def], simp)+

lemma add_loop_frame: "add_loop m v cur st = Some y \<Longrightarrow> areas_only st (fst y)"
proof -
  assume "add_loop m v cur st = Some y"
  with _ show "areas_only st (fst y)"
  proof (rule add_loop.raw_induct [of "\<lambda>m v cur st y. areas_only st (fst y)"])
    fix loop :: "u64 \<Rightarrow> u64 \<Rightarrow> u64 \<Rightarrow> kernel \<Rightarrow> (kernel \<times> cint) option" and m v cur st y
    assume IH: "\<And>m v cur st y. loop m v cur st = Some y \<Longrightarrow> areas_only st (fst y)"
    assume "(if cur \<noteq> 0 then
        (let nxt = vm_next (vmas st cur)
         in if nxt \<noteq> 0 \<and> vm_end (vmas st v) \<le> vm_start (vmas st nxt) then
              Some (link_after m cur v (st\<lparr>vmas := (vmas st)(v := (vmas st v)\<lparr>vm_next := nxt\<rparr>)\<rparr>), 0)
            else if nxt = 0 then Some (link_after m cur v st, 0)
            else loop m v nxt st)
      else Some (st, -1)) = Some y"
    then show "areas_only st (fst y)"
      using IH by (auto simp: Let_def simp del: fun_upd_apply split: if_splits)
  qed
qed

lemma add_mmstruct_frame: "add_mmstruct m v st = Some y \<Longrightarrow> areas_only st (fst y)"
  unfolding add_mmstruct_def by (auto simp: Let_def split: if_splits dest: add_loop_frame)

lemma kmalloc_keeps:
  fixes st :: kernel
  assumes inv: "table_inv (pm st) (avail st) (reg_cr3 st) L" and ready: "direct_ready st" and ne: "avail st \<noteq> {}"
    and a: "a = Min (avail st)"
  obtains st' L' where "kmalloc 4096 st = (st', kaddr a)" "keeps (reg_cr3 st) 1 L L' st st'" "avail st' = avail st - {a}"
    "\<forall>va. translate (pm st') (reg_cr3 st) va =
       (if indices va = indices (kaddr a) then Some (a OR 3) else translate (pm st) (reg_cr3 st) va)"
proof -
  define st' where "st' = kmalloc_page st"
  obtain L' where k: "snd (allocate_virt_page st) = a"
    "table_inv (pm st') (avail st') (reg_cr3 st) L'" "dom L' \<subseteq> dom L \<union> (avail st - {a})"
    "avail st' = avail st - {a}" "reg_cr3 st' = reg_cr3 st" "direct_ready st'"
    "\<forall>va. translate (pm st') (reg_cr3 st) va =
       (if indices va = indices (kaddr a) then Some (a OR 3) else translate (pm st) (reg_cr3 st) va)"
    "\<forall>j < 512. pm st' (slot a j) = 0"
    "\<forall>x. remove_flag x \<notin> dom L \<and> remove_flag x \<notin> avail st \<longrightarrow> pm st' x = pm st x"
    by (rule kmalloc_page_spec [OF inv ready ne a st'_def])
  have km: "kmalloc 4096 st = (st', kaddr a)"
    using num_pages_eq [of 4096] k(1) by (simp add: kmalloc_def kmalloc_loop_Suc st'_def del: kmalloc_loop.simps(2))
  have "a \<in> avail st" unfolding a by (rule Min_in [OF finite_avail ne])
  then have c: "card (avail st) = card (avail st') + 1"
    unfolding k(4) using card.remove [OF finite_avail, of a st] by simp
  have "dom L' \<subseteq> dom L \<union> avail st" "avail st' \<subseteq> avail st" using k(3,4) by blast+
  then have "keeps (reg_cr3 st) 1 L L' st st'"
    unfolding keeps_def using k(2,5,6,9) c kmalloc_more [OF km] by simp
  from that [OF km this k(4,7)] show ?thesis .
qed

text \<open>An address of a program is no address of the direct map.\<close>

lemma user_not_direct:
  assumes "unat va < 2 ^ 47" "a \<in> avail st"
  shows "indices va \<noteq> indices (kaddr a)"
proof
  have a: "unat a < 2 ^ 26" using assms(2) by (simp add: avail_def)
  then have "kaddr a = KERNEL_ADDR + a" by (intro kaddr_plus) simp
  then have "unat (kaddr a) = 0xFFFFFFFF80000000 + unat a" using a by (simp add: unat_word_ariths)
  then have "page_no (kaddr a) = 0xFFFFFFFF80000 + unat a div 4096" by (simp add: page_no_def)
  moreover have "unat a div 4096 < 2 ^ 14" using a by simp
  ultimately have "page_no (kaddr a) mod 2 ^ 36 = 0xFFFF80000 + unat a div 4096"
    using mod_mult_self1 [of "0xFFFF80000 + unat a div 4096" "0xFFFF" "2 ^ 36"] by simp
  moreover have "page_no va < 2 ^ 35" using assms(1) by (simp add: page_no_def)
  moreover assume "indices va = indices (kaddr a)"
  ultimately show False unfolding indices_eq_iff by simp
qed

lemma load_segment_steps:
  assumes k1: "kmalloc 4096 st = (s1, v)"
    and a1: "add_mmstruct (mm (pcbs s1 proc)) v
      (s1\<lparr>vmas := (vmas s1)(v := null_vma\<lparr>vm_start := p_vaddr ph, vm_end := p_vaddr ph + p_memsz ph\<rparr>)\<rparr>) = Some (s2, 0)"
    and m1: "map_segment (p_vaddr ph div PAGE_SIZE * PAGE_SIZE) (p_vaddr ph + p_memsz ph) (cr3 (pcbs s2 proc)) s2 = Some (s3, e)"
    and s4: "s4 = (let s = upd_vma v (\<lambda>a. a\<lparr>vm_next := 0\<rparr>) (upd_vma v (\<lambda>a. a\<lparr>vm_flags := p_flags ph\<rparr>) s3);
        s = upd_mm (mm (pcbs s proc)) (\<lambda>m. m\<lparr>code_start := e\<rparr>) s
      in upd_mm (mm (pcbs s proc)) (\<lambda>m. m\<lparr>code_end := p_vaddr ph + p_memsz ph\<rparr>) s)"
    and k2: "kmalloc 4096 s4 = (s5, f)"
    and s6: "s6 = upd_vma v (\<lambda>a. a\<lparr>file_size := p_filesz ph\<rparr>) (upd_vma v (\<lambda>a. a\<lparr>file_start := p_offset ph\<rparr>)
      (upd_vma v (\<lambda>a. a\<lparr>vm_file := f\<rparr>) s5))"
    and c: "copy_mem (elf + p_offset ph) (vm_start (vmas s6 v)) (unat (ucast (p_filesz ph) :: u32)) s6 = Some s7"
    and fl: "p_flags ph = PF_R OR PF_X \<or> p_flags ph = PF_R OR PF_W"
  shows "load_segment proc elf ph st =
    Some (upd_vma v (\<lambda>a. a\<lparr>vm_type := if p_flags ph = PF_R OR PF_X then TEXT else DATA\<rparr>) s7, True)"
proof -
  have "upd_vma v (\<lambda>a. a\<lparr>vm_end := p_vaddr ph + p_memsz ph\<rparr>) (upd_vma v (\<lambda>a. a\<lparr>vm_start := p_vaddr ph\<rparr>)
      (s1\<lparr>vmas := (vmas s1)(v := null_vma)\<rparr>)) =
      s1\<lparr>vmas := (vmas s1)(v := null_vma\<lparr>vm_start := p_vaddr ph, vm_end := p_vaddr ph + p_memsz ph\<rparr>)\<rparr>"
    by (simp add: upd_vma_def)
  moreover have "pcbs (upd_vma v g (upd_vma v h (s1\<lparr>vmas := x\<rparr>))) = pcbs s1" for g h x by (simp add: upd_vma_def)
  ultimately show ?thesis
    using m1 k2 c fl a1 unfolding load_segment_def new_vma_def k1 Let_def s4 s6 by simp
qed

section \<open>Loading a segment\<close>

text \<open>\<open>n\<close> bytes at \<open>va\<close>, at the places \<open>S\<close>, that loading a segment of \<open>k\<close> pages from \<open>s\<close> leaves alone: they are
  in frames neither free nor tables, at addresses neither in the segment nor in the direct map of a free frame.\<close>

definition apart_bytes :: "kernel \<Rightarrow> (u64 \<Rightarrow> nat option) \<Rightarrow> u64 \<Rightarrow> nat \<Rightarrow> (nat \<Rightarrow> u64) \<Rightarrow> u64 \<Rightarrow> nat \<Rightarrow> bool" where
  "apart_bytes st L va n S s k \<longleftrightarrow>
     (\<forall>j<n. phys_of st (va + of_nat j) = Some (S j) \<and> remove_flag (S j) \<notin> dom L \<and> remove_flag (S j) \<notin> avail st \<and>
        (\<forall>a \<in> avail st. indices (va + of_nat j) \<noteq> indices (kaddr a)) \<and>
        (\<forall>i<k. indices (va + of_nat j) \<noteq> indices (s + of_nat i * 4096)))"

lemma upd_simps [simp]:
  "pm (upd_vma v g st) = pm st" "avail (upd_vma v g st) = avail st" "reg_cr3 (upd_vma v g st) = reg_cr3 st"
  "pcbs (upd_vma v g st) = pcbs st" "vmas (upd_vma v g st) = (vmas st)(v := g (vmas st v))"
  "pm (upd_mm m h st) = pm st" "avail (upd_mm m h st) = avail st" "reg_cr3 (upd_mm m h st) = reg_cr3 st"
  "pcbs (upd_mm m h st) = pcbs st" "vmas (upd_mm m h st) = vmas st"
  by (simp_all add: upd_vma_def upd_mm_def avail_def)

lemma direct_ready_cong:
  "pm s' = pm s \<Longrightarrow> avail s' = avail s \<Longrightarrow> reg_cr3 s' = reg_cr3 s \<Longrightarrow> direct_ready s' = direct_ready s"
  by (simp add: direct_ready_def)

lemma phys_of_keeps:
  "pm s' = pm s \<Longrightarrow> reg_cr3 s' = reg_cr3 s \<Longrightarrow> phys_of s' va = phys_of s va" "pm s' = pm s \<Longrightarrow> reg_cr3 s' = reg_cr3 s \<Longrightarrow> ld s' va = ld s va"
  by (simp_all add: phys_of_def frame_of_def ld_def)

lemma page_base: "(v :: u64) div 4096 * 4096 = remove_flag v"
proof -
  have "unat v div 4096 * 4096 < 2 ^ 64" using unat_lt64 [of v] div_times_less_eq_dividend [of "unat v" 4096] by linarith
  then have "unat (v div 4096 * 4096) = unat v div 4096 * 4096" by (simp add: unat_word_ariths unat_div)
  then show ?thesis by (simp add: word_unat_eq_iff unat_remove_flag minus_mod_eq_div_mult)
qed

text \<open>The first half: the area is made and added, and the pages are mapped.\<close>

lemma load_segment_pages:
  assumes inv: "table_inv (pm st) (avail st) (reg_cr3 st) L" and ready: "direct_ready st"
    and cr: "cr3 (pcbs st proc) = reg_cr3 st"
    and size: "0 < p_memsz ph" "unat (p_vaddr ph) + unat (p_memsz ph) + 4096 < 2 ^ 47"
    and k: "k = (unat (p_vaddr ph) mod 4096 + unat (p_memsz ph)) div 4096 + 1" and n: "5 * k + 2 \<le> card (avail st)"
    and v: "v = kaddr (Min (avail st))"
    and vl: "vlist (vmas st) (mm_vma (mms st (mm (pcbs st proc)))) qs" "distinct qs" "v \<notin> set qs"
  shows "\<exists>s1 s2 s3 fr L' L1. kmalloc 4096 st = (s1, v) \<and>
    add_mmstruct (mm (pcbs s1 proc)) v
      (s1\<lparr>vmas := (vmas s1)(v := null_vma\<lparr>vm_start := p_vaddr ph, vm_end := p_vaddr ph + p_memsz ph\<rparr>)\<rparr>) = Some (s2, 0) \<and>
    map_segment (p_vaddr ph div PAGE_SIZE * PAGE_SIZE) (p_vaddr ph + p_memsz ph) (cr3 (pcbs s2 proc)) s2 =
      Some (s3, remove_flag (p_vaddr ph) + of_nat k * 4096) \<and>
    keeps (reg_cr3 st) 1 L L1 st s1 \<and> avail s1 = avail st - {Min (avail st)} \<and>
    (\<forall>va. translate (pm s1) (reg_cr3 st) va = (if indices va = indices v then Some (Min (avail st) OR 3)
       else translate (pm st) (reg_cr3 st) va)) \<and>
    areas_only s1 s2 \<and> seg_pages (reg_cr3 st) (remove_flag (p_vaddr ph)) k fr L' s2 s3 \<and>
    keeps (reg_cr3 st) (5 * k) L1 L' s2 s3 \<and> vm_start (vmas s3 v) = p_vaddr ph \<and> direct_ready s3"
proof -
  let ?r = "reg_cr3 st" and ?a = "Min (avail st)" and ?V = "p_vaddr ph" and ?E = "p_vaddr ph + p_memsz ph"
  have ne: "avail st \<noteq> {}" using n by auto
  obtain s1 L1 where s1: "kmalloc 4096 st = (s1, v)" "keeps ?r 1 L L1 st s1" "avail s1 = avail st - {?a}"
    "\<forall>va. translate (pm s1) ?r va = (if indices va = indices v then Some (?a OR 3) else translate (pm st) ?r va)"
    unfolding v by (rule kmalloc_keeps [OF inv ready ne refl])
  note k1 = keepsD [OF s1(2)] and objs1 = same_objs [OF keepsD(7) [OF s1(2)]]
  let ?area = "null_vma\<lparr>vm_start := ?V, vm_end := ?E\<rparr>"
  define s1' where "s1' = s1\<lparr>vmas := (vmas s1)(v := ?area)\<rparr>"
  have "?a \<in> avail st" by (rule Min_in [OF finite_avail ne])
  then have "unat ?a < 2 ^ 26" by (simp add: avail_def)
  then have v0: "v \<noteq> 0" unfolding v by (subst kaddr_plus) (auto simp: word_unat_eq_iff unat_word_ariths)
  have E: "unat ?E = unat ?V + unat (p_memsz ph)" using size(2) by (simp add: unat_word_ariths)
  then have "?V < ?E" using size(1) by (simp add: word_less_nat_alt)
  moreover have "vlist (vmas s1') (mm_vma (mms s1' (mm (pcbs s1 proc)))) qs"
  proof -
    have "vlist (vmas s1') p qs = vlist (vmas st) p qs" for p
      using vl(3) objs1(1) by (intro vlist_cong) (auto simp: s1'_def)
    moreover have "mms s1' = mms st" "pcbs s1 = pcbs st" using objs1(2,3) by (simp_all add: s1'_def)
    ultimately show ?thesis using vl(1) by simp
  qed
  ultimately obtain s2 where s2: "add_mmstruct (mm (pcbs s1 proc)) v s1' = Some (s2, 0)" "same_areas (vmas s1') (vmas s2)"
    using add_mmstruct_eq [of s1' "mm (pcbs s1 proc)" qs v] vl(2,3) v0 by (auto simp: s1'_def null_vma_def)
  have ao: "areas_only s1' s2" using add_mmstruct_frame [OF s2(1)] by simp
  have s2': "pm s2 = pm s1" "avail s2 = avail s1" "reg_cr3 s2 = ?r" "pcbs s2 = pcbs st"
    using areas_onlyD [OF ao] k1(8) objs1(3) by (simp_all add: s1'_def avail_def)
  have ao': "areas_only s1 s2" using ao by (simp add: areas_only_def s1'_def)
  note seg_start = page_base [of ?V]
  have uV: "unat (remove_flag ?V) = unat ?V - unat ?V mod 4096" by (rule unat_remove_flag)
  have "\<exists>s3 fr L'. map_segment (remove_flag ?V) ?E ?r s2 = Some (s3, remove_flag ?V + of_nat k * 4096) \<and>
      seg_pages ?r (remove_flag ?V) k fr L' s2 s3 \<and> keeps ?r (5 * k) L1 L' s2 s3"
  proof (rule map_segment_spec)
    show "table_inv (pm s2) (avail s2) ?r L1" using k1(1) by (simp add: s2')
    show "5 * k \<le> card (avail s2)" using k1(4) n by (simp add: s2')
    define x where "x = unat ?V mod 4096 + unat (p_memsz ph)"
    have x: "unat ?E = unat (remove_flag ?V) + x" "k = x div 4096 + 1" using E uV by (simp_all add: x_def k)
    have "x mod 4096 < 4096" "4096 * (x div 4096) + x mod 4096 = x" by simp_all
    then have b: "x < 4096 * k \<and> 4096 * (k - 1) \<le> x \<and> 4096 * k \<le> x + 4096" unfolding x(2) by simp
    then show "unat ?E < unat (remove_flag ?V) + 4096 * k" "k = 0 \<or> unat (remove_flag ?V) + 4096 * (k - 1) \<le> unat ?E"
      using x(1) b by simp_all
    have "unat ?V mod 4096 \<le> unat ?V" by simp
    then have "unat (remove_flag ?V) + x = unat ?V + unat (p_memsz ph)" using uV by (simp add: x_def)
    then show "unat (remove_flag ?V) + 4096 * k < 2 ^ 47" using b size(2) by linarith
  qed
  then obtain s3 fr L' where s3: "map_segment (remove_flag ?V) ?E ?r s2 = Some (s3, remove_flag ?V + of_nat k * 4096)"
      "seg_pages ?r (remove_flag ?V) k fr L' s2 s3" "keeps ?r (5 * k) L1 L' s2 s3" by blast
  have "direct_ready s1" using k1(6) ready by simp
  then have "direct_ready s2" using direct_ready_cong [of s2 s1] s2' k1(8) by simp
  then have "direct_ready s3" using keepsD(6) [OF s3(3)] s2'(3) by simp
  moreover have "vm_start (vmas s3 v) = ?V"
  proof -
    have "vmas s2 v = (vmas s1' v)\<lparr>vm_next := vm_next (vmas s2 v), vm_mm := vm_mm (vmas s2 v)\<rparr>"
      using s2(2) unfolding same_areas_def by blast
    from arg_cong [OF this, of vm_start] have "vm_start (vmas s2 v) = ?V" by (simp add: s1'_def)
    then show ?thesis using same_objs(1) [OF keepsD(7) [OF s3(3)]] by simp
  qed
  ultimately show ?thesis
    using s1 s2(1) s3 ao' seg_start s2'(4) cr unfolding s1'_def by (intro exI conjI) simp_all
qed

lemma keeps_pbyte:
  assumes "keeps r n L L' st st'" "remove_flag p \<notin> dom L" "remove_flag p \<notin> avail st"
  shows "pbyte (pm st') p = pbyte (pm st) p"
proof (rule pbyte_cong)
  fix j :: u64 assume "j < 512"
  then have "remove_flag (slot (remove_flag p) j) = remove_flag p" by (intro remove_flag_slot) simp_all
  with assms show "pm st' (slot (remove_flag p) j) = pm st (slot (remove_flag p) j)" by (intro keepsD(5)) auto
qed

lemma page_bounds:
  assumes "k = (unat V mod 4096 + n) div 4096 + 1" "unat V + n + 4096 < 2 ^ 47" "j < n"
  shows "unat (V + of_nat j) = unat V + j" "unat (remove_flag V) \<le> unat (V + of_nat j)"
    "unat (V + of_nat j) < unat (remove_flag V) + 4096 * k" "unat (remove_flag V) + 4096 * k < 2 ^ 47"
proof -
  show u: "unat (V + of_nat j) = unat V + j" using assms(2,3) by (intro unat_offset) simp
  have "unat V mod 4096 \<le> unat V" by simp
  then have r: "unat (remove_flag V) + unat V mod 4096 = unat V" by (simp add: unat_remove_flag)
  define x where "x = unat V mod 4096 + n"
  have "x mod 4096 < 4096" "4096 * (x div 4096) + x mod 4096 = x" by simp_all
  then have b: "x < 4096 * k" "4096 * k \<le> x + 4096" unfolding assms(1) x_def [symmetric] by simp_all
  show "unat (remove_flag V) \<le> unat (V + of_nat j)" using u r by linarith
  show "unat (V + of_nat j) < unat (remove_flag V) + 4096 * k" using u r b(1) assms(3) by (simp add: x_def)
  show "unat (remove_flag V) + 4096 * k < 2 ^ 47" using r b(2) assms(2) by (simp add: x_def)
qed

text \<open>The second half: the segment's pages in \<open>s\<close>, the file's bytes, and the copy between them.\<close>

lemma segment_copy:
  assumes inv: "table_inv (pm s) A (reg_cr3 s) L5"
    and k: "k = (unat V mod 4096 + m) div 4096 + 1" "unat V + m + 4096 < 2 ^ 47" "n \<le> m"
    and P: "\<And>j. j < m \<Longrightarrow> phys_of s (V + of_nat j) = Some (P j) \<and> L5 (remove_flag (P j)) = None \<and> pbyte (pm s) (P j) = 0"
    and inj: "\<And>i j. i < m \<Longrightarrow> j < m \<Longrightarrow> P i = P j \<Longrightarrow> i = j"
    and S: "\<And>j. j < n \<Longrightarrow> phys_of s (src + of_nat j) = Some (S j)" "\<And>i j. i < n \<Longrightarrow> j < m \<Longrightarrow> S i \<noteq> P j"
  shows "\<exists>g. copy_mem src V n s = Some (s\<lparr>pm := g\<rparr>) \<and>
    (\<forall>va. translate g (reg_cr3 s) va = translate (pm s) (reg_cr3 s) va) \<and>
    (\<forall>j<n. ld (s\<lparr>pm := g\<rparr>) (V + of_nat j) = ld s (src + of_nat j)) \<and>
    (\<forall>j. n \<le> j \<and> j < m \<longrightarrow> ld (s\<lparr>pm := g\<rparr>) (V + of_nat j) = Some 0)"
proof -
  have "\<exists>g. copy_mem src V n s = Some (s\<lparr>pm := g\<rparr>) \<and> table_inv g A (reg_cr3 s) L5 \<and>
    (\<forall>va. translate g (reg_cr3 s) va = translate (pm s) (reg_cr3 s) va) \<and>
    (\<forall>j<n. pbyte g (P j) = pbyte (pm s) (S j)) \<and> (\<forall>x. (\<forall>j<n. x \<noteq> P j) \<longrightarrow> pbyte g x = pbyte (pm s) x)"
    by (rule copy_mem_eq [OF inv]) (use P S inj k(3) in auto)
  then obtain g where g: "copy_mem src V n s = Some (s\<lparr>pm := g\<rparr>)"
    "\<forall>va. translate g (reg_cr3 s) va = translate (pm s) (reg_cr3 s) va"
    "\<forall>j<n. pbyte g (P j) = pbyte (pm s) (S j)" "\<forall>x. (\<forall>j<n. x \<noteq> P j) \<longrightarrow> pbyte g x = pbyte (pm s) x" by blast
  have ph: "phys_of (s\<lparr>pm := g\<rparr>) va = phys_of s va" for va by (rule phys_of_cong) (simp add: g(2))
  have "ld (s\<lparr>pm := g\<rparr>) (V + of_nat j) = ld s (src + of_nat j)" if "j < n" for j
    using P [of j] S(1) [OF that] g(3) that k(3) by (simp add: ld_def ph)
  moreover have "ld (s\<lparr>pm := g\<rparr>) (V + of_nat j) = Some 0" if "n \<le> j" "j < m" for j
  proof -
    have "\<forall>i<n. P j \<noteq> P i"
    proof (intro allI impI notI)
      fix i assume "i < n" "P j = P i"
      then have "j = i" using inj [OF that(2), of i] k(3) by simp
      with \<open>i < n\<close> that(1) show False by simp
    qed
    then show ?thesis using P [OF that(2)] g(4) by (simp add: ld_def ph)
  qed
  ultimately show ?thesis using g(1,2) by blast
qed

lemma load_segment_image_spec:
  assumes inv: "table_inv (pm st) (avail st) (reg_cr3 st) L" and ready: "direct_ready st"
    and cr: "cr3 (pcbs st proc) = reg_cr3 st"
    and fl: "p_flags ph = PF_R OR PF_X \<or> p_flags ph = PF_R OR PF_W"
    and size: "0 < p_memsz ph" "unat (p_vaddr ph) + unat (p_memsz ph) + 4096 < 2 ^ 47"
    and fsz: "unat (p_filesz ph) \<le> unat (p_memsz ph)" "unat (p_filesz ph) < 2 ^ 32"
    and k: "k = (unat (p_vaddr ph) mod 4096 + unat (p_memsz ph)) div 4096 + 1" and n: "5 * k + 2 \<le> card (avail st)"
    and vl: "vlist (vmas st) (mm_vma (mms st (mm (pcbs st proc)))) qs" "distinct qs" "kaddr (Min (avail st)) \<notin> set qs"
    and src: "apart_bytes st L (elf + p_offset ph) (unat (p_filesz ph)) S (remove_flag (p_vaddr ph)) k"
  shows "\<exists>st'. load_segment proc elf ph st = Some (st', True) \<and>
    (\<forall>j<unat (p_filesz ph). ld st' (p_vaddr ph + of_nat j) = ld st (elf + p_offset ph + of_nat j)) \<and>
    (\<forall>j. unat (p_filesz ph) \<le> j \<and> j < unat (p_memsz ph) \<longrightarrow> ld st' (p_vaddr ph + of_nat j) = Some 0) \<and>
    (\<forall>va. unat va < 2 ^ 47 \<and> (\<forall>i<k. indices va \<noteq> indices (remove_flag (p_vaddr ph) + of_nat i * 4096)) \<longrightarrow>
       translate (pm st') (reg_cr3 st) va = translate (pm st) (reg_cr3 st) va)"
proof -
  let ?r = "reg_cr3 st" and ?V = "p_vaddr ph" and ?s = "remove_flag (p_vaddr ph)" and ?src = "elf + p_offset ph"
  let ?n = "unat (p_filesz ph)" and ?m = "unat (p_memsz ph)"
  define v where "v = kaddr (Min (avail st))"
  obtain s1 s2 s3 fr L' L1 where s1: "kmalloc 4096 st = (s1, v)"
    and s2: "add_mmstruct (mm (pcbs s1 proc)) v (s1\<lparr>vmas := (vmas s1)(v := null_vma\<lparr>vm_start := ?V, vm_end := ?V + p_memsz ph\<rparr>)\<rparr>) = Some (s2, 0)"
    and s3: "map_segment (?V div PAGE_SIZE * PAGE_SIZE) (?V + p_memsz ph) (cr3 (pcbs s2 proc)) s2 = Some (s3, ?s + of_nat k * 4096)"
    and k1: "keeps ?r 1 L L1 st s1" and av1: "avail s1 = avail st - {Min (avail st)}"
    and tr1: "\<forall>va. translate (pm s1) ?r va = (if indices va = indices v then Some (Min (avail st) OR 3) else translate (pm st) ?r va)"
    and ao: "areas_only s1 s2" and seg: "seg_pages ?r ?s k fr L' s2 s3" and k3: "keeps ?r (5 * k) L1 L' s2 s3"
    and v3: "vm_start (vmas s3 v) = ?V" and ready3: "direct_ready s3"
    using load_segment_pages [OF inv ready cr size k n v_def vl(1,2) vl(3) [folded v_def]] by (elim exE conjE) (rule that)
  note ao = areas_onlyD [OF ao]
  have r1: "reg_cr3 s1 = ?r" and r2: "reg_cr3 s2 = ?r" and r3: "reg_cr3 s3 = ?r"
    using keepsD(8) [OF k1] keepsD(8) [OF k3] ao(3) by simp_all
  note k1D = keepsD [OF k1] and k3D = keepsD [OF k3]
  have sub: "dom L1 \<subseteq> dom L \<union> avail st" "avail s2 \<subseteq> avail st" "dom L' \<subseteq> dom L \<union> avail st" "avail s3 \<subseteq> avail st"
    using k1D(2,3) k3D(2,3) ao(2) by blast+
  define s4 where "s4 = (let s = upd_vma v (\<lambda>a. a\<lparr>vm_next := 0\<rparr>) (upd_vma v (\<lambda>a. a\<lparr>vm_flags := p_flags ph\<rparr>) s3);
        s = upd_mm (mm (pcbs s proc)) (\<lambda>m. m\<lparr>code_start := ?s + of_nat k * 4096\<rparr>) s
      in upd_mm (mm (pcbs s proc)) (\<lambda>m. m\<lparr>code_end := ?V + p_memsz ph\<rparr>) s)"
  have s4: "pm s4 = pm s3" "avail s4 = avail s3" "reg_cr3 s4 = ?r" "vm_start (vmas s4 v) = ?V"
    using v3 r3 by (simp_all add: s4_def Let_def)
  have ready4: "direct_ready s4" using direct_ready_cong [of s4 s3] s4 r3 ready3 by simp
  have inv4: "table_inv (pm s4) (avail s4) (reg_cr3 s4) L'" using keepsD(1) [OF k3] by (simp add: s4)
  have "0 < card (avail s3)" using k1D(4) k3D(4) n ao(2) by simp
  then have ne4: "avail s4 \<noteq> {}" by (auto simp: s4)
  define b where "b = Min (avail s4)"
  obtain s5 L5 where s5: "kmalloc 4096 s4 = (s5, kaddr b)" and k5: "keeps (reg_cr3 s4) 1 L' L5 s4 s5" and av5: "avail s5 = avail s4 - {b}"
    and tr5: "\<forall>va. translate (pm s5) (reg_cr3 s4) va = (if indices va = indices (kaddr b) then Some (b OR 3) else translate (pm s4) (reg_cr3 s4) va)"
    by (rule kmalloc_keeps [OF inv4 ready4 ne4 b_def])
  have b: "b \<in> avail st" using Min_in [OF finite_avail ne4] sub(4) by (auto simp: b_def s4)
  define s6 where "s6 = upd_vma v (\<lambda>a. a\<lparr>file_size := p_filesz ph\<rparr>) (upd_vma v (\<lambda>a. a\<lparr>file_start := p_offset ph\<rparr>)
      (upd_vma v (\<lambda>a. a\<lparr>vm_file := kaddr b\<rparr>) s5))"
  have s6: "pm s6 = pm s5" "avail s6 = avail s5" "reg_cr3 s6 = ?r" "vm_start (vmas s6 v) = ?V"
    using keepsD(8) [OF k5] same_objs(1) [OF keepsD(7) [OF k5]] s4 by (simp_all add: s6_def)
  have tr6: "translate (pm s6) ?r va = translate (pm s3) ?r va" if "\<forall>a \<in> avail st. indices va \<noteq> indices (kaddr a)" for va
    using tr5 b that by (simp add: s6 s4)
  have tr2: "translate (pm s2) ?r va = translate (pm st) ?r va" if "\<forall>a \<in> avail st. indices va \<noteq> indices (kaddr a)" for va
  proof -
    have "Min (avail st) \<in> avail st" using n by (intro Min_in [OF finite_avail]) auto
    then show ?thesis using tr1 that by (simp add: ao(1) v_def)
  qed
  note k5D = keepsD [OF k5]
  have inv6: "table_inv (pm s6) (avail s6) (reg_cr3 s6) L5" using k5D(1) s6 s4(3) by simp
  define P where "P j = fr ((unat (?V + of_nat j) - unat ?s) div 4096) + ((?V + of_nat j) AND mask 12)" for j
  have s: "page_aligned ?s" by (rule page_aligned_remove_flag)
  note pb = page_bounds [OF k size(2)]
  have ph3: "phys_of s3 (?V + of_nat j) = Some (P j)" "remove_flag (P j) = fr ((unat (?V + of_nat j) - unat ?s) div 4096)"
    "(unat (?V + of_nat j) - unat ?s) div 4096 < k" if "j < ?m" for j
    unfolding P_def using seg_phys [OF seg r3 [symmetric] s pb(4) [OF that] pb(2,3) [OF that]] by simp_all
  have P: "phys_of s6 (?V + of_nat j) = Some (P j) \<and> L5 (remove_flag (P j)) = None \<and> pbyte (pm s6) (P j) = 0"
    "remove_flag (P j) \<in> avail st" if j: "j < ?m" for j
  proof -
    let ?f = "remove_flag (P j)"
    have f: "?f \<in> avail s2" "?f \<notin> avail s3" "L' ?f = None" "\<forall>i<512. pm s3 (slot ?f i) = 0"
      using seg ph3(2,3) [OF j] unfolding seg_pages_def by auto
    show "?f \<in> avail st" using f(1) sub(2) by blast
    have u: "unat (?V + of_nat j) < 2 ^ 47" using pb(3,4) [OF j] by simp
    have "translate (pm s6) ?r (?V + of_nat j) = translate (pm s3) ?r (?V + of_nat j)"
      by (rule tr6) (use user_not_direct [OF u] in blast)
    then have "phys_of s6 (?V + of_nat j) = Some (P j)"
      using ph3(1) [OF j] phys_of_cong [of s6 "?V + of_nat j" s3] s6(3) r3 by simp
    moreover have "L5 ?f = None" using f(2,3) k5D(2) s4(2) by blast
    moreover have "pbyte (pm s6) (P j) = pbyte (pm s3) (P j)"
      using keeps_pbyte [OF k5, of "P j"] f(2,3) by (auto simp: s6 s4)
    moreover have "pbyte (pm s3) (P j) = 0" by (rule pbyte_zero) (use f(4) in blast)
    ultimately show "phys_of s6 (?V + of_nat j) = Some (P j) \<and> L5 ?f = None \<and> pbyte (pm s6) (P j) = 0" by simp
  qed
  have inj: "i = j" if "i < ?m" "j < ?m" "P i = P j" for i j
  proof -
    have "?V + of_nat i = ?V + of_nat j"
      by (rule seg_phys_inj [OF seg r3 [symmetric] s pb(4) [OF that(1)] pb(2,3) [OF that(1)] pb(2,3) [OF that(2)]])
        (simp only: ph3(1) [OF that(1)] ph3(1) [OF that(2)] that(3))
    then have "unat ?V + i = unat ?V + j" by (simp only: pb(1) [OF that(1), symmetric] pb(1) [OF that(2), symmetric])
    then show "i = j" by (rule add_left_imp_eq)
  qed
  have S: "phys_of s6 (?src + of_nat j) = Some (S j)" "pbyte (pm s6) (S j) = pbyte (pm st) (S j)"
    "remove_flag (S j) \<notin> avail st" "phys_of st (?src + of_nat j) = Some (S j)" if j: "j < ?n" for j
  proof -
    let ?va = "?src + of_nat j"
    have a: "phys_of st ?va = Some (S j)" "remove_flag (S j) \<notin> dom L" "remove_flag (S j) \<notin> avail st"
      "\<forall>a \<in> avail st. indices ?va \<noteq> indices (kaddr a)" "\<forall>i<k. indices ?va \<noteq> indices (?s + of_nat i * 4096)"
      using src j unfolding apart_bytes_def by blast+
    have "translate (pm s3) ?r ?va = translate (pm s2) ?r ?va" using seg a(5) unfolding seg_pages_def by blast
    then have "translate (pm s6) ?r ?va = translate (pm st) ?r ?va" using tr6 [OF a(4)] tr2 [OF a(4)] by simp
    then show "phys_of s6 ?va = Some (S j)" using a(1) phys_of_cong [of s6 ?va st] s6(3) by simp
    have "pbyte (pm s5) (S j) = pbyte (pm s4) (S j)"
      by (rule keeps_pbyte [OF k5]) (use a(2,3) sub s4(2) in blast)+
    also have "\<dots> = pbyte (pm s2) (S j)"
      unfolding s4(1) by (rule keeps_pbyte [OF k3]) (use a(2,3) sub in blast)+
    also have "\<dots> = pbyte (pm st) (S j)"
      unfolding ao(1) by (rule keeps_pbyte [OF k1 a(2,3)])
    finally show "pbyte (pm s6) (S j) = pbyte (pm st) (S j)" by (simp add: s6)
    show "remove_flag (S j) \<notin> avail st" "phys_of st ?va = Some (S j)" using a(1,3) by simp_all
  qed
  have SP: "S i \<noteq> P j" if "i < ?n" "j < ?m" for i j using S(3) [OF that(1)] P(2) [OF that(2)] by auto
  obtain g where g: "copy_mem ?src ?V ?n s6 = Some (s6\<lparr>pm := g\<rparr>)"
      "\<forall>va. translate g (reg_cr3 s6) va = translate (pm s6) (reg_cr3 s6) va"
      "\<forall>j<?n. ld (s6\<lparr>pm := g\<rparr>) (?V + of_nat j) = ld s6 (?src + of_nat j)"
      "\<forall>j. ?n \<le> j \<and> j < ?m \<longrightarrow> ld (s6\<lparr>pm := g\<rparr>) (?V + of_nat j) = Some 0"
    using segment_copy [OF inv6 k size(2) fsz(1) P(1) inj S(1) SP] by blast
  define st' where "st' = upd_vma v (\<lambda>a. a\<lparr>vm_type := if p_flags ph = PF_R OR PF_X then TEXT else DATA\<rparr>) (s6\<lparr>pm := g\<rparr>)"
  have n32: "unat (ucast (p_filesz ph) :: u32) = ?n"
    using fsz(2) by (simp add: unsigned_ucast_eq take_bit_nat_eq_self)
  have "load_segment proc elf ph st = Some (st', True)"
    unfolding st'_def by (rule load_segment_steps [OF s1 s2 s3 s4_def s5 s6_def _ fl]) (simp add: g(1) n32 s6(4))
  moreover have ld': "ld st' va = ld (s6\<lparr>pm := g\<rparr>) va" for va by (rule phys_of_keeps(2)) (simp_all add: st'_def)
  have "ld st' (?V + of_nat j) = ld st (?src + of_nat j)" if j: "j < ?n" for j
  proof -
    have "ld s6 (?src + of_nat j) = ld st (?src + of_nat j)" using S [OF j] by (simp add: ld_def)
    with g(3) j show ?thesis by (simp add: ld')
  qed
  moreover have "ld st' (?V + of_nat j) = Some 0" if "?n \<le> j" "j < ?m" for j using g(4) that by (simp add: ld')
  moreover have "translate (pm st') ?r va = translate (pm st) ?r va"
    if "unat va < 2 ^ 47" "\<forall>i<k. indices va \<noteq> indices (?s + of_nat i * 4096)" for va
  proof -
    have d: "\<forall>a \<in> avail st. indices va \<noteq> indices (kaddr a)" using user_not_direct [OF that(1)] by blast
    have "translate (pm st') ?r va = translate (pm s6) ?r va" using g(2) s6(3) by (simp add: st'_def)
    moreover have "translate (pm s3) ?r va = translate (pm s2) ?r va" using seg that(2) unfolding seg_pages_def by blast
    ultimately show ?thesis using tr6 [OF d] tr2 [OF d] by simp
  qed
  ultimately show ?thesis by blast
qed

section \<open>Properties\<close>

text \<open>A file in the frame 0xC000 that the kernel maps, with the two bytes 65 and 66 at offset 32.\<close>

definition demo_file_pm :: "u64 \<Rightarrow> u64" where
  "demo_file_pm = (demo_pm(0xC020 := 0x4241))(slot 0x4000 12 := 0xC003)"

definition demo_file :: kernel where
  "demo_file = (bare_kernel (demo\<lparr>pm := demo_file_pm\<rparr>))
     \<lparr>pcbs := (\<lambda>_. null_pcb)(0x10 := null_pcb\<lparr>pid := 2, cr3 := 0x1000, mm := 0x20\<rparr>), mms := (\<lambda>_. null_mm), vmas := (\<lambda>_. null_vma)\<rparr>"

definition demo_phdr :: elf64_phdr where
  "demo_phdr = \<lparr>p_type = PT_LOAD, p_flags = PF_R OR PF_X, p_offset = 32, p_vaddr = 0x400010, p_filesz = 2, p_memsz = 100\<rparr>"

lemma demo_file_simps [simp]:
  "pm demo_file = demo_file_pm" "avail demo_file = avail demo" "reg_cr3 demo_file = 0x1000"
  "cr3 (pcbs demo_file 0x10) = 0x1000" "mm_vma (mms demo_file q) = 0"
  by (simp_all add: demo_file_def bare_kernel_def avail_def null_mm_def)

lemma demo_file_tables:
  "table_inv demo_file_pm (avail demo) 0x1000 demo_levels"
  "leaf_of demo_file_pm 0x1000 (indices va) = leaf_of demo_pm 0x1000 (indices va)"
  "translate demo_file_pm 0x1000 va = (if indices va = indices 0xFFFFFFFF8000C000 then Some 0xC003 else None)"
proof -
  let ?g = "demo_pm(0xC020 := 0x4241)"
  have eq: "?g x = demo_pm x" if "remove_flag x \<noteq> 0xC000" for x using that by (auto simp: remove_flag_def)
  have no: "demo_levels 0xC000 = None" and r: "\<And>va. demo_levels 0x1000 = Some (length (indices va))"
    by (simp_all add: demo_levels_def indices_def)
  have wf: "wf_tables ?g 0x1000 demo_levels" by (rule data_write_wf [OF demo_wf eq no])
  have same: "leaf_of ?g 0x1000 (indices va) = leaf_of demo_pm 0x1000 (indices va)"
      "entry_at ?g 0x1000 (indices va) = entry_at demo_pm 0x1000 (indices va)" for va
    by (rule data_write_leaf_of [OF demo_wf eq no r indices_less], assumption)+
  have inv: "table_inv ?g (avail demo) 0x1000 demo_levels" using demo_inv wf by (simp add: table_inv_def)
  have "leaf_of demo_pm 0x1000 (indices 0xFFFFFFFF8000C000) = Some (0x4000, 12)"
  proof -
    have "get_index 0xFFFFFFFF8000C000 39 = 511" "get_index 0xFFFFFFFF8000C000 30 = 510"
      "get_index 0xFFFFFFFF8000C000 21 = 0" "get_index 0xFFFFFFFF8000C000 12 = 12"
      by (simp_all add: get_index_def word_unat_eq_iff)
    moreover have "demo_pm (slot 0x1000 511) = 0x2003" "demo_pm (slot 0x2000 510) = 0x3003" "demo_pm (slot 0x3000 0) = 0x4003"
      by (simp_all add: demo_pm_def slot_def)
    ultimately show ?thesis by (simp add: indices_def)
  qed
  then have leaf: "leaf_of ?g 0x1000 (indices 0xFFFFFFFF8000C000) = Some (0x4000, 12)" by (simp only: same(1))
  have p: "present 0xC003" by (simp add: present_def)
  show "table_inv demo_file_pm (avail demo) 0x1000 demo_levels"
    unfolding demo_file_pm_def by (rule translate_leaf_write(2) [OF inv leaf p])
  show "translate demo_file_pm 0x1000 va = (if indices va = indices 0xFFFFFFFF8000C000 then Some 0xC003 else None)"
    unfolding demo_file_pm_def translate_leaf_write(1) [OF inv leaf p]
    using demo_unmapped [of va] by (simp only: translate_def same(2))
  have "leaf_of demo_file_pm 0x1000 (indices va) = leaf_of ?g 0x1000 (indices va)"
    unfolding demo_file_pm_def
    by (rule leaf_of_leaf_write [OF wf _ _ r indices_less]) (simp_all add: demo_levels_def)
  then show "leaf_of demo_file_pm 0x1000 (indices va) = leaf_of demo_pm 0x1000 (indices va)" by (simp only: same(1))
qed

lemma demo_file_bytes: "apart_bytes demo_file demo_levels (0xFFFFFFFF8000C000 + 32) 2 (\<lambda>j. 0xC020 + of_nat j) 0x400000 1"
  unfolding apart_bytes_def
proof (intro allI impI)
  fix j :: nat assume "j < 2"
  then have j: "j = 0 \<or> j = 1" by auto
  have idx: "indices (0xFFFFFFFF8000C000 + 32 + of_nat j) = indices 0xFFFFFFFF8000C000"
    "indices (0xFFFFFFFF8000C000 :: u64) \<noteq> indices 0x400000"
    using j by (auto simp: indices_eq_iff page_no_def)
  have low: "(0xFFFFFFFF8000C000 + 32 + of_nat j) AND mask 12 = (32 + of_nat j :: u64)" "remove_flag (0xC020 + of_nat j) = 0xC000"
    "remove_flag 0xC003 = 0xC000"
    using j by (auto simp: remove_flag_def mask_eq_exp_minus_1)
  have "\<forall>a \<in> avail demo. indices (0xFFFFFFFF8000C000 :: u64) \<noteq> indices (kaddr a)"
    by (auto simp: demo_avail kaddr_def indices_eq_iff page_no_def)
  then show "phys_of demo_file (0xFFFFFFFF8000C000 + 32 + of_nat j) = Some (0xC020 + of_nat j) \<and>
      remove_flag (0xC020 + of_nat j) \<notin> dom demo_levels \<and> remove_flag (0xC020 + of_nat j) \<notin> avail demo_file \<and>
      (\<forall>a \<in> avail demo_file. indices (0xFFFFFFFF8000C000 + 32 + of_nat j) \<noteq> indices (kaddr a)) \<and>
      (\<forall>i<1. indices (0xFFFFFFFF8000C000 + 32 + of_nat j) \<noteq> indices (0x400000 + of_nat i * 4096))"
    unfolding idx(1) low(2) using idx low
    by (auto simp: phys_of_def frame_of_def demo_file_tables(3) demo_levels_def demo_avail)
qed

text \<open>C35: Loading a readable executable or readable writable segment into the current address space, with
  enough free frames and the file outside the memory it takes: the loader succeeds, the process then reads
  the file's bytes at the segment's address and zeros behind them up to the segment's size in memory, and
  no other address of the process below the kernel half is mapped differently.\<close>

theorem load_segment_image:
  assumes "table_inv (pm st) (avail st) (reg_cr3 st) L" "direct_ready st" "cr3 (pcbs st proc) = reg_cr3 st"
    and "p_flags ph = PF_R OR PF_X \<or> p_flags ph = PF_R OR PF_W"
    and "0 < p_memsz ph" "unat (p_vaddr ph) + unat (p_memsz ph) + 4096 < 2 ^ 47"
    and "unat (p_filesz ph) \<le> unat (p_memsz ph)" "unat (p_filesz ph) < 2 ^ 32"
    and "k = (unat (p_vaddr ph) mod 4096 + unat (p_memsz ph)) div 4096 + 1" "5 * k + 2 \<le> card (avail st)"
    and "vlist (vmas st) (mm_vma (mms st (mm (pcbs st proc)))) qs" "distinct qs" "kaddr (Min (avail st)) \<notin> set qs"
    and "apart_bytes st L (elf + p_offset ph) (unat (p_filesz ph)) S (remove_flag (p_vaddr ph)) k"
  shows "\<exists>st'. load_segment proc elf ph st = Some (st', True) \<and>
    (\<forall>j<unat (p_filesz ph). ld st' (p_vaddr ph + of_nat j) = ld st (elf + p_offset ph + of_nat j)) \<and>
    (\<forall>j. unat (p_filesz ph) \<le> j \<and> j < unat (p_memsz ph) \<longrightarrow> ld st' (p_vaddr ph + of_nat j) = Some 0) \<and>
    (\<forall>va. unat va < 2 ^ 47 \<and> (\<forall>i<k. indices va \<noteq> indices (remove_flag (p_vaddr ph) + of_nat i * 4096)) \<longrightarrow>
       translate (pm st') (reg_cr3 st) va = translate (pm st) (reg_cr3 st) va)"
  using assms by (rule load_segment_image_spec)

theorem load_segment_image_witness:
  "\<exists>st'. load_segment 0x10 0xFFFFFFFF8000C000 demo_phdr demo_file = Some (st', True) \<and>
    ld st' 0x400010 = Some 65 \<and> ld st' 0x400011 = Some 66 \<and> ld st' 0x400012 = Some 0"
proof -
  have "direct_ready demo_file" using demo_ready by (simp add: direct_ready_def demo_file_tables(2))
  then have "\<exists>st'. load_segment 0x10 0xFFFFFFFF8000C000 demo_phdr demo_file = Some (st', True) \<and>
    (\<forall>j<unat (p_filesz demo_phdr). ld st' (p_vaddr demo_phdr + of_nat j) = ld demo_file (0xFFFFFFFF8000C000 + p_offset demo_phdr + of_nat j)) \<and>
    (\<forall>j. unat (p_filesz demo_phdr) \<le> j \<and> j < unat (p_memsz demo_phdr) \<longrightarrow> ld st' (p_vaddr demo_phdr + of_nat j) = Some 0) \<and>
    (\<forall>va. unat va < 2 ^ 47 \<and> (\<forall>i<1. indices va \<noteq> indices (remove_flag (p_vaddr demo_phdr) + of_nat i * 4096)) \<longrightarrow>
       translate (pm st') (reg_cr3 demo_file) va = translate (pm demo_file) (reg_cr3 demo_file) va)"
    by (intro load_segment_image [where L = demo_levels and qs = "[]" and S = "\<lambda>j. 0xC020 + of_nat j"])
      (use demo_file_tables(1) demo_file_bytes in \<open>simp_all add: demo_phdr_def demo_card remove_flag_def\<close>)
  then obtain st' where st': "load_segment 0x10 0xFFFFFFFF8000C000 demo_phdr demo_file = Some (st', True)"
    "\<forall>j<2. ld st' (0x400010 + of_nat j) = ld demo_file (0xFFFFFFFF8000C020 + of_nat j)"
    "\<forall>j. 2 \<le> j \<and> j < 100 \<longrightarrow> ld st' (0x400010 + of_nat j) = Some 0"
    by (auto simp: demo_phdr_def)
  have b: "ld demo_file (0xFFFFFFFF8000C020 + of_nat j) = Some (pbyte demo_file_pm (0xC020 + of_nat j))" if "j < 2" for j
    using demo_file_bytes that by (simp add: apart_bytes_def ld_def)
  have "pbyte demo_file_pm 0xC020 = 65" "pbyte demo_file_pm 0xC021 = 66"
    by (simp_all add: pbyte_def demo_file_pm_def cell_def lane_def byte_of_def slot_def)
  then show ?thesis
    using st' b [of 0] b [of 1] st'(2) [rule_format, of 0] st'(2) [rule_format, of 1] st'(3) [rule_format, of 2] by simp
qed

end
