(* ===== verification/Keyboard.thy ===== *)
theory Keyboard
  imports Console "HOL-Library.Monad_Syntax"
begin

text \<open>
  The keyboard, \<^verbatim>\<open>sys/kb.c\<close>: the two scan code tables, the interrupt handler that echoes a key and
  stores it in the 200-byte line buffer, and \<open>scanf\<close>, which waits for Enter and hands the line
  over. An interrupt is the pair of bytes it reads from the two ports. A write outside the buffer
  and a read outside a table are the error \<open>None\<close>.
\<close>

unbundle bit_operations_syntax

section \<open>Definitions\<close>

record keyboard =
  con :: console
  count :: cint
  input_done :: cint
  pressed :: "u8 list"

definition keyboard_map :: "u8 list" where
  "keyboard_map =
     [0, 27] @ map of_char ''1234567890-='' @ [8, 9] @ map of_char ''qwertyuiop[]'' @ [10, 13] @
     map of_char ''asdfghjkl;'' @ [39, 96, 15, 92] @ map of_char ''zxcvbnm,./'' @ [15, 42, 0, 32] @
     replicate 16 0 @ [45, 0, 0, 0, 43] @ replicate 49 0"

definition keyboard_upper_map :: "u8 list" where
  "keyboard_upper_map =
     [0, 27] @ map of_char ''!@#$%^&*()_='' @ [8, 9] @ map of_char ''QWERTYUIOP{}'' @ [10, 0] @
     map of_char ''ASDFGHJKL:'' @ [34, 126, 15, 92] @ map of_char ''ZXCVBNM<>?'' @ [0, 42]"

definition kb_echo :: "u8 \<Rightarrow> keyboard \<Rightarrow> keyboard \<times> bool" where
  "kb_echo ch k = (let (c, exits) = kprintf_kb ch (con k) in (k\<lparr>con := c\<rparr>, exits))"

definition set_control :: "u8 \<Rightarrow> keyboard \<Rightarrow> keyboard" where
  "set_control v k = k\<lparr>con := (con k)\<lparr>control := v\<rparr>\<rparr>"

definition set_shift :: "u8 \<Rightarrow> keyboard \<Rightarrow> keyboard" where
  "set_shift v k = k\<lparr>con := (con k)\<lparr>shift := v\<rparr>\<rparr>"

definition arrow :: "u8 \<Rightarrow> keyboard \<Rightarrow> keyboard \<times> bool" where
  "arrow code k =
     (let (k, exits) = kb_echo code (set_shift 1 (set_control 1 k))
      in (set_shift 0 (set_control 0 k), exits))"

text \<open>\<^verbatim>\<open>pressed[count++] = status\<close>\<close>

definition store_key :: "u8 \<Rightarrow> keyboard \<Rightarrow> keyboard option" where
  "store_key ch k =
     (if 0 \<le> count k \<and> count k < 200
      then Some (k\<lparr>pressed := (pressed k)[nat (count k) := ch], count := count k + 1\<rparr>) else None)"

text \<open>The flag is that of \<open>kprintf_kb\<close>: the key ends the process.\<close>

definition kb_handler :: "u8 \<Rightarrow> u8 \<Rightarrow> keyboard \<Rightarrow> (keyboard \<times> bool) option" where
  "kb_handler status scancode k =
     (if status AND 1 \<noteq> 0 then
        (let k = (if scancode = 0x1C then k\<lparr>input_done := 0\<rparr> else k)
         in if scancode = 0x2A \<or> scancode = 0x36 then Some (set_shift 1 k, False)
            else if scancode = 0xAA \<or> scancode = 0xB6 then Some (set_shift 0 k, False)
            else if scancode = 0x1D then Some (set_control 1 k, False)
            else if scancode = 0x9D then Some (set_control 0 k, False)
            else if scancode = 0x48 then Some (arrow 0x48 k)
            else if scancode = 0x4B then Some (arrow 0x4B k)
            else if scancode = 0x50 then Some (arrow 0x50 k)
            else if scancode = 0x4D then Some (arrow 0x4D k)
            else if scancode = 0x0E then
              (let k = set_control 1 k;
                   k = k\<lparr>count := count k - 1\<rparr>;
                   k = (if count k < 0 then k\<lparr>count := 0\<rparr> else k);
                   (k, exits) = kb_echo 0x68 k
               in Some (set_control 0 k, exits))
            else if scancode = 0x53 then
              (let (k, exits) = kb_echo 63 (set_control 1 k) in Some (set_control 0 k, exits))
            else if scancode > 127 then Some (k, False)
            else if shift (con k) = 1 \<or> control (con k) = 1 then
              (if length keyboard_upper_map \<le> unat scancode then None
               else do {
                 let status = keyboard_upper_map ! unat scancode;
                 k \<leftarrow> store_key status k;
                 Some (kb_echo status k)
               })
            else do {
              let status = keyboard_map ! unat scancode;
              k \<leftarrow> store_key status k;
              Some (kb_echo status k)
            })
      else Some (k, False))"

text \<open>\<open>clear_buffer\<close> clears up to the first NUL, which may be outside the buffer.\<close>

fun clear_buffer :: "u8 list \<Rightarrow> u8 list option" where
  "clear_buffer [] = None"
| "clear_buffer (c # cs) = (if c \<noteq> 0 then map_option (Cons 0) (clear_buffer cs) else Some (c # cs))"

text \<open>
  The wait for \<^verbatim>\<open>input_done\<close>, over the interrupts to come; without enough of them it goes on
  waiting, \<open>None\<close>. The flag of a handler ends the process that waits.
\<close>

fun wait_input :: "(u8 \<times> u8) list \<Rightarrow> keyboard \<Rightarrow> ((u8 \<times> u8) list \<times> keyboard) option" where
  "wait_input [] k = (if input_done k = 1 then None else Some ([], k))"
| "wait_input (e # es) k =
     (if input_done k = 1 then do {
        (k, exits) \<leftarrow> kb_handler (fst e) (snd e) k;
        if exits then None else wait_input es k
      }
      else Some (e # es, k))"

text \<open>The result: the interrupts not waited for, the text of the line (then the memory of the caller) and the keyboard.\<close>

definition scanf_text :: "(u8 \<times> u8) list \<Rightarrow> keyboard \<Rightarrow> ((u8 \<times> u8) list \<times> u8 list \<times> keyboard) option" where
  "scanf_text es k = do {
     let k = k\<lparr>input_done := 1\<rparr>;
     (es, k) \<leftarrow> wait_input es k;
     if count k < 1 \<or> 200 < count k then None
     else do {
       let k = k\<lparr>pressed := (pressed k)[nat (count k - 1) := 0]\<rparr>;
       let k = k\<lparr>count := 0\<rparr>;
       let text = takeWhile (\<lambda>c. c \<noteq> 0) (pressed k);
       p \<leftarrow> clear_buffer (pressed k);
       Some (es, text, k\<lparr>pressed := p\<rparr>)
     }
   }"

definition scanf :: "(u8 \<times> u8) list \<Rightarrow> u64 \<Rightarrow> mem \<Rightarrow> keyboard \<Rightarrow> ((u8 \<times> u8) list \<times> mem \<times> keyboard) option" where
  "scanf es buf m k = do {
     (es, text, k) \<leftarrow> scanf_text es k;
     Some (es, write_bytes m buf (text @ [0, 0]), k)
   }"

section \<open>The line editor\<close>

text \<open>
  What the keyboard promises: a line that keys extend and backspace shortens, under two modifiers
  that choose the table. \<open>edit\<close> is the editor, on scan codes; \<open>None\<close> is a line that is full or a key
  that the upper table does not have.
\<close>

record editor =
  shifted :: u8
  controlled :: u8
  line :: "u8 list"

definition plain_key :: "u8 \<Rightarrow> bool" where
  "plain_key c \<longleftrightarrow> c \<le> 127 \<and> c \<notin> {0x2A, 0x36, 0x1D, 0x48, 0x4B, 0x50, 0x4D, 0x0E, 0x53}"

definition key_char :: "editor \<Rightarrow> u8 \<Rightarrow> u8 option" where
  "key_char e c =
     (if shifted e = 1 \<or> controlled e = 1
      then (if unat c < length keyboard_upper_map then Some (keyboard_upper_map ! unat c) else None)
      else Some (keyboard_map ! unat c))"

definition edit :: "u8 \<Rightarrow> editor \<Rightarrow> editor option" where
  "edit c e =
     (if c = 0x2A \<or> c = 0x36 then Some (e\<lparr>shifted := 1\<rparr>)
      else if c = 0xAA \<or> c = 0xB6 then Some (e\<lparr>shifted := 0\<rparr>)
      else if c = 0x1D then Some (e\<lparr>controlled := 1\<rparr>)
      else if c = 0x9D then Some (e\<lparr>controlled := 0\<rparr>)
      else if c \<in> {0x48, 0x4B, 0x50, 0x4D} then Some (e\<lparr>shifted := 0, controlled := 0\<rparr>)
      else if c = 0x0E then Some (e\<lparr>line := butlast (line e), controlled := 0\<rparr>)
      else if c = 0x53 then Some (e\<lparr>controlled := 0\<rparr>)
      else if plain_key c then do {
        ch \<leftarrow> key_char e c;
        if length (line e) < 200 then Some (e\<lparr>line := line e @ [ch]\<rparr>) else None
      }
      else Some e)"

definition editor_of :: "keyboard \<Rightarrow> editor" where
  "editor_of k = \<lparr>shifted = shift (con k), controlled = control (con k), line = take (nat (count k)) (pressed k)\<rparr>"

definition kb_ok :: "keyboard \<Rightarrow> bool" where
  "kb_ok k \<longleftrightarrow> length (pressed k) = 200 \<and> 0 \<le> count k \<and> count k \<le> 200"

lemma modifiers_simps [simp]:
  "control (scroll s) = control s" "shift (scroll s) = shift s" "control (wrap s) = control s" "shift (wrap s) = shift s"
  "control (put_at y c s) = control s" "shift (put_at y c s) = shift s" "control (put c s) = control s" "shift (put c s) = shift s"
  "control (newline s) = control s" "shift (newline s) = shift s"
  by (simp_all add: put_at_def put_def newline_def scroll_def wrap_def update_screen_def Let_def)

lemma kprintf_kb_modifiers: "control (fst (kprintf_kb ch s)) = control s \<and> shift (fst (kprintf_kb ch s)) = shift s"
  by (simp add: kprintf_kb_def Let_def)

lemma kb_echo_simps [simp]:
  "count (fst (kb_echo ch k)) = count k" "input_done (fst (kb_echo ch k)) = input_done k"
  "pressed (fst (kb_echo ch k)) = pressed k"
  "control (con (fst (kb_echo ch k))) = control (con k)" "shift (con (fst (kb_echo ch k))) = shift (con k)"
  using kprintf_kb_modifiers [of ch "con k"] by (simp_all add: kb_echo_def case_prod_beta)

lemma kb_echo_stays: "ch \<noteq> 31 \<Longrightarrow> snd (kb_echo ch k) = False"
  by (simp add: kb_echo_def kprintf_kb_def Let_def case_prod_beta)

lemma modifier_simps [simp]:
  "count (set_control v k) = count k" "input_done (set_control v k) = input_done k" "pressed (set_control v k) = pressed k"
  "control (con (set_control v k)) = v" "shift (con (set_control v k)) = shift (con k)"
  "count (set_shift v k) = count k" "input_done (set_shift v k) = input_done k" "pressed (set_shift v k) = pressed k"
  "shift (con (set_shift v k)) = v" "control (con (set_shift v k)) = control (con k)"
  by (simp_all add: set_control_def set_shift_def)

lemma no_exit_key: "n < 128 \<Longrightarrow> keyboard_map ! n \<noteq> 31" "n < length keyboard_upper_map \<Longrightarrow> keyboard_upper_map ! n \<noteq> 31"
proof -
  have "31 \<notin> set keyboard_map" "length keyboard_map = 128" by code_simp+
  then show "n < 128 \<Longrightarrow> keyboard_map ! n \<noteq> 31" by (metis nth_mem)
  have "31 \<notin> set keyboard_upper_map" by code_simp
  then show "n < length keyboard_upper_map \<Longrightarrow> keyboard_upper_map ! n \<noteq> 31" by (metis nth_mem)
qed

lemma butlast_take: "n \<le> length xs \<Longrightarrow> butlast (take n xs) = take (n - 1) xs"
  by (simp add: butlast_conv_take min_def)

lemma take_Suc_update: "n < length xs \<Longrightarrow> take (Suc n) (xs[n := c]) = take n xs @ [c]"
  by (simp add: take_Suc_conv_app_nth)

lemma length_line: "kb_ok k \<Longrightarrow> length (line (editor_of k)) = nat (count k)"
  by (simp add: kb_ok_def editor_of_def min_absorb2 nat_le_iff)

lemma store_key_eq:
  assumes "kb_ok k"
  shows "case store_key ch k of None \<Rightarrow> length (line (editor_of k)) = 200
    | Some k' \<Rightarrow> length (line (editor_of k)) < 200 \<and> kb_ok k' \<and> con k' = con k \<and> input_done k' = input_done k \<and>
        editor_of k' = (editor_of k)\<lparr>line := line (editor_of k) @ [ch]\<rparr>"
  using assms take_Suc_update [of "nat (count k)" "pressed k" ch] unfolding length_line [OF assms]
  by (simp add: kb_ok_def store_key_def editor_of_def nat_add_distrib nat_less_iff) linarith

lemma editor_of_echo: "editor_of (fst (kb_echo ch k)) = editor_of k" "kb_ok (fst (kb_echo ch k)) = kb_ok k"
  by (simp_all add: editor_of_def kb_ok_def)

lemma plain_handler:
  assumes "plain_key c" "status AND 1 \<noteq> 0" and k1_def: "k1 = (if c = 0x1C then k\<lparr>input_done := 0\<rparr> else k)"
  shows "kb_handler status c k = (case key_char (editor_of k) c of None \<Rightarrow> None
    | Some ch \<Rightarrow> map_option (kb_echo ch) (store_key ch k1))"
proof -
  have "c \<noteq> 0x2A" "c \<noteq> 0x36" "c \<noteq> 0x1D" "c \<noteq> 0x48" "c \<noteq> 0x4B" "c \<noteq> 0x50" "c \<noteq> 0x4D" "c \<noteq> 0x0E" "c \<noteq> 0x53"
    "\<not> c > 127" "c \<noteq> 0xAA" "c \<noteq> 0xB6" "c \<noteq> 0x9D"
    using assms(1) by (auto simp: plain_key_def)
  moreover have "con k1 = con k" by (simp add: k1_def)
  ultimately show ?thesis
    using assms(2) unfolding kb_handler_def k1_def [symmetric]
    by (simp add: Let_def key_char_def editor_of_def map_conv_bind_option o_def)
qed

text \<open>The handler implements the editor, and is done exactly at Enter.\<close>

lemma kb_handler_edit:
  assumes "kb_ok k" "status AND 1 \<noteq> 0"
  shows "case edit c (editor_of k) of None \<Rightarrow> kb_handler status c k = None
    | Some e \<Rightarrow> \<exists>k'. kb_handler status c k = Some (k', False) \<and> kb_ok k' \<and> editor_of k' = e \<and>
        input_done k' = (if c = 0x1C then 0 else input_done k)"
proof (cases "plain_key c")
  case True
  then have "c \<noteq> 0x2A" "c \<noteq> 0x36" "c \<noteq> 0x1D" "c \<noteq> 0x48" "c \<noteq> 0x4B" "c \<noteq> 0x50" "c \<noteq> 0x4D" "c \<noteq> 0x0E" "c \<noteq> 0x53"
    "c \<le> 127" "c \<noteq> 0xAA" "c \<noteq> 0xB6" "c \<noteq> 0x9D"
    by (auto simp: plain_key_def)
  then have e: "edit c (editor_of k) = do {
        ch \<leftarrow> key_char (editor_of k) c;
        if length (line (editor_of k)) < 200 then Some ((editor_of k)\<lparr>line := line (editor_of k) @ [ch]\<rparr>) else None}"
    using True by (simp add: edit_def)
  define k1 where "k1 = (if c = 0x1C then k\<lparr>input_done := 0\<rparr> else k)"
  have k1: "kb_ok k1" "editor_of k1 = editor_of k" "input_done k1 = (if c = 0x1C then 0 else input_done k)"
    using assms(1) by (simp_all add: k1_def kb_ok_def editor_of_def)
  show ?thesis
  proof (cases "key_char (editor_of k) c")
    case None
    with e plain_handler [OF True assms(2) k1_def] show ?thesis by simp
  next
    case (Some ch)
    have "unat c < 128" using \<open>c \<le> 127\<close> by (simp add: word_le_nat_alt)
    then have "ch \<noteq> 31" using Some no_exit_key [of "unat c"] by (auto simp: key_char_def split: if_splits)
    then have stays: "snd (kb_echo ch k') = False" for k' by (rule kb_echo_stays)
    have h: "kb_handler status c k = map_option (kb_echo ch) (store_key ch k1)"
      using plain_handler [OF True assms(2) k1_def] Some by (simp add: k1_def)
    show ?thesis
    proof (cases "store_key ch k1")
      case None
      then show ?thesis using h e Some store_key_eq [OF k1(1), of ch] k1(2) by simp
    next
      case (Some k2)
      then have k2: "length (line (editor_of k)) < 200" "kb_ok k2" "input_done k2 = input_done k1"
          "editor_of k2 = (editor_of k)\<lparr>line := line (editor_of k) @ [ch]\<rparr>"
        using store_key_eq [OF k1(1), of ch] k1(2) by simp_all
      have "kb_handler status c k = Some (fst (kb_echo ch k2), False)"
        using h Some stays [of k2] by (simp add: prod_eq_iff)
      with k2 e \<open>key_char (editor_of k) c = Some ch\<close> k1(3) show ?thesis by (simp add: editor_of_echo)
    qed
  qed
next
  case False
  define k1 where "k1 = (if c = 0x1C then k\<lparr>input_done := 0\<rparr> else k)"
  show ?thesis
  proof (cases "c \<in> {0x48, 0x4B, 0x50, 0x4D}")
    case True
    then have "kb_handler status c k = Some (arrow c k)" using assms(2) by (auto simp: kb_handler_def)
    moreover have "snd (arrow c k) = False" using True by (auto simp: arrow_def case_prod_beta kb_echo_stays)
    moreover have "fst (arrow c k) = set_shift 0 (set_control 0 (fst (kb_echo c (set_shift 1 (set_control 1 k)))))"
      by (simp add: arrow_def case_prod_beta)
    moreover have "edit c (editor_of k) = Some ((editor_of k)\<lparr>shifted := 0, controlled := 0\<rparr>)"
      using True by (auto simp: edit_def)
    moreover have "c \<noteq> 0x1C" using True by auto
    ultimately show ?thesis using assms(1)
      by (simp add: prod_eq_iff kb_ok_def editor_of_def)
  next
    case not_arrow: False
    show ?thesis
    proof (cases "c = 0x0E \<or> c = 0x53")
      case True
      then show ?thesis
      proof
        assume c: "c = 0x0E"
        have "kb_handler status c k = (let k2 = fst (kb_echo 0x68 (let k = (set_control 1 k)\<lparr>count := count k - 1\<rparr>
            in if count k < 0 then k\<lparr>count := 0\<rparr> else k)) in Some (set_control 0 k2, False))"
          using assms(2) c by (simp add: kb_handler_def Let_def case_prod_beta kb_echo_stays)
        moreover have "edit c (editor_of k) = Some ((editor_of k)\<lparr>line := butlast (line (editor_of k)), controlled := 0\<rparr>)"
          using c by (simp add: edit_def)
        moreover have "butlast (take (nat (count k)) (pressed k)) = take (nat (count k - 1)) (pressed k)"
          using assms(1) butlast_take [of "nat (count k)" "pressed k"] by (simp add: kb_ok_def nat_le_iff nat_minus_as_int)
        ultimately show ?thesis using assms(1) c
          by (simp add: Let_def kb_ok_def editor_of_def)
      next
        assume c: "c = 0x53"
        then show ?thesis using assms
          by (simp add: kb_handler_def Let_def case_prod_beta kb_echo_stays edit_def kb_ok_def editor_of_def)
      qed
    next
      case False
      with \<open>\<not> plain_key c\<close> not_arrow show ?thesis
        using assms unfolding plain_key_def
        by (auto simp: kb_handler_def Let_def edit_def kb_ok_def editor_of_def plain_key_def)
    qed
  qed
qed

text \<open>C29: The keyboard handler implements a line editor: every key press or release with the buffer in order either does
  to the line and the modifiers what the editor does, keeps the buffer in order, does not end the
  process, and reports the end of the line exactly at Enter; or the line of 200 bytes is full or
  the key is missing in the upper table, and the handler writes or reads outside an array.\<close>

theorem kb_handler_implements_editor:
  assumes "kb_ok k" "status AND 1 \<noteq> 0"
  shows "case edit scancode (editor_of k) of None \<Rightarrow> kb_handler status scancode k = None
    | Some e \<Rightarrow> \<exists>k'. kb_handler status scancode k = Some (k', False) \<and> kb_ok k' \<and> editor_of k' = e \<and>
        input_done k' = (if scancode = 0x1C then 0 else input_done k)"
  using assms by (rule kb_handler_edit)

definition demo_keyboard :: keyboard where
  "demo_keyboard = \<lparr>con = demo_console, count = 0, input_done = 0, pressed = replicate 200 0\<rparr>"

theorem kb_handler_implements_editor_witness:
  "\<exists>k'. kb_handler 1 0x1E demo_keyboard = Some (k', False) \<and> kb_ok k' \<and> line (editor_of k') = [97]"
proof -
  have "keyboard_map ! 30 = 97" by code_simp
  then have e: "edit 0x1E (editor_of demo_keyboard) = Some \<lparr>shifted = 0, controlled = 0, line = [97]\<rparr>"
    by (simp add: edit_def plain_key_def key_char_def editor_of_def demo_keyboard_def demo_console_def)
  have "case edit 0x1E (editor_of demo_keyboard) of None \<Rightarrow> kb_handler 1 0x1E demo_keyboard = None
    | Some e \<Rightarrow> \<exists>k'. kb_handler 1 0x1E demo_keyboard = Some (k', False) \<and> kb_ok k' \<and> editor_of k' = e \<and>
        input_done k' = (if 0x1E = (0x1C :: u8) then 0 else input_done demo_keyboard)"
    by (rule kb_handler_implements_editor) (simp_all add: kb_ok_def demo_keyboard_def)
  with e show ?thesis by auto
qed

section \<open>Reading a line\<close>

text \<open>The editor over the keys of a line, up to Enter and with it.\<close>

fun edits :: "u8 list \<Rightarrow> editor \<Rightarrow> editor option" where
  "edits [] e = Some e"
| "edits (c # cs) e = do { e \<leftarrow> edit c e; edits cs e }"

lemma wait_input_edits:
  assumes "kb_ok k" "input_done k = 1" "0x1C \<notin> set cs" "edits cs (editor_of k) = Some e"
  shows "\<exists>k'. wait_input (map (Pair 1) cs @ es) k = wait_input es k' \<and> kb_ok k' \<and> input_done k' = 1 \<and> editor_of k' = e"
  using assms
proof (induction cs arbitrary: k)
  case (Cons c cs)
  then obtain e1 where e1: "edit c (editor_of k) = Some e1" "edits cs e1 = Some e" by (auto split: Option.bind_splits)
  obtain k1 where k1: "kb_handler 1 c k = Some (k1, False)" "kb_ok k1" "editor_of k1 = e1" "input_done k1 = 1"
    using kb_handler_edit [of k 1 c] Cons.prems(1-3) e1(1) by auto
  from Cons.IH [OF k1(2,4)] Cons.prems(3) e1(2) k1(3)
  have "\<exists>k'. wait_input (map (Pair 1) cs @ es) k1 = wait_input es k' \<and> kb_ok k' \<and> input_done k' = 1 \<and> editor_of k' = e"
    by simp
  then show ?case using k1(1) Cons.prems(2) by simp
qed auto

lemma clear_buffer_total: "0 \<in> set cs \<Longrightarrow> \<exists>cs'. clear_buffer cs = Some cs' \<and> length cs' = length cs"
  by (induction cs) auto

lemma takeWhile_nul: "takeWhile (\<lambda>c. c \<noteq> 0) (xs @ 0 # ys) = takeWhile (\<lambda>c. c \<noteq> (0 :: u8)) xs"
  by (induction xs) simp_all

lemma scanf_line:
  assumes "kb_ok k" "0x1C \<notin> set cs" "edits cs (editor_of k) = Some e" "length (line e) < 200"
  shows "\<exists>k'. scanf (map (Pair 1) (cs @ [0x1C]) @ es) buf m k =
      Some (es, write_bytes m buf (takeWhile (\<lambda>c. c \<noteq> 0) (line e) @ [0, 0]), k') \<and> kb_ok k' \<and> count k' = 0"
proof -
  have "kb_ok (k\<lparr>input_done := 1\<rparr>)" "editor_of (k\<lparr>input_done := 1\<rparr>) = editor_of k"
    using assms(1) by (simp_all add: kb_ok_def editor_of_def)
  from wait_input_edits [of "k\<lparr>input_done := 1\<rparr>" cs e "(1, 0x1C) # es"] this assms(2,3)
  obtain k1 where k1: "wait_input (map (Pair 1) (cs @ [0x1C]) @ es) (k\<lparr>input_done := 1\<rparr>) = wait_input ((1, 0x1C) # es) k1"
      "kb_ok k1" "input_done k1 = 1" "editor_of k1 = e"
    by auto
  have enter: "edit 0x1C e = do {ch \<leftarrow> key_char e 0x1C; Some (e\<lparr>line := line e @ [ch]\<rparr>)}"
    using assms(4) by (simp add: edit_def plain_key_def)
  obtain ch where ch: "key_char e 0x1C = Some ch"
    by (cases "key_char e 0x1C") (auto simp: key_char_def keyboard_upper_map_def split: if_splits)
  obtain k2 where k2: "kb_handler 1 0x1C k1 = Some (k2, False)" "kb_ok k2" "editor_of k2 = e\<lparr>line := line e @ [ch]\<rparr>"
      "input_done k2 = 0"
    using kb_handler_edit [OF k1(2), of 1 "0x1C"] enter ch k1(4) by auto
  then have wait: "wait_input ((1, 0x1C) # es) k1 = Some (es, k2)" using k1(3) by (cases es) simp_all
  define n where "n = length (line e)"
  have "length (line (editor_of k2)) = nat (count k2)" by (rule length_line [OF k2(2)])
  then have n: "nat (count k2) = Suc n" "Suc n \<le> 200" using k2(3) assms(4) by (simp_all add: n_def)
  then have c: "count k2 = int (Suc n)" by simp
  have "line (editor_of k2) = line e @ [ch]" unfolding k2(3) by simp
  then have "take (Suc n) (pressed k2) = line e @ [ch]" using n(1) by (simp add: editor_of_def)
  then have "take n (take (Suc n) (pressed k2)) = take n (line e @ [ch])" by simp
  then have pre: "take n (pressed k2) = line e" by (simp add: n_def min_def)
  have len: "length (pressed k2) = 200" using k2(2) by (simp add: kb_ok_def)
  define p where "p = (pressed k2)[n := 0]"
  have "p = line e @ 0 # drop (Suc n) (pressed k2)"
    unfolding p_def using n(2) len pre by (simp add: upd_conv_take_nth_drop)
  then have word: "takeWhile (\<lambda>c. c \<noteq> 0) p = takeWhile (\<lambda>c. c \<noteq> 0) (line e)" and "0 \<in> set p"
    by (simp_all add: takeWhile_nul)
  then obtain p' where p': "clear_buffer p = Some p'" "length p' = length p" using clear_buffer_total by blast
  have "scanf (map (Pair 1) (cs @ [0x1C]) @ es) buf m k = Some (es,
      write_bytes m buf (takeWhile (\<lambda>c. c \<noteq> 0) (line e) @ [0, 0]), k2\<lparr>pressed := p', count := 0\<rparr>)"
    using k1(1) wait c n(2) p'(1) word unfolding scanf_def scanf_text_def by (simp add: Let_def flip: p_def)
  then show ?thesis using len p'(2) by (simp add: kb_ok_def p_def)
qed

text \<open>C30: \<open>scanf\<close> returns at Enter with the line the user edited: the buffer of the caller gets its characters (up to a
  key without one), a NUL and one more; the next line starts empty.\<close>

theorem scanf_reads_line:
  assumes "kb_ok k" "0x1C \<notin> set keys" "edits keys (editor_of k) = Some e" "length (line e) < 200"
  shows "\<exists>k'. scanf (map (Pair 1) (keys @ [0x1C]) @ es) buf m k =
      Some (es, write_bytes m buf (takeWhile (\<lambda>c. c \<noteq> 0) (line e) @ [0, 0]), k') \<and>
    line (editor_of k') = [] \<and> kb_ok k'"
proof -
  obtain k' where "scanf (map (Pair 1) (keys @ [0x1C]) @ es) buf m k =
      Some (es, write_bytes m buf (takeWhile (\<lambda>c. c \<noteq> 0) (line e) @ [0, 0]), k')" "kb_ok k'" "count k' = 0"
    using scanf_line [OF assms] by blast
  then show ?thesis by (intro exI [of _ k']) (simp add: editor_of_def)
qed

theorem scanf_reads_line_witness:
  "\<exists>k'. scanf [(1, 0x26), (1, 0x1F), (1, 0x0E), (1, 0x1E), (1, 0x1C)] 0x500000 (\<lambda>_. 1) demo_keyboard =
     Some ([], write_bytes (\<lambda>_. 1) 0x500000 [108, 97, 0, 0], k')"
proof -
  have "keyboard_map ! 0x26 = 108" "keyboard_map ! 0x1F = 115" "keyboard_map ! 0x1E = 97" by code_simp+
  then have e: "edits [0x26, 0x1F, 0x0E, 0x1E] (editor_of demo_keyboard) = Some \<lparr>shifted = 0, controlled = 0, line = [108, 97]\<rparr>"
    by (simp add: edit_def plain_key_def key_char_def editor_of_def demo_keyboard_def demo_console_def)
  have "\<exists>k'. scanf (map (Pair 1) ([0x26, 0x1F, 0x0E, 0x1E] @ [0x1C]) @ []) 0x500000 (\<lambda>_. 1) demo_keyboard =
      Some ([], write_bytes (\<lambda>_. 1) 0x500000 (takeWhile (\<lambda>c. c \<noteq> 0) (line \<lparr>shifted = 0, controlled = 0, line = [108, 97]\<rparr>) @ [0, 0]), k') \<and>
    line (editor_of k') = [] \<and> kb_ok k'"
    by (rule scanf_reads_line [OF _ _ e]) (simp_all add: kb_ok_def demo_keyboard_def)
  then show ?thesis by (simp del: write_bytes.simps) blast
qed

end
