(* ===== verification/LibcString.thy ===== *)
theory LibcString
  imports KString "HOL-Library.Monad_Syntax"
begin

text \<open>
  The string routines of the user library, \<^verbatim>\<open>libc/string.c\<close>, on the byte memory of \<open>CString\<close>, and
  how they compare with the kernel's. A name both libraries use has the suffix \<open>_libc\<close> here. The
  array of pointers that \<open>split_string\<close> fills is the list of the pointers before its final \<^verbatim>\<open>NULL\<close>.
\<close>

section \<open>Definitions\<close>

definition strcpy_libc :: "u64 \<Rightarrow> u64 \<Rightarrow> mem \<Rightarrow> mem option" where
  "strcpy_libc dest src m = do {
     (m, tmp) \<leftarrow> copy_loop src dest m;
     Some (m(tmp := 0, tmp + 1 := 0))
   }"

function strncpy_loop :: "cint \<Rightarrow> u64 \<Rightarrow> u64 \<Rightarrow> cint \<Rightarrow> mem \<Rightarrow> mem \<times> u64" where
  "strncpy_loop n temp2 tmp i m =
     (if m temp2 \<noteq> 0 \<and> i < n then strncpy_loop n (temp2 + 1) (tmp + 1) (i + 1) (m(tmp := m temp2)) else (m, tmp))"
  by pat_completeness auto
termination
  by (relation "measure (\<lambda>(n, temp2, tmp, i, m). nat (n - i))") auto

declare strncpy_loop.simps [simp del]

definition strncpy :: "u64 \<Rightarrow> u64 \<Rightarrow> cint \<Rightarrow> mem \<Rightarrow> mem" where
  "strncpy dest src n m = (let (m, tmp) = strncpy_loop n src dest 0 m in m(tmp := 0, tmp + 1 := 0))"

definition strlen_libc :: "u64 \<Rightarrow> mem \<Rightarrow> (mem \<times> cint) option" where
  "strlen_libc str m = do {
     (len, temp) \<leftarrow> strlen_loop m str 0;
     Some (m(temp + 1 := 0, temp + 2 := 0), len)
   }"

definition strcat_libc :: "u64 \<Rightarrow> u64 \<Rightarrow> mem \<Rightarrow> mem option" where
  "strcat_libc dst src m = do {
     tmp \<leftarrow> skip_string m dst;
     (m, tmp) \<leftarrow> copy_loop src tmp m;
     Some (m(tmp := 0, tmp + 1 := 0))
   }"

text \<open>The three loops of \<open>split_string\<close>.\<close>

partial_function (option) skip_delim :: "u8 \<Rightarrow> u64 \<Rightarrow> mem \<Rightarrow> (mem \<times> u64) option" where
  "skip_delim delim p m = (if m p = delim then skip_delim delim (p + 1) (m(p := 0)) else Some (m, p))"

partial_function (option) skip_word :: "u8 \<Rightarrow> u64 \<Rightarrow> mem \<Rightarrow> u64 option" where
  "skip_word delim p m = (if m p \<noteq> delim \<and> m p \<noteq> 0 then skip_word delim (p + 1) m else Some p)"

partial_function (option) split_loop :: "u8 \<Rightarrow> u64 \<Rightarrow> u64 list \<Rightarrow> mem \<Rightarrow> (mem \<times> u64 list) option" where
  "split_loop delim p s m =
     (if m p \<noteq> 0 then do {
        (m, p) \<leftarrow> skip_delim delim p m;
        if m p \<noteq> 0 then do {
          q \<leftarrow> skip_word delim p m;
          split_loop delim q (s @ [p]) m
        }
        else split_loop delim p s m
      }
      else Some (m, s))"

definition split_string :: "u64 \<Rightarrow> u8 \<Rightarrow> mem \<Rightarrow> (mem \<times> u64 list) option" where
  "split_string str delim m = split_loop delim str [] m"

text \<open>The two loops of \<open>strstr\<close>.\<close>

function match_at :: "mem \<Rightarrow> u64 \<Rightarrow> u64 \<Rightarrow> cint \<Rightarrow> cint \<Rightarrow> cint \<Rightarrow> bool" where
  "match_at m str search i len2 j =
     (if j < i + len2 then
        (if m (str + of_int j) \<noteq> m (search + of_int (j - i)) then False else match_at m str search i len2 (j + 1))
      else True)"
  by pat_completeness auto
termination
  by (relation "measure (\<lambda>(m, str, search, i, len2, j). nat (i + len2 - j))") auto

declare match_at.simps [simp del]

function strstr_loop :: "mem \<Rightarrow> u64 \<Rightarrow> u64 \<Rightarrow> cint \<Rightarrow> cint \<Rightarrow> cint \<Rightarrow> u64" where
  "strstr_loop m str search len1 len2 i =
     (if i < len1 - len2 then
        (if match_at m str search i len2 i then 1 else strstr_loop m str search len1 len2 (i + 1))
      else 0)"
  by pat_completeness auto
termination
  by (relation "measure (\<lambda>(m, str, search, len1, len2, i). nat (len1 - len2 - i))") auto

declare strstr_loop.simps [simp del]

definition strstr :: "u64 \<Rightarrow> u64 \<Rightarrow> mem \<Rightarrow> (mem \<times> u64) option" where
  "strstr str search m = do {
     (m, len1) \<leftarrow> strlen_libc str m;
     (m, len2) \<leftarrow> strlen_libc search m;
     if len2 > len1 then Some (m, 0)
     else if len1 = 0 \<or> len2 = 0 then Some (m, 0)
     else Some (m, strstr_loop m str search len1 len2 0)
   }"

partial_function (option) strcmp_libc :: "mem \<Rightarrow> u64 \<Rightarrow> u64 \<Rightarrow> cint option" where
  "strcmp_libc m str1 str2 =
     (if m str1 \<noteq> 0 \<and> m str2 \<noteq> 0 then
        (if m str1 \<noteq> m str2 then Some 1 else strcmp_libc m (str1 + 1) (str2 + 1))
      else if m str1 \<noteq> 0 \<or> m str2 \<noteq> 0 then Some 1
      else Some 0)"

fun memset_libc :: "u64 \<Rightarrow> u8 \<Rightarrow> nat \<Rightarrow> mem \<Rightarrow> mem" where
  "memset_libc temp x 0 m = m"
| "memset_libc temp x (Suc n) m = memset_libc (temp + 1) x n (m(temp := x))"

definition substr_tillchar_libc :: "u64 \<Rightarrow> u8 \<Rightarrow> mem \<Rightarrow> (mem \<times> cint) option" where
  "substr_tillchar_libc s c m = do {
     (m, len) \<leftarrow> strlen_libc s m;
     let i = back_scan m s c 0 len;
     if i < 0 then Some (m(s := 0), -1)
     else do {
       let i = i + 2;
       Some (m(s + of_int i := 0, s + of_int (i + 1) := 0), 0)
     }
   }"

partial_function (option) atoi_loop_libc :: "mem \<Rightarrow> u64 \<Rightarrow> cint \<Rightarrow> cint option" where
  "atoi_loop_libc m str val =
     (if m str \<noteq> 0 then atoi_loop_libc m (str + 1) (i32 (i32 (val * 10) + (sint (m str) - 48))) else Some val)"

definition atoi_libc :: "mem \<Rightarrow> u64 \<Rightarrow> cint option" where
  "atoi_libc m str = atoi_loop_libc m str 0"

partial_function (option) delim_loop :: "u64 \<Rightarrow> mem \<Rightarrow> (mem \<times> u64) option" where
  "delim_loop temp m =
     (if m temp \<noteq> 0 then delim_loop (temp + 1) (if m temp = 32 then m(temp := 10) else m) else Some (m, temp))"

definition addDelimiter :: "u64 \<Rightarrow> mem \<Rightarrow> mem option" where
  "addDelimiter str m = do {
     (m, temp) \<leftarrow> delim_loop str m;
     Some (m(temp := 10, temp + 1 := 0))
   }"

partial_function (option) skip_spaces :: "u64 \<Rightarrow> mem \<Rightarrow> u64 option" where
  "skip_spaces ch m = (if m ch \<noteq> 0 \<and> m ch = 32 then skip_spaces (ch + 1) m else Some ch)"

definition removespace :: "u64 \<Rightarrow> mem \<Rightarrow> mem option" where
  "removespace str m = do {
     temp \<leftarrow> skip_word 32 str m;
     if m temp = 32 then do {
       ch \<leftarrow> skip_spaces (temp + 1) m;
       if m ch \<noteq> 0 then strcpy_libc (temp + 1) ch m else Some m
     }
     else Some m
   }"

section \<open>The copy and compare routines\<close>

lemma apart_below: "unat a + k \<le> unat b \<Longrightarrow> unat b + l \<le> 2 ^ 64 \<Longrightarrow> apart a k b l"
  unfolding apart_def
proof (intro allI impI)
  fix i j assume h: "unat a + k \<le> unat b" "unat b + l \<le> 2 ^ 64" "i < k" "j < l"
  then have "unat (a + of_nat i) = unat a + i" "unat (b + of_nat j) = unat b + j" by (intro unat_offset; simp)+
  with h show "a + of_nat i \<noteq> b + of_nat j" by (metis add_less_cancel_left le_add1 leD order.trans)
qed

lemma apart_above: "unat b + l \<le> unat a \<Longrightarrow> unat a + k \<le> 2 ^ 64 \<Longrightarrow> apart a k b l"
  using apart_below apart_sym by blast

lemma strcpy_libc_eq:
  "c_string m src s \<Longrightarrow> apart dst (length s) src (Suc (length s)) \<Longrightarrow>
     strcpy_libc dst src m = Some (write_bytes m dst (s @ [0, 0]))"
  by (simp add: strcpy_libc_def copy_loop_eq write_bytes_append)

lemma strcat_libc_eq:
  assumes "c_string m dst t" "c_string m src s" "apart (dst + of_nat (length t)) (length s) src (Suc (length s))"
  shows "strcat_libc dst src m = Some (write_bytes m (dst + of_nat (length t)) (s @ [0, 0]))"
  using skip_string_eq [OF assms(1)] copy_loop_eq [OF assms(2,3)] by (simp add: strcat_libc_def write_bytes_append)

lemma strlen_libc_eq:
  assumes "c_string m p s" "length s < 2 ^ 31"
  shows "strlen_libc p m = Some (m(p + of_nat (length s) + 1 := 0, p + of_nat (length s) + 2 := 0), int (length s))"
  using strlen_loop_eq [OF assms(1), of 0] assms(2) by (simp add: strlen_libc_def)

lemma strcmp_libc_eq:
  "c_string m p s \<Longrightarrow> c_string m q t \<Longrightarrow> strcmp_libc m p q = Some (if s = t then 0 else 1)"
proof (induction s arbitrary: p q t)
  case Nil
  then show ?case by (subst strcmp_libc.simps) (cases t, auto)
next
  case (Cons c cs)
  then show ?case by (subst strcmp_libc.simps) (cases t, auto)
qed

text \<open>The user library meets the contract that the kernel's library meets.\<close>

interpretation ustr: string_lib "\<lambda>src dst. strcpy_libc dst src" "\<lambda>dst n m. True" strcmp_libc
  by unfold_locales (simp_all add: strcpy_libc_eq strcmp_libc_eq)

lemma strncpy_loop_eq:
  assumes "c_string m src s" "apart dst (length s) src (Suc (length s))"
  shows "strncpy_loop n src dst (n - int k) m = (write_bytes m dst (take k s), dst + of_nat (min k (length s)))"
  using assms
proof (induction s arbitrary: src dst m k)
  case Nil
  then show ?case by (subst strncpy_loop.simps) simp
next
  case (Cons c cs)
  show ?case
  proof (cases k)
    case 0
    then show ?thesis by (subst strncpy_loop.simps) simp
  next
    case (Suc j)
    have h: "dst \<noteq> src + of_nat i" if "i < Suc (length (c # cs))" for i
      using apart_head [OF Cons.prems(2)] that by simp
    have "c_string (m(dst := c)) (src + 1) cs = c_string m (src + 1) cs"
    proof (rule c_string_upd)
      fix i assume "i < Suc (length cs)"
      then show "dst \<noteq> src + 1 + of_nat i" using h [of "Suc i"] by (simp add: add.assoc)
    qed
    with Cons.prems(1) have "c_string (m(dst := c)) (src + 1) cs" by simp
    moreover have "apart (dst + 1) (length cs) (src + 1) (Suc (length cs))"
      using Cons.prems(2) by (auto intro: apart_Suc_left apart_Suc_right)
    ultimately have "strncpy_loop n (src + 1) (dst + 1) (n - int j) (m(dst := c)) =
        (write_bytes (m(dst := c)) (dst + 1) (take j cs), dst + 1 + of_nat (min j (length cs)))"
      by (rule Cons.IH)
    moreover have "n - int k + 1 = n - int j" using Suc by simp
    ultimately show ?thesis
      using Suc Cons.prems(1) by (subst strncpy_loop.simps) (simp add: add.assoc)
  qed
qed

lemma strncpy_eq:
  assumes "c_string m src s" "apart dst (length s) src (Suc (length s))"
  shows "strncpy dst src (int k) m = write_bytes m dst (take k s @ [0, 0])"
  using strncpy_loop_eq [OF assms, of "int k" k] by (simp add: strncpy_def write_bytes_append min.commute)

lemma memset_libc_eq: "memset_libc p x n m = write_bytes m p (replicate n x)"
  by (induction n arbitrary: p m) simp_all

lemma atoi_loop_libc_eq: "atoi_loop_libc m p v = atoi_loop m p v" if "c_string m p s"
  using that
proof (induction s arbitrary: p v)
  case Nil
  then show ?case by (subst atoi_loop.simps, subst atoi_loop_libc.simps) simp
next
  case (Cons c cs)
  then show ?case by (subst atoi_loop.simps, subst atoi_loop_libc.simps) simp
qed

text \<open>C31: The two C libraries of the repository agree on strings: the kernel's and the user library's copy, append,
  compare and number routines have the same effect and result, although the kernel's ends every
  string by appending the literal \<^verbatim>\<open>"\0"\<close>; their lengths are the same, and the user library's
  \<^verbatim>\<open>strlen\<close> writes one NUL more behind the string.\<close>

theorem libraries_agree:
  assumes "c_string m src s" "c_string m dst t" "length s < 2 ^ 31"
    and "apart dst (length t + length s) src (Suc (length s))" "m nul = 0" "apart dst (length t + length s + 1) nul 1"
  shows "strcpy nul src dst m = strcpy_libc dst src m \<and> strcpy_libc dst src m \<noteq> None \<and>
    strcat dst src m = strcat_libc dst src m \<and> strcat_libc dst src m \<noteq> None \<and>
    strcmp m src dst = strcmp_libc m src dst \<and> strcmp_libc m src dst \<noteq> None \<and>
    atoi m src = atoi_libc m src \<and>
    (\<exists>m'. strlen nul src m = Some (m', int (length s)) \<and>
      strlen_libc src m = Some (m'(src + of_nat (length s) + 2 := 0), int (length s)))"
proof -
  have a: "apart dst (length s) src (Suc (length s))" using assms(4) by (rule apart_mono) simp_all
  have "nul_kept nul dst (length s) m" using assms(5,6) by (auto simp: nul_kept_def apart_def)
  from strcpy_eq [OF assms(1) a nul_kept_write [OF this]] strcpy_libc_eq [OF assms(1) a]
  have "strcpy nul src dst m = strcpy_libc dst src m \<and> strcpy_libc dst src m \<noteq> None" by simp
  moreover have "apart (dst + of_nat (length t)) (length s) src (Suc (length s))"
    using assms(4) unfolding apart_def
    by (metis (no_types, opaque_lifting) add.assoc nat_add_left_cancel_less of_nat_add)
  with strcat_eq [OF assms(2,1)] strcat_libc_eq [OF assms(2,1)]
  have "strcat dst src m = strcat_libc dst src m \<and> strcat_libc dst src m \<noteq> None" by simp
  moreover have "strcmp m src dst = strcmp_libc m src dst \<and> strcmp_libc m src dst \<noteq> None"
    using strcmp_eq strcmp_libc_eq assms(1,2) by simp
  moreover have "atoi m src = atoi_libc m src"
    using atoi_loop_libc_eq [OF assms(1)] by (simp add: atoi_def atoi_libc_def)
  ultimately show ?thesis
    using strlen_eq [OF assms(1,3,5)] strlen_libc_eq [OF assms(1,3)] by simp
qed

definition demo_strings :: mem where
  "demo_strings = write_bytes (\<lambda>_. 0) 100 [104, 105]"

theorem libraries_agree_witness:
  "strcpy 50 100 200 demo_strings = strcpy_libc 200 100 demo_strings"
proof -
  have "strcpy 50 100 200 demo_strings = strcpy_libc 200 100 demo_strings \<and> strcpy_libc 200 100 demo_strings \<noteq> None \<and>
    strcat 200 100 demo_strings = strcat_libc 200 100 demo_strings \<and> strcat_libc 200 100 demo_strings \<noteq> None \<and>
    strcmp demo_strings 100 200 = strcmp_libc demo_strings 100 200 \<and> strcmp_libc demo_strings 100 200 \<noteq> None \<and>
    atoi demo_strings 100 = atoi_libc demo_strings 100 \<and>
    (\<exists>m'. strlen 50 100 demo_strings = Some (m', int (length [104 :: u8, 105])) \<and>
      strlen_libc 100 demo_strings = Some (m'(100 + of_nat (length [104 :: u8, 105]) + 2 := 0), int (length [104 :: u8, 105])))"
    by (rule libraries_agree [where t = "[]"])
      (simp_all add: demo_strings_def apart_above)
  then show ?thesis by simp
qed

section \<open>Splitting\<close>

text \<open>The words of a string: the longest pieces without the delimiter.\<close>

function words_of :: "u8 \<Rightarrow> u8 list \<Rightarrow> u8 list list" where
  "words_of d s =
     (let r = dropWhile (\<lambda>c. c = d) s
      in if r = [] then [] else takeWhile (\<lambda>c. c \<noteq> d) r # words_of d (dropWhile (\<lambda>c. c \<noteq> d) r))"
  by pat_completeness auto
termination
proof (relation "measure (\<lambda>(d, s). length s)", goal_cases)
  case (2 d s x)
  then obtain c cs where r: "dropWhile (\<lambda>c. c = d) s = c # cs" by (cases "dropWhile (\<lambda>c. c = d) s") auto
  then have "c \<noteq> d" using hd_dropWhile [of "\<lambda>c. c = d" s] by auto
  then have "length (dropWhile (\<lambda>c. c \<noteq> d) (c # cs)) \<le> length cs" by (simp add: length_dropWhile_le)
  moreover have "length (c # cs) \<le> length s" unfolding r [symmetric] by (rule length_dropWhile_le)
  ultimately show ?case using r 2 by simp
qed simp

declare words_of.simps [simp del]

lemma c_string_tail:
  assumes "c_string m p (s @ t)"
  shows "c_string m (p + of_nat (length s)) t"
  using assms
proof (induction s arbitrary: p)
  case (Cons c cs)
  then have "c_string m (p + 1 + of_nat (length cs)) t" by simp
  then show ?case by (simp add: add.assoc)
qed simp

lemma skip_word_eq: "c_string m p s \<Longrightarrow> skip_word d p m = Some (p + of_nat (length (takeWhile (\<lambda>c. c \<noteq> d) s)))"
proof (induction s arbitrary: p)
  case Nil
  then show ?case by (subst skip_word.simps) simp
next
  case (Cons c cs)
  then show ?case by (subst skip_word.simps) (simp add: add.assoc)
qed

lemma skip_delim_eq:
  assumes "c_string m p s" "d \<noteq> 0" "length s < 2 ^ 64"
  shows "skip_delim d p m = (let k = length (takeWhile (\<lambda>c. c = d) s)
     in Some (write_bytes m p (replicate k 0), p + of_nat k))"
  using assms
proof (induction s arbitrary: m p)
  case Nil
  then show ?case by (subst skip_delim.simps) (simp add: Let_def)
next
  case (Cons c cs)
  have "p \<noteq> p + 1 + of_nat j" if "j < Suc (length cs)" for j
    using offset_neq [of "Suc j" p] that Cons.prems(3) by (simp add: add.assoc)
  then have "c_string (m(p := 0)) (p + 1) cs" using Cons.prems(1) by (subst c_string_upd) simp_all
  moreover have "length cs < 2 ^ 64" using Cons.prems(3) by simp
  ultimately have "skip_delim d (p + 1) (m(p := 0)) = (let k = length (takeWhile (\<lambda>c. c = d) cs)
     in Some (write_bytes (m(p := 0)) (p + 1) (replicate k 0), p + 1 + of_nat k))"
    using Cons.IH Cons.prems(2) by blast
  with Cons.prems show ?case by (subst skip_delim.simps) (simp add: Let_def add.assoc)
qed
lemma hd_drop_word: "dropWhile (\<lambda>c. c \<noteq> d) s = [] \<or> hd (dropWhile (\<lambda>c. c \<noteq> d) s) = d"
  using hd_dropWhile [of "\<lambda>c. c \<noteq> d" s] by auto

text \<open>
  The loop from a string: it finds the words, ends each with a NUL (the one behind a word is
  written by the next turn) and writes nothing but the string's own bytes.
\<close>

lemma split_loop_eq:
  assumes "c_string m p s" "d \<noteq> 0" "length s < 2 ^ 64"
  shows "\<exists>m' ps. split_loop d p acc m = Some (m', acc @ ps) \<and> list_all2 (c_string m') ps (words_of d s) \<and>
    (\<forall>x. (\<forall>i<length s. x \<noteq> p + of_nat i) \<longrightarrow> m' x = m x) \<and> (s = [] \<or> hd s = d \<longrightarrow> m' p = 0)"
  using assms
proof (induction "length s" arbitrary: s p m acc rule: less_induct)
  case less
  show ?case
  proof (cases "s = []")
    case True
    with less.prems show ?thesis by (subst split_loop.simps) (simp add: words_of.simps)
  next
    case False
    define k r where "k = length (takeWhile (\<lambda>c. c = d) s)" and "r = dropWhile (\<lambda>c. c = d) s"
    define m1 where "m1 = write_bytes m p (replicate k 0)"
    have s: "s = takeWhile (\<lambda>c. c = d) s @ r" by (simp add: r_def)
    have len: "length s = k + length r" using s by (metis k_def length_append)
    have nz: "m p \<noteq> 0" using False less.prems(1) by (cases s) auto
    have skip: "skip_delim d p m = Some (m1, p + of_nat k)"
      using skip_delim_eq [OF less.prems] by (simp add: k_def m1_def Let_def)
    have out: "m1 x = m x" if "\<forall>i<k. x \<noteq> p + of_nat i" for x
      unfolding m1_def by (rule write_bytes_other) (use that in auto)
    have at_p: "m1 p = 0" if "hd s = d"
    proof -
      have "0 < k" using that False by (cases s) (auto simp: k_def)
      then show ?thesis
        using write_bytes_at [of 0 "replicate k 0" m p] less.prems(3) len by (simp add: m1_def)
    qed
    have "c_string m (p + of_nat k) r" using c_string_tail less.prems(1) s k_def by metis
    moreover have "m1 (p + of_nat k + of_nat i) = m (p + of_nat k + of_nat i)" if "i \<le> length r" for i
    proof (rule out, intro allI impI)
      fix j assume "j < k"
      then have "(p + of_nat (k + i) = p + of_nat j) = (k + i = j)"
        using that len less.prems(3) by (intro offset_inj) simp_all
      with \<open>j < k\<close> show "p + of_nat k + of_nat i \<noteq> p + of_nat j" by (simp add: add.assoc)
    qed
    ultimately have r: "c_string m1 (p + of_nat k) r" using c_string_cong [of r m1 "p + of_nat k" m] by simp
    show ?thesis
    proof (cases "r = []")
      case True
      then have "dropWhile (\<lambda>c. c = d) s = []" by (simp add: r_def)
      then have hd: "hd s = d" using False by (cases s) (auto split: if_splits)
      have "m1 (p + of_nat k) = 0" using r True by simp
      then have "split_loop d (p + of_nat k) acc m1 = Some (m1, acc)" by (subst split_loop.simps) simp
      then have "split_loop d p acc m = Some (m1, acc @ [])"
        using nz skip \<open>m1 (p + of_nat k) = 0\<close> by (subst split_loop.simps) simp
      moreover have "words_of d s = []" using True by (simp add: words_of.simps r_def)
      ultimately show ?thesis using at_p hd out len True by auto
    next
      case r_ne: False
      define w t where "w = takeWhile (\<lambda>c. c \<noteq> d) r" and "t = dropWhile (\<lambda>c. c \<noteq> d) r"
      define q where "q = p + of_nat k + of_nat (length w)"
      have rwt: "r = w @ t" by (simp add: w_def t_def)
      have hdr: "hd r \<noteq> d" using r_ne hd_dropWhile [of "\<lambda>c. c = d" s] by (auto simp: r_def)
      then have w: "w \<noteq> []" using r_ne by (cases r) (auto simp: w_def)
      have lens: "length s = k + length w + length t" "length t < length s"
        using len rwt w by auto
      have "m1 (p + of_nat k) \<noteq> 0" using r r_ne by (cases r) auto
      then have "split_loop d p acc m = split_loop d q (acc @ [p + of_nat k]) m1"
        using nz skip skip_word_eq [OF r, of d] by (subst split_loop.simps) (simp add: q_def w_def)
      moreover have t: "c_string m1 q t" using c_string_tail r rwt unfolding q_def by metis
      obtain m' ps where m': "split_loop d q (acc @ [p + of_nat k]) m1 = Some (m', (acc @ [p + of_nat k]) @ ps)"
          "list_all2 (c_string m') ps (words_of d t)"
          "\<forall>x. (\<forall>i<length t. x \<noteq> q + of_nat i) \<longrightarrow> m' x = m1 x" "t = [] \<or> hd t = d \<longrightarrow> m' q = 0"
        using less.hyps [OF lens(2) t less.prems(2) order.strict_trans [OF lens(2) less.prems(3)], of "acc @ [p + of_nat k]"]
        by blast
      have before: "m' (p + of_nat j) = m1 (p + of_nat j)" if "j < k + length w" for j
      proof (rule m'(3) [rule_format])
        fix i assume "i < length t"
        then have "(p + of_nat j = p + of_nat (k + length w + i)) = (j = k + length w + i)"
          using that lens(1) less.prems(3) by (intro offset_inj) simp_all
        with that show "p + of_nat j \<noteq> q + of_nat i" by (simp add: q_def add.assoc)
      qed
      have "c_string m' (p + of_nat k) w"
        unfolding c_string_iff
      proof (intro conjI allI impI)
        fix i assume i: "i < length w"
        then have "m1 (p + of_nat k + of_nat i) = w ! i"
          using r unfolding c_string_iff rwt by (simp add: nth_append)
        with before [of "k + i"] i show "m' (p + of_nat k + of_nat i) = w ! i" by (simp add: add.assoc)
      next
        show "0 \<notin> set w" using r unfolding c_string_iff rwt by simp
        have "t = [] \<or> hd t = d" unfolding t_def by (rule hd_drop_word)
        then show "m' (p + of_nat k + of_nat (length w)) = 0" using m'(4) unfolding q_def by blast
      qed
      moreover have "words_of d s = w # words_of d t"
        using r_ne by (subst words_of.simps) (simp add: w_def t_def flip: r_def)
      moreover have "m' x = m x" if "\<forall>i<length s. x \<noteq> p + of_nat i" for x
      proof -
        have "x \<noteq> q + of_nat i" if "i < length t" for i
          using \<open>\<forall>i<length s. x \<noteq> p + of_nat i\<close> [rule_format, of "k + length w + i"] that lens(1)
          by (simp add: q_def add.assoc)
        then have "m' x = m1 x" using m'(3) by blast
        also have "\<dots> = m x" using that lens(1) by (intro out) simp
        finally show ?thesis .
      qed
      moreover have "m' p = 0" if "s = [] \<or> hd s = d"
        using before [of 0] at_p that False w by simp
      ultimately show ?thesis using m'(1,2)
        by (intro exI [of _ m'] exI [of _ "(p + of_nat k) # ps"] conjI) simp_all
    qed
  qed
qed

text \<open>C32: \<open>split_string\<close> returns, and its pointers are the words of the string in order, each ended by a NUL; no
  byte outside the string is written.\<close>

theorem split_string_words:
  assumes "c_string m str s" "delim \<noteq> 0" "length s < 2 ^ 31"
  shows "\<exists>m' ps. split_string str delim m = Some (m', ps) \<and> list_all2 (c_string m') ps (words_of delim s) \<and>
    (\<forall>x. (\<forall>i<length s. x \<noteq> str + of_nat i) \<longrightarrow> m' x = m x)"
proof -
  have "length s < 2 ^ 64" using assms(3) by simp
  from split_loop_eq [OF assms(1,2) this, of "[]"] show ?thesis unfolding split_string_def by fastforce
qed

definition demo_line :: mem where
  "demo_line = write_bytes (\<lambda>_. 0) 100 [32, 108, 115, 32, 32, 97]"

lemma demo_line_string: "c_string demo_line 100 [32, 108, 115, 32, 32, 97]"
  by (simp add: demo_line_def)

theorem split_string_words_witness:
  "\<exists>m' a b. split_string 100 32 demo_line = Some (m', [a, b]) \<and> c_string m' a [108, 115] \<and> c_string m' b [97]"
proof -
  have w: "words_of 32 [32, 108, 115, 32, 32, 97 :: u8] = [[108, 115], [97]]"
    by (simp add: words_of.simps)
  have "\<exists>m' ps. split_string 100 32 demo_line = Some (m', ps) \<and>
      list_all2 (c_string m') ps (words_of 32 [32, 108, 115, 32, 32, 97]) \<and>
      (\<forall>x. (\<forall>i<length [32, 108, 115, 32, 32, 97 :: u8]. x \<noteq> 100 + of_nat i) \<longrightarrow> m' x = demo_line x)"
    by (rule split_string_words [OF demo_line_string]) simp_all
  then obtain m' ps where "split_string 100 32 demo_line = Some (m', ps)" "list_all2 (c_string m') ps [[108, 115], [97]]"
    unfolding w by blast
  then show ?thesis by (auto simp: list_all2_Cons2)
qed

section \<open>Searching\<close>

lemma match_at_eq:
  assumes "c_string m p s" "c_string m q t" "i + length t \<le> length s" "j \<le> length t"
  shows "match_at m p q (int i) (int (length t)) (int (i + j)) \<longleftrightarrow> drop j t = take (length t - j) (drop (i + j) s)"
  using assms(4)
proof (induction "length t - j" arbitrary: j)
  case 0
  then show ?case by (subst match_at.simps) simp
next
  case (Suc n)
  then have j: "j < length t" by simp
  have "m (p + of_int (int (i + j))) = s ! (i + j)" "m (q + of_int (int (i + j) - int i)) = t ! j"
    using j assms(1-3) by (simp_all add: c_string_iff del: of_nat_add) (simp add: c_string_iff)
  moreover have "int (i + j) < int i + int (length t)" and n: "int (i + Suc j) = int (i + j) + 1" using j by simp_all
  ultimately have "match_at m p q (int i) (int (length t)) (int (i + j)) \<longleftrightarrow>
      s ! (i + j) = t ! j \<and> match_at m p q (int i) (int (length t)) (int (i + Suc j))"
    unfolding n by (subst match_at.simps) (simp del: of_nat_add of_int_diff of_int_of_nat_eq)
  also have "match_at m p q (int i) (int (length t)) (int (i + Suc j)) \<longleftrightarrow>
      drop (Suc j) t = take (length t - Suc j) (drop (i + Suc j) s)"
    using Suc by (intro Suc.hyps) simp_all
  also have "s ! (i + j) = t ! j \<and> drop (Suc j) t = take (length t - Suc j) (drop (i + Suc j) s) \<longleftrightarrow>
      drop j t = take (length t - j) (drop (i + j) s)"
  proof -
    have "drop j t = t ! j # drop (Suc j) t" using j by (rule Cons_nth_drop_Suc [symmetric])
    moreover have "take (length t - j) (drop (i + j) s) = s ! (i + j) # take (length t - Suc j) (drop (i + Suc j) s)"
    proof -
      have "drop (i + j) s = s ! (i + j) # drop (Suc (i + j)) s" using j assms(3) by (intro Cons_nth_drop_Suc [symmetric]) simp
      moreover have "length t - j = Suc (length t - Suc j)" using j by simp
      ultimately show ?thesis by simp
    qed
    ultimately show ?thesis by auto
  qed
  finally show ?case .
qed

lemma strstr_loop_eq:
  assumes "c_string m p s" "c_string m q t" "i \<le> length s"
  shows "strstr_loop m p q (int (length s)) (int (length t)) (int i) =
    (if \<exists>k\<ge>i. k + length t < length s \<and> take (length t) (drop k s) = t then 1 else 0)"
  using assms(3)
proof (induction "length s - i" arbitrary: i)
  case 0
  then show ?case by (subst strstr_loop.simps) auto
next
  case (Suc n)
  then have i: "i < length s" by simp
  show ?case
  proof (cases "i + length t < length s")
    case True
    have m: "match_at m p q (int i) (int (length t)) (int i) \<longleftrightarrow> take (length t) (drop i s) = t"
      using match_at_eq [OF assms(1,2), of i 0] True by auto
    have "strstr_loop m p q (int (length s)) (int (length t)) (int (Suc i)) =
        (if \<exists>k\<ge>Suc i. k + length t < length s \<and> take (length t) (drop k s) = t then 1 else 0)"
      using Suc i by (intro Suc.hyps) simp_all
    then show ?thesis
      using m True by (subst strstr_loop.simps) (auto simp: Suc_le_eq le_less add.commute)
  next
    case False
    then show ?thesis by (subst strstr_loop.simps) auto
  qed
qed

text \<open>\<open>strstr\<close> returns, and finds exactly the non-empty strings that occur in the first one before its end: an
  occurrence that ends where the string ends is not found.\<close>

theorem strstr_misses_end:
  assumes "c_string m p s" "c_string m q t" "length s < 2 ^ 31" "length t < 2 ^ 31"
    and "apart p (length s + 3) q (length t + 3)"
  shows "\<exists>m'. strstr p q m = Some (m', if \<exists>u v. s = u @ t @ v \<and> t \<noteq> [] \<and> v \<noteq> [] then 1 else 0)"
proof -
  define m1 where "m1 = m(p + of_nat (length s) + 1 := 0, p + of_nat (length s) + 2 := 0)"
  define m2 where "m2 = m1(q + of_nat (length t) + 1 := 0, q + of_nat (length t) + 2 := 0)"
  have ap: "p + of_nat i \<noteq> q + of_nat j" if "i < length s + 3" "j < length t + 3" for i j
    using assms(5) that by (simp add: apart_def)
  have off: "a + of_nat n + 1 = a + of_nat (n + 1)" "a + of_nat n + 2 = a + of_nat (n + 2)" for a :: u64 and n
    by (simp_all add: add.assoc)
  have keep: "c_string (f(x := 0)) a r" if "c_string f a r" "\<And>j. j < Suc (length r) \<Longrightarrow> x \<noteq> a + of_nat j" for f a r x
    using that by (subst c_string_upd) simp_all
  have own: "a + of_nat n \<noteq> a + of_nat j" if "j < n" "n < 2 ^ 64" for a :: u64 and n j
    using offset_inj [of n j a] that by simp
  have t1: "c_string m1 q t"
    unfolding m1_def off by (intro keep assms(2)) (rule ap; simp)+
  have s1: "c_string m1 p s"
    unfolding m1_def off using assms(3) by (intro keep assms(1) own) simp_all
  have t2: "c_string m2 q t" unfolding m2_def off using assms(4) by (intro keep t1 own) simp_all
  have s2: "c_string m2 p s"
  proof -
    have "q + of_nat (length t + 1) \<noteq> p + of_nat j" "q + of_nat (length t + 2) \<noteq> p + of_nat j" if "j < Suc (length s)" for j
      using ap [of j "length t + 1"] ap [of j "length t + 2"] that by auto
    then show ?thesis unfolding m2_def off by (intro keep s1) simp_all
  qed
  have e: "(\<exists>k. k + length t < length s \<and> take (length t) (drop k s) = t) \<longleftrightarrow> (\<exists>u v. s = u @ t @ v \<and> v \<noteq> [])"
  proof
    assume "\<exists>k. k + length t < length s \<and> take (length t) (drop k s) = t"
    then obtain k where k: "k + length t < length s" "take (length t) (drop k s) = t" by blast
    then have "s = take k s @ t @ drop (k + length t) s"
      by (metis add.commute append_take_drop_id drop_drop)
    then show "\<exists>u v. s = u @ t @ v \<and> v \<noteq> []"
      using k(1) by (intro exI [of _ "take k s"] exI [of _ "drop (k + length t) s"]) simp
  next
    assume "\<exists>u v. s = u @ t @ v \<and> v \<noteq> []"
    then obtain u v where "s = u @ t @ v" "v \<noteq> []" by blast
    then show "\<exists>k. k + length t < length s \<and> take (length t) (drop k s) = t"
      by (intro exI [of _ "length u"]) simp
  qed
  have "strstr_loop m2 p q (int (length s)) (int (length t)) 0 =
      (if \<exists>u v. s = u @ t @ v \<and> v \<noteq> [] then 1 else 0)"
    using strstr_loop_eq [OF s2 t2, of 0] e by simp
  moreover have "strlen_libc p m = Some (m1, int (length s))" "strlen_libc q m1 = Some (m2, int (length t))"
    unfolding m1_def m2_def
    using strlen_libc_eq [OF assms(1,3)] strlen_libc_eq [OF t1 assms(4)] by (simp_all add: m1_def)
  ultimately show ?thesis unfolding strstr_def by auto
qed

theorem strstr_misses_end_witness:
  "\<exists>m'. strstr 100 200 (write_bytes (write_bytes (\<lambda>_. 0) 100 [97, 98]) 200 [98]) = Some (m', 0)"
proof -
  have "\<exists>m'. strstr 100 200 (write_bytes (write_bytes (\<lambda>_. 0) 100 [97, 98]) 200 [98]) =
      Some (m', if \<exists>u v. [97, 98 :: u8] = u @ [98] @ v \<and> [98 :: u8] \<noteq> [] \<and> v \<noteq> [] then 1 else 0)"
    by (rule strstr_misses_end) (simp_all add: apart_below)
  moreover have "\<nexists>u v. [97, 98 :: u8] = u @ [98] @ v \<and> [98 :: u8] \<noteq> [] \<and> v \<noteq> []"
    by (auto simp: Cons_eq_append_conv)
  ultimately show ?thesis by (simp only: if_False)
qed

end
