(* ===== verification/Interrupts.thy ===== *)
theory Interrupts
  imports Console
begin

text \<open>
  The tables the processor reads, and the hardware interrupts: \<^verbatim>\<open>sys/idt.c\<close>, \<^verbatim>\<open>sys/gdt.c\<close>, \<^verbatim>\<open>sys/pic.c\<close>
  and \<^verbatim>\<open>sys/timer.c\<close>. A write to a port is an entry of a trace; what a port holds when it is read, the
  addresses of the assembly stubs and the address of the task segment are arguments.
\<close>

unbundle bit_operations_syntax

section \<open>Definitions\<close>

subsection \<open>The interrupt descriptor table\<close>

record idt_entry =
  addr_low :: u16
  selector :: u16
  always0 :: u8
  flags :: u8
  addr_mid :: u16
  addr_high :: u32
  reserved :: u32

definition set_idt_gate :: "u8 \<Rightarrow> u64 \<Rightarrow> u16 \<Rightarrow> u8 \<Rightarrow> (u8 \<Rightarrow> idt_entry) \<Rightarrow> (u8 \<Rightarrow> idt_entry)" where
  "set_idt_gate num base_addr sel gate entries =
     entries(num := (entries num)\<lparr>addr_low := ucast (base_addr AND 0xFFFF),
       addr_mid := ucast (drop_bit 16 base_addr AND 0xFFFF), addr_high := ucast (drop_bit 32 base_addr AND 0xFFFFFFFF),
       selector := sel, always0 := 0, flags := gate\<rparr>)"

text \<open>The two fields of \<^verbatim>\<open>idtp\<close>; an entry is 16 bytes.\<close>

record idt_ptr =
  limit :: u16
  base_addr :: u64

definition init_idt :: "u64 \<Rightarrow> idt_ptr" where
  "init_idt entries_addr = \<lparr>limit = 16 * 256 - 1, base_addr = entries_addr\<rparr>"

subsection \<open>The interrupt controllers\<close>

text \<open>The writes to ports, in order.\<close>

type_synonym port_writes = "(u16 \<times> u8) list"

abbreviation (input) PIC1_COMMAND :: u16 where "PIC1_COMMAND \<equiv> 0x20"
abbreviation (input) PIC1_DATA :: u16 where "PIC1_DATA \<equiv> 0x21"
abbreviation (input) PIC2_COMMAND :: u16 where "PIC2_COMMAND \<equiv> 0xA0"
abbreviation (input) PIC2_DATA :: u16 where "PIC2_DATA \<equiv> 0xA1"
abbreviation (input) ICW1_INIT :: u8 where "ICW1_INIT \<equiv> 0x10"
abbreviation (input) ICW1_ICW4 :: u8 where "ICW1_ICW4 \<equiv> 0x01"
abbreviation (input) ICW4_8086 :: u8 where "ICW4_8086 \<equiv> 0x01"
abbreviation (input) PIC_EOI :: u8 where "PIC_EOI \<equiv> 0x20"

definition io_wait :: "u16 \<times> u8" where
  "io_wait = (0x80, 0)"

definition PIC_remap :: "(u16 \<Rightarrow> u8) \<Rightarrow> u8 \<Rightarrow> u8 \<Rightarrow> port_writes" where
  "PIC_remap inb offset1 offset2 =
     (let a1 = inb PIC1_DATA; a2 = inb PIC2_DATA
      in [(PIC1_COMMAND, ICW1_INIT + ICW1_ICW4), io_wait, (PIC2_COMMAND, ICW1_INIT + ICW1_ICW4), io_wait,
          (PIC1_DATA, offset1), io_wait, (PIC2_DATA, offset2), io_wait, (PIC1_DATA, 4), io_wait, (PIC2_DATA, 2), io_wait,
          (PIC1_DATA, ICW4_8086), io_wait, (PIC2_DATA, ICW4_8086), io_wait, (PIC1_DATA, a1), (PIC2_DATA, a2)])"

definition PIC_sendEOI :: "u8 \<Rightarrow> port_writes" where
  "PIC_sendEOI irq = (if 8 \<le> irq then [(PIC2_COMMAND, PIC_EOI)] else []) @ [(PIC1_COMMAND, PIC_EOI)]"

definition init_picirr :: "(u16 \<Rightarrow> u8) \<Rightarrow> u64 \<Rightarrow> u64 \<Rightarrow> u64 \<Rightarrow> u64 \<Rightarrow> (u8 \<Rightarrow> idt_entry) \<Rightarrow> port_writes \<times> (u8 \<Rightarrow> idt_entry)" where
  "init_picirr inb isr32 isr33 isr14 isr128 entries =
     (let w = PIC_remap inb 0x20 0x28;
          entries = set_idt_gate 32 isr32 0x08 0x8E entries;
          entries = set_idt_gate 33 isr33 0x08 0x8E entries;
          entries = set_idt_gate 14 isr14 0x08 0x8E entries;
          entries = set_idt_gate 128 isr128 0x08 0xEE entries
      in (w, entries))"

text \<open>The table of custom handlers; a handler is its address, 0 is none. An index outside the table is an error.\<close>

definition irq_set :: "cint \<Rightarrow> u64 \<Rightarrow> u64 list \<Rightarrow> u64 list option" where
  "irq_set req handler rs = (if 0 \<le> req \<and> req < int (length rs) then Some (rs[nat req := handler]) else None)"

definition irq_set_with_return :: "cint \<Rightarrow> u64 \<Rightarrow> u64 list \<Rightarrow> u64 list option" where
  "irq_set_with_return = irq_set"

definition irq_reset :: "cint \<Rightarrow> u64 list \<Rightarrow> u64 list option" where
  "irq_reset req = irq_set req 0"

definition irq_routines :: "u64 list" where
  "irq_routines = replicate 129 0"

subsection \<open>The segment table\<close>

abbreviation (input) GDT_CS :: u64 where "GDT_CS \<equiv> 0x00180000000000"
abbreviation (input) GDT_DS :: u64 where "GDT_DS \<equiv> 0x00100000000000"
abbreviation (input) GDT_DPL3 :: u64 where "GDT_DPL3 \<equiv> 0x00600000000000"
abbreviation (input) GDT_P :: u64 where "GDT_P \<equiv> 0x00800000000000"
abbreviation (input) GDT_L :: u64 where "GDT_L \<equiv> 0x20000000000000"
abbreviation (input) GDT_W :: u64 where "GDT_W \<equiv> 0x00020000000000"

definition gdt :: "u64 list" where
  "gdt = [0, GDT_CS OR GDT_P OR GDT_L, GDT_DS OR GDT_P OR GDT_W, 0, GDT_DS OR GDT_P OR GDT_W OR GDT_DPL3,
     GDT_CS OR GDT_P OR GDT_DPL3 OR GDT_L, 0, 0] @ replicate 24 0"

text \<open>A bit field of \<open>n\<close> bits from bit \<open>i\<close> of a word.\<close>

definition set_field :: "nat \<Rightarrow> nat \<Rightarrow> u64 \<Rightarrow> u64 \<Rightarrow> u64" where
  "set_field i n v w = (w AND NOT (push_bit i (mask n))) OR push_bit i (v AND mask n)"

text \<open>
  The descriptor of the task segment is the entries 6 and 7. \<^verbatim>\<open>sd_hibase\<close> has 8 of its 40 bits in the
  first word and 32 in the second; the segment is 104 bytes.
\<close>

definition init_gdt :: "u64 \<Rightarrow> u64 list \<Rightarrow> u64 list" where
  "init_gdt tss g =
     (let g = g[6 := set_field 0 16 (104 - 1) (g ! 6)];
          g = g[6 := set_field 16 24 tss (g ! 6)];
          g = g[6 := set_field 40 5 9 (g ! 6)];
          g = g[6 := set_field 45 2 0 (g ! 6)];
          g = g[6 := set_field 47 1 1 (g ! 6)];
          g = g[6 := set_field 48 4 0 (g ! 6)];
          g = g[6 := set_field 55 1 0 (g ! 6)];
          hibase = drop_bit 24 tss;
          g = g[6 := set_field 56 8 hibase (g ! 6)]
      in g[7 := set_field 0 32 (drop_bit 8 hibase) (g ! 7)])"

subsection \<open>The timer\<close>

record timer =
  t_con :: console
  timer_tic :: cint
  current_sec :: cint

definition timer_count :: "cint \<Rightarrow> port_writes" where
  "timer_count hz =
     (let d = 1193180 sdiv hz in [(0x43, 0x36), (0x40, of_int d AND 0xFF), (0x40, of_int (d div 256))])"

text \<open>The rate of the divisor: \<^verbatim>\<open>init_timer\<close> programs the timer and installs the handler.\<close>

definition init_timer :: "cint \<Rightarrow> u64 \<Rightarrow> u64 list \<Rightarrow> (port_writes \<times> u64 list) option" where
  "init_timer hz timer_handler_addr rs = map_option (Pair (timer_count hz)) (irq_set 32 timer_handler_addr rs)"

definition timer_handler :: "timer \<Rightarrow> timer" where
  "timer_handler t =
     (let t = t\<lparr>timer_tic := i32 (timer_tic t + 1)\<rparr>
      in if timer_tic t smod 1000 = 0 then
           (let t = t\<lparr>t_con := kprintf_timer (timer_tic t sdiv 1000) (t_con t)\<rparr>
            in t\<lparr>current_sec := ((timer_tic t sdiv 1000) smod 3600) smod 60\<rparr>)
         else t)"

definition timer_ack :: port_writes where
  "timer_ack = [(0x20, 0x20), (0xA0, 0x20)]"

text \<open>\<^verbatim>\<open>sleep\<close> polls; \<open>n\<close> is the number of ticks to come. With too few it goes on polling, \<open>None\<close>.\<close>

fun sleep_until :: "cint \<Rightarrow> nat \<Rightarrow> timer \<Rightarrow> (nat \<times> timer) option" where
  "sleep_until ti 0 t = (if current_sec t < ti then None else Some (0, t))"
| "sleep_until ti (Suc n) t = (if current_sec t < ti then sleep_until ti n (timer_handler t) else Some (Suc n, t))"

definition sleep :: "cint \<Rightarrow> nat \<Rightarrow> timer \<Rightarrow> (nat \<times> timer) option" where
  "sleep val n t = sleep_until (i32 (current_sec t + val)) n t"

section \<open>What the processor reads\<close>

text \<open>The address a gate leads to, and the vector the controller at offset \<open>o\<close> gives to its line \<open>n\<close>.\<close>

definition gate_target :: "idt_entry \<Rightarrow> u64" where
  "gate_target e = ucast (addr_low e) OR push_bit 16 (ucast (addr_mid e)) OR push_bit 32 (ucast (addr_high e))"

definition descriptor_base :: "u64 \<Rightarrow> u64 \<Rightarrow> u64" where
  "descriptor_base lo hi =
     (drop_bit 16 lo AND mask 24) OR push_bit 24 (drop_bit 56 lo AND mask 8) OR push_bit 32 (hi AND mask 32)"

definition descriptor_limit :: "u64 \<Rightarrow> u64" where
  "descriptor_limit lo = (lo AND mask 16) OR push_bit 16 (drop_bit 48 lo AND mask 4)"

lemma split_address:
  "(ucast (ucast (a AND 0xFFFF :: u64) :: u16) :: u64) OR push_bit 16 (ucast (ucast (drop_bit 16 a AND 0xFFFF) :: u16)) OR
     push_bit 32 (ucast (ucast (drop_bit 32 a AND 0xFFFFFFFF) :: u32)) = a"
proof -
  have m: "(0xFFFF :: u64) = mask 16" "(0xFFFFFFFF :: u64) = mask 32" by (simp_all add: mask_eq_exp_minus_1)
  show ?thesis
    unfolding m
  proof (rule bit_word_eqI)
    fix n assume "n < LENGTH(64)"
    then consider "n < 16" | "16 \<le> n \<and> n < 32" | "32 \<le> n \<and> n < 64" by fastforce
    then show "bit ((ucast (ucast (a AND mask 16 :: u64) :: u16) :: u64) OR push_bit 16 (ucast (ucast (drop_bit 16 a AND mask 16) :: u16)) OR
        push_bit 32 (ucast (ucast (drop_bit 32 a AND mask 32) :: u32))) n = bit a n"
      by cases (auto simp: bit_simps)
  qed
qed

text \<open>The gate just set leads to the address it was given; the others stay.\<close>

lemma gate_target_set: "gate_target (set_idt_gate num addr sel gate entries num) = addr"
  by (simp add: set_idt_gate_def gate_target_def split_address)

lemma set_idt_gate_other: "n \<noteq> num \<Longrightarrow> set_idt_gate num addr sel gate entries n = entries n"
  by (simp add: set_idt_gate_def)

lemma bit_set_field: "n + i \<le> 64 \<Longrightarrow> k < 64 \<Longrightarrow>
    bit (set_field i n v w) k \<longleftrightarrow> (if i \<le> k \<and> k < i + n then bit v (k - i) else bit w k)"
  by (auto simp: set_field_def bit_simps)

text \<open>The task segment: the descriptor the processor reads.\<close>

lemma tss_descriptor:
  assumes "length g = 32"
  shows "descriptor_base (init_gdt tss g ! 6) (init_gdt tss g ! 7) = tss" "descriptor_limit (init_gdt tss g ! 6) = 103"
    "drop_bit 40 (init_gdt tss g ! 6) AND mask 8 = 0x89" "\<forall>i<6. init_gdt tss g ! i = g ! i"
proof -
  let ?d = "set_field 56 8 (drop_bit 24 tss) (set_field 55 1 0 (set_field 48 4 0 (set_field 47 1 1 (set_field 45 2 0
      (set_field 40 5 9 (set_field 16 24 tss (set_field 0 16 103 (g ! 6))))))))"
  have lo: "init_gdt tss g ! 6 = ?d" and hi: "init_gdt tss g ! 7 = set_field 0 32 (drop_bit 32 tss) (g ! 7)"
    using assms by (simp_all add: init_gdt_def Let_def)
  show "descriptor_base (init_gdt tss g ! 6) (init_gdt tss g ! 7) = tss"
    unfolding lo hi descriptor_base_def
  proof (rule bit_word_eqI)
    fix n assume "n < LENGTH(64)"
    then consider "n < 24" | "24 \<le> n \<and> n < 32" | "32 \<le> n \<and> n < 64" by fastforce
    then show "bit ((drop_bit 16 ?d AND mask 24) OR push_bit 24 (drop_bit 56 ?d AND mask 8) OR
        push_bit 32 (set_field 0 32 (drop_bit 32 tss) (g ! 7) AND mask 32)) n = bit tss n"
      by cases (auto simp: bit_and_iff bit_or_iff bit_drop_bit_eq bit_push_bit_iff bit_mask_iff bit_set_field split: if_splits)
  qed
  show "\<forall>i<6. init_gdt tss g ! i = g ! i" by (simp add: init_gdt_def Let_def)
  have c: "(103 :: u64) = 103 AND mask 16" "(0x89 :: u64) = 0x89 AND mask 8" by (simp_all add: mask_eq_exp_minus_1)
  show "descriptor_limit (init_gdt tss g ! 6) = 103"
  proof (subst c(1), rule bit_word_eqI)
    fix n assume "n < LENGTH(64)"
    then consider "n < 16" | "16 \<le> n \<and> n < 20" | "20 \<le> n \<and> n < 64" by fastforce
    then show "bit (descriptor_limit (init_gdt tss g ! 6)) n = bit (103 AND mask 16 :: u64) n"
      unfolding lo descriptor_limit_def
      by cases (auto simp: bit_and_iff bit_or_iff bit_drop_bit_eq bit_push_bit_iff bit_mask_iff bit_set_field split: if_splits)
  qed
  show "drop_bit 40 (init_gdt tss g ! 6) AND mask 8 = 0x89"
  proof (subst c(2), rule bit_word_eqI)
    fix n assume "n < LENGTH(64)"
    have "bit ?d (40 + k) = bit (0x89 :: u64) k" if "k \<in> {0, 1, 2, 3, 4, 5, 6, 7}" for k
      using that by (elim insertE emptyE) (simp_all add: bit_set_field)
    moreover have "n < 8 \<longleftrightarrow> n \<in> {0, 1, 2, 3, 4, 5, 6, 7}" by auto
    ultimately show "bit (drop_bit 40 (init_gdt tss g ! 6) AND mask 8) n = bit (0x89 AND mask 8 :: u64) n"
      unfolding lo by (simp add: bit_and_iff bit_drop_bit_eq bit_mask_iff) blast
  qed
qed

section \<open>The controllers\<close>

text \<open>
  What an 8259 does with the writes to its two ports: the initialization words in turn, then masks.
  \<open>icw\<close> is the number of the word it waits for, 0 when it is initialized.
\<close>

record pic8259 =
  offset :: u8
  imask :: u8
  icw :: nat

definition pic_write :: "u16 \<Rightarrow> u16 \<times> u8 \<Rightarrow> pic8259 \<Rightarrow> pic8259" where
  "pic_write base w p =
     (if fst w = base then if snd w AND 0x10 \<noteq> 0 then p\<lparr>icw := 2, imask := 0\<rparr> else p
      else if fst w = base + 1 then
        if icw p = 2 then p\<lparr>offset := snd w AND 0xF8, icw := 3\<rparr>
        else if icw p = 3 then p\<lparr>icw := 4\<rparr>
        else if icw p = 4 then p\<lparr>icw := 0\<rparr>
        else p\<lparr>imask := snd w\<rparr>
      else p)"

definition reads_masks :: "pic8259 \<Rightarrow> pic8259 \<Rightarrow> u16 \<Rightarrow> u8" where
  "reads_masks p1 p2 port = (if port = PIC1_DATA then imask p1 else imask p2)"

lemma PIC_remap_pics:
  "fold (pic_write PIC1_COMMAND) (PIC_remap (reads_masks p1 p2) a b) p1 = p1\<lparr>offset := a AND 0xF8, icw := 0\<rparr>"
  "fold (pic_write PIC2_COMMAND) (PIC_remap (reads_masks p1 p2) a b) p2 = p2\<lparr>offset := b AND 0xF8, icw := 0\<rparr>"
  by (simp_all add: PIC_remap_def reads_masks_def pic_write_def io_wait_def Let_def)

section \<open>The clock\<close>

definition timer_ok :: "timer \<Rightarrow> bool" where
  "timer_ok t \<longleftrightarrow> 0 \<le> timer_tic t \<and> current_sec t = (timer_tic t div 1000) mod 60"

lemma signed_nonneg: "0 \<le> x \<Longrightarrow> 0 < k \<Longrightarrow> x smod k = x mod k" "0 \<le> x \<Longrightarrow> 0 < k \<Longrightarrow> x sdiv k = x div k" for x k :: int
  by (cases "x = 0"; simp add: signed_modulo_int_def signed_divide_int_def)+

lemma timer_handler_ok:
  assumes "timer_ok t" "timer_tic t + 1 < 2 ^ 31"
  shows "timer_ok (timer_handler t)" "timer_tic (timer_handler t) = timer_tic t + 1"
proof -
  have i: "i32 (timer_tic t + 1) = timer_tic t + 1" using assms by (intro i32_id) (simp add: in_i32_def timer_ok_def)
  have s: "(timer_tic t + 1) smod 1000 = (timer_tic t + 1) mod 1000" "(timer_tic t + 1) sdiv 1000 = (timer_tic t + 1) div 1000"
    using assms(1) by (simp_all add: timer_ok_def signed_nonneg)
  show "timer_tic (timer_handler t) = timer_tic t + 1" by (simp add: timer_handler_def Let_def i)
  have d: "(timer_tic t + 1) div 1000 = timer_tic t div 1000" if "(timer_tic t + 1) mod 1000 \<noteq> 0"
  proof (rule sym, rule int_div_pos_eq [of _ 1000 _ "(timer_tic t + 1) mod 1000 - 1"])
    show "timer_tic t = 1000 * ((timer_tic t + 1) div 1000) + ((timer_tic t + 1) mod 1000 - 1)"
      using mult_div_mod_eq [of 1000 "timer_tic t + 1"] by linarith
    have "0 \<le> (timer_tic t + 1) mod 1000" "(timer_tic t + 1) mod 1000 < 1000" by simp_all
    with that show "0 \<le> (timer_tic t + 1) mod 1000 - 1" "(timer_tic t + 1) mod 1000 - 1 < 1000" by linarith+
  qed
  have m: "((timer_tic t + 1) div 1000) smod 3600 = ((timer_tic t + 1) div 1000) mod 3600"
    "(((timer_tic t + 1) div 1000) mod 3600) smod 60 = (((timer_tic t + 1) div 1000) mod 3600) mod 60"
    using assms(1) by (simp_all add: timer_ok_def signed_nonneg pos_imp_zdiv_nonneg_iff)
  have mm: "((timer_tic t + 1) div 1000) mod 3600 mod 60 = ((timer_tic t + 1) div 1000) mod 60" by (rule mod_mod_cancel) simp
  show "timer_ok (timer_handler t)"
  proof (cases "(timer_tic t + 1) mod 1000 = 0")
    case True
    then have "timer_handler t = t\<lparr>timer_tic := timer_tic t + 1, t_con := kprintf_timer ((timer_tic t + 1) div 1000) (t_con t),
        current_sec := ((timer_tic t + 1) div 1000) mod 60\<rparr>"
      by (simp add: timer_handler_def Let_def i s m mm)
    then show ?thesis using assms(1) by (simp add: timer_ok_def)
  next
    case False
    then have "timer_handler t = t\<lparr>timer_tic := timer_tic t + 1\<rparr>"
      by (simp add: timer_handler_def Let_def i s)
    then show ?thesis using assms(1) d [OF False] by (simp add: timer_ok_def)
  qed
qed

lemma ticks:
  assumes "timer_ok t" "timer_tic t + int n < 2 ^ 31"
  shows "timer_ok ((timer_handler ^^ n) t) \<and> timer_tic ((timer_handler ^^ n) t) = timer_tic t + int n"
  using assms(2) by (induction n) (use assms(1) timer_handler_ok in auto)

lemma current_sec_bound: "current_sec t < 60 \<Longrightarrow> current_sec (timer_handler t) < 60"
proof -
  have "x smod 60 < 60" for x :: int using smod_int_compares [of x 60] by (cases "0 \<le> x") auto
  then show "current_sec t < 60 \<Longrightarrow> current_sec (timer_handler t) < 60" by (simp add: timer_handler_def Let_def)
qed

lemma sleep_until_stuck: "current_sec t < 60 \<Longrightarrow> 60 \<le> ti \<Longrightarrow> sleep_until ti n t = None"
  by (induction n arbitrary: t) (use current_sec_bound in auto)

lemma sleep_until_steps:
  assumes "\<forall>i<m. current_sec ((timer_handler ^^ i) t) < ti" "ti \<le> current_sec ((timer_handler ^^ m) t)"
  shows "sleep_until ti n t = (if m \<le> n then Some (n - m, (timer_handler ^^ m) t) else None)"
  using assms
proof (induction m arbitrary: n t)
  case 0
  then show ?case by (cases n) auto
next
  case (Suc m)
  have "current_sec t < ti" using Suc.prems(1) by auto
  moreover have "sleep_until ti k (timer_handler t) = (if m \<le> k then Some (k - m, (timer_handler ^^ m) (timer_handler t)) else None)" for k
  proof (rule Suc.IH)
    show "\<forall>i<m. current_sec ((timer_handler ^^ i) (timer_handler t)) < ti"
      using Suc.prems(1) by (metis Suc_less_eq comp_apply funpow_Suc_right)
    show "ti \<le> current_sec ((timer_handler ^^ m) (timer_handler t))" using Suc.prems(2) by (simp add: funpow_swap1)
  qed
  ultimately show ?case by (cases n) (simp_all add: funpow_swap1)
qed

lemma sleep_eq:
  assumes ok: "timer_ok t" and val: "0 \<le> val" "in_i32 (current_sec t + val)" and tic: "timer_tic t + 60000 < 2 ^ 31"
    and m: "m = nat (1000 * val - timer_tic t mod 1000)"
  shows "sleep val n t = (if current_sec t + val < 60 \<and> m \<le> n then Some (n - m, (timer_handler ^^ m) t) else None)"
proof (cases "current_sec t + val < 60")
  case False
  have "current_sec t < 60" using ok by (simp add: timer_ok_def)
  with False val(2) show ?thesis by (simp add: sleep_def i32_id sleep_until_stuck)
next
  case True
  let ?c = "timer_tic t"
  have c: "0 \<le> ?c" "current_sec t = ?c div 1000 mod 60" using ok by (simp_all add: timer_ok_def)
  have sec: "current_sec ((timer_handler ^^ i) t) = (?c + int i) div 1000 mod 60" if "i \<le> m" for i
  proof -
    have "0 \<le> current_sec t" using c by simp
    then have "int i \<le> 60000" using that True m c(1) by simp
    then show ?thesis using ticks [OF ok, of i] tic by (simp add: timer_ok_def)
  qed
  define q r where "q = ?c div 1000" and "r = ?c mod 1000"
  have qr: "?c = 1000 * q + r" "0 \<le> r" "r < 1000" "0 \<le> q" using c(1) by (simp_all add: q_def r_def)
  have add: "(q + d) mod 60 = q mod 60 + d" if "0 \<le> d" "d \<le> val" for d
  proof -
    have "0 \<le> q mod 60 + d" "q mod 60 + d < 60" using that True c(2) by (simp_all add: q_def)
    then show ?thesis by (metis mod_add_left_eq mod_pos_pos_trivial)
  qed
  have bef: "current_sec ((timer_handler ^^ i) t) < current_sec t + val" if "i < m" for i
  proof -
    have "?c + int i < 1000 * (q + val)" using that m qr by (simp add: r_def [symmetric])
    then have "(?c + int i) div 1000 \<le> (1000 * (q + val - 1) + 999) div 1000" by (intro zdiv_mono1) simp_all
    moreover have "(1000 * (q + val - 1) + 999) div 1000 = q + val - 1" by (rule int_div_pos_eq [where r = 999]) simp_all
    moreover have "q \<le> (?c + int i) div 1000" unfolding q_def by (intro zdiv_mono1) simp_all
    ultimately have "(?c + int i) div 1000 - q \<le> val - 1" "0 \<le> (?c + int i) div 1000 - q" by linarith+
    then have "(q + ((?c + int i) div 1000 - q)) mod 60 < q mod 60 + val" by (subst add) simp_all
    then show ?thesis using sec [of i] that c(2) by (simp add: q_def)
  qed
  have aft: "current_sec t + val \<le> current_sec ((timer_handler ^^ m) t)"
  proof (cases "val = 0")
    case True
    then have "m = 0" using m by simp
    with True show ?thesis by simp
  next
    case False
    then have "?c + int m = 1000 * (q + val)" using m qr val(1) by (simp add: r_def [symmetric])
    then have "(?c + int m) div 1000 = q + val" by simp
    then show ?thesis using sec [of m] add [of val] val(1) c(2) by (simp add: q_def)
  qed
  have "sleep_until (current_sec t + val) n t = (if m \<le> n then Some (n - m, (timer_handler ^^ m) t) else None)"
    by (rule sleep_until_steps) (use bef aft in auto)
  with True val(2) show ?thesis by (simp add: sleep_def i32_id)
qed

section \<open>Properties\<close>

text \<open>C33: The interrupt set-up, for any addresses of the four stubs and any masks the two controllers hold: the
  controllers end up initialized with their masks as before; the gate of the vector the first one gives to its
  line 0 (the timer) leads to \<open>isr32\<close>, that of its line 1 (the keyboard) to \<open>isr33\<close>, the gate of page faults to \<open>isr14\<close>,
  and the gate of system calls to \<open>isr128\<close>; of the four only the last can be entered from user mode; no other gate changes.\<close>

theorem init_picirr_wires:
  "(let (w, g) = init_picirr (reads_masks p1 p2) isr32 isr33 isr14 isr128 entries;
        p1' = fold (pic_write 0x20) w p1; p2' = fold (pic_write 0xA0) w p2
    in icw p1' = 0 \<and> icw p2' = 0 \<and> imask p1' = imask p1 \<and> imask p2' = imask p2 \<and> offset p2' = 0x28 \<and>
       gate_target (g (offset p1')) = isr32 \<and> gate_target (g (offset p1' + 1)) = isr33 \<and>
       gate_target (g 14) = isr14 \<and> gate_target (g 128) = isr128 \<and>
       (\<forall>n \<in> {offset p1', offset p1' + 1, 14}. flags (g n) AND 0x60 = 0) \<and> flags (g 128) AND 0x60 = 0x60 \<and>
       (\<forall>n. n \<notin> {offset p1', offset p1' + 1, 14, 128} \<longrightarrow> g n = entries n))"
proof -
  let ?w = "PIC_remap (reads_masks p1 p2) 0x20 0x28"
  define g where "g = snd (init_picirr (reads_masks p1 p2) isr32 isr33 isr14 isr128 entries)"
  have p: "fold (pic_write 0x20) ?w p1 = p1\<lparr>offset := 0x20, icw := 0\<rparr>" "fold (pic_write 0xA0) ?w p2 = p2\<lparr>offset := 0x28, icw := 0\<rparr>"
    by (simp_all add: PIC_remap_pics)
  have g: "g n = (if n = 128 then set_idt_gate 128 isr128 0x08 0xEE entries n else if n = 14 then set_idt_gate 14 isr14 0x08 0x8E entries n
      else if n = 33 then set_idt_gate 33 isr33 0x08 0x8E entries n else if n = 32 then set_idt_gate 32 isr32 0x08 0x8E entries n
      else entries n)" for n
    by (simp add: g_def init_picirr_def Let_def set_idt_gate_def)
  have "init_picirr (reads_masks p1 p2) isr32 isr33 isr14 isr128 entries = (?w, g)" by (simp add: g_def init_picirr_def Let_def)
  moreover have "flags (set_idt_gate n a sel f entries n) = f" for n a sel f by (simp add: set_idt_gate_def)
  ultimately show ?thesis unfolding Let_def by (simp add: p g gate_target_set)
qed

definition demo_pic :: pic8259 where
  "demo_pic = \<lparr>offset = 8, imask = 0xFC, icw = 0\<rparr>"

definition demo_gate :: idt_entry where
  "demo_gate = \<lparr>addr_low = 0, selector = 0, always0 = 0, flags = 0, addr_mid = 0, addr_high = 0, reserved = 0\<rparr>"

theorem init_picirr_wires_witness:
  "(let (w, g) = init_picirr (reads_masks demo_pic demo_pic) 0xFFFFFFFF80201000 0xFFFFFFFF80202000 0xFFFFFFFF80203000
        0xFFFFFFFF80204000 (\<lambda>_. demo_gate); p = fold (pic_write 0x20) w demo_pic
    in gate_target (g (offset p + 1)) = 0xFFFFFFFF80202000 \<and> imask p = 0xFC \<and> flags (g (offset p)) AND 0x60 = 0)"
  using init_picirr_wires [of demo_pic demo_pic "0xFFFFFFFF80201000" "0xFFFFFFFF80202000" "0xFFFFFFFF80203000"
      "0xFFFFFFFF80204000" "\<lambda>_. demo_gate"]
  by (simp add: Let_def case_prod_beta demo_pic_def)

text \<open>C34: \<open>sleep\<close>, at a moment when the second of the minute is the one shown by the tick count: a sleep that ends
  within the current minute returns after exactly the ticks up to the start of its last second; a sleep that
  reaches the next minute never returns, however long one waits, since the second it waits for does not exist.\<close>

theorem sleep_within_minute:
  assumes "timer_ok t" "0 \<le> val" "in_i32 (current_sec t + val)" "timer_tic t + 60000 < 2 ^ 31"
  shows "sleep val n t =
    (let m = nat (1000 * val - timer_tic t mod 1000)
     in if current_sec t + val < 60 \<and> m \<le> n then Some (n - m, (timer_handler ^^ m) t) else None)"
  unfolding Let_def by (rule sleep_eq [OF assms refl])

definition demo_timer :: timer where
  "demo_timer = \<lparr>t_con = demo_console, timer_tic = 57998, current_sec = 57\<rparr>"

theorem sleep_within_minute_witness:
  "(\<exists>t. sleep 1 5 demo_timer = Some (3, t)) \<and> (\<forall>n. sleep 3 n demo_timer = None)"
  using sleep_within_minute [of demo_timer 1 5] sleep_within_minute [of demo_timer 3]
  by (simp add: demo_timer_def timer_ok_def in_i32_def)

end
