(* ===== verification/Syscalls.thy ===== *)
theory Syscalls
  imports Exec Keyboard Interrupts Environ
begin

text \<open>
  The system calls: \<open>syscall_handler\<close> of \<^verbatim>\<open>sys/syscalls.c\<close> over the state of the whole machine, the
  kernel, the keyboard with the screen, and the clock. Pointers are addresses of the current
  process; its memory is read and written through the live tables, and a store to a page that is
  not mapped goes through the page-fault handler and is repeated.
\<close>

unbundle bit_operations_syntax

section \<open>Definitions\<close>

record machine =
  kern :: kernel
  kbd :: keyboard
  tic :: cint
  sec :: cint
  read_size :: cint

text \<open>
  A call: the registers it is made with, the kernel's stack pointer and the address of \<^verbatim>\<open>schedule_sbush\<close>
  (stored by a call that leaves the process), the old contents of the stack rows of \<open>execve\<close>, and
  what the hardware delivers while the call waits: keys and ticks of the clock.
\<close>

record call =
  rbx :: u64
  rcx :: u64
  rdx :: u64
  ksp :: u64
  sbush_entry :: u64
  junk_rows :: "u8 list list"
  key_events :: "(u8 \<times> u8) list"
  tick_count :: nat

text \<open>A call returns a value to the process that made it, or another program runs.\<close>

datatype outcome = Returns u64 | Switches

definition sb_fault :: "call \<Rightarrow> u64 \<Rightarrow> u8 \<Rightarrow> kernel \<Rightarrow> kernel option" where
  "sb_fault c va b st =
     (if phys_of st va \<noteq> None then sb va b st
      else do {
        st' \<leftarrow> pagefault_handler (sbush_entry c) (ksp c) va st;
        if curr_process st' = curr_process st then sb va b st' else None
      })"

fun store_f :: "call \<Rightarrow> u64 \<Rightarrow> u8 list \<Rightarrow> kernel \<Rightarrow> kernel option" where
  "store_f c a [] st = Some st"
| "store_f c a (b # bs) st = do { st \<leftarrow> sb_fault c a b st; store_f c (a + 1) bs st }"

fun copy_f :: "call \<Rightarrow> u64 \<Rightarrow> u64 \<Rightarrow> nat \<Rightarrow> kernel \<Rightarrow> kernel option" where
  "copy_f c src dst 0 st = Some st"
| "copy_f c src dst (Suc n) st = do { b \<leftarrow> ld st src; st \<leftarrow> sb_fault c dst b st; copy_f c (src + 1) (dst + 1) n st }"

text \<open>
  The bytes \<open>kprintf\<close> takes from a \<^verbatim>\<open>%s\<close> argument: after a newline it takes the next byte, whatever it is.
\<close>

partial_function (option) ld_print :: "kernel \<Rightarrow> u64 \<Rightarrow> u8 list option" where
  "ld_print st a = do {
     b \<leftarrow> ld st a;
     if b = 0 then Some []
     else if b = 10 then do { d \<leftarrow> ld st (a + 1); s \<leftarrow> ld_print st (a + 2); Some (b # d # s) }
     else do { s \<leftarrow> ld_print st (a + 1); Some (b # s) }
   }"

text \<open>The kernel's own messages, character by character.\<close>

definition show_out :: "machine \<Rightarrow> machine" where
  "show_out m = m\<lparr>kbd := (kbd m)\<lparr>con := fold plain (out (kern m)) (con (kbd m))\<rparr>, kern := (kern m)\<lparr>out := []\<rparr>\<rparr>"

definition set_con :: "console \<Rightarrow> machine \<Rightarrow> machine" where
  "set_con s m = m\<lparr>kbd := (kbd m)\<lparr>con := s\<rparr>\<rparr>"

definition set_kern :: "kernel \<Rightarrow> machine \<Rightarrow> machine" where
  "set_kern st m = show_out (m\<lparr>kern := st\<rparr>)"

definition to_int :: "u64 \<Rightarrow> cint" where
  "to_int v = i32 (uint v)"

definition syscall_handler :: "call \<Rightarrow> machine \<Rightarrow> (machine \<times> outcome) option" where
  "syscall_handler reg m =
     (let st = kern m in
      if rbx reg = 1 then do {
        s \<leftarrow> ld_print st (rcx reg);
        con' \<leftarrow> kprintf [37, 115] [AStr s] (con (kbd m));
        Some (set_con con' m, Returns 0)
      }
      else if rbx reg = 4 then do {
        (es, text, k) \<leftarrow> scanf_text (key_events reg) (kbd m);
        st \<leftarrow> store_f reg (rcx reg) (text @ [0, 0]) st;
        Some (set_kern st (m\<lparr>kbd := k\<rparr>), Returns 0)
      }
      else if rbx reg = 89 then do {
        s \<leftarrow> ld_string st (rcx reg);
        r \<leftarrow> opendir s st;
        Some (m, Returns (of_int (to_int r)))
      }
      else if rbx reg = 90 then do {
        st \<leftarrow> read_dir (to_int (rcx reg)) st;
        Some (set_kern st m, Returns 0)
      }
      else if rbx reg = 0 then do {
        s \<leftarrow> ld_string st (rcx reg);
        (st, r) \<leftarrow> open_file s st;
        Some (set_kern st m, Returns (of_int r))
      }
      else if rbx reg = 50 then Some (m\<lparr>read_size := to_int (rcx reg)\<rparr>, Returns 0)
      else if rbx reg = 2 then do {
        (st, content, len) \<leftarrow> read_step (to_int (rcx reg)) (read_size m) st;
        st \<leftarrow> copy_f reg content (rdx reg) (nat len) st;
        Some (set_kern st m, Returns 0)
      }
      else if rbx reg = 80 then do {
        s \<leftarrow> ld_string st (rcx reg);
        st \<leftarrow> chdir s st;
        Some (set_kern st m, Returns 0)
      }
      else if rbx reg = 79 then Some (set_kern (getcwd st) m, Returns 0)
      else if rbx reg = 91 then do {
        con' \<leftarrow> clear_console (con (kbd m));
        Some (set_con con' m, Returns 0)
      }
      else if rbx reg = 9 then do {
        (st, a, n) \<leftarrow> mmap_step (to_int (rcx reg)) st;
        st \<leftarrow> store_f reg a (replicate n 0) st;
        Some (set_kern st m, Returns a)
      }
      else if rbx reg = 39 then Some (m, Returns (get_pid st))
      else if rbx reg = 57 then do {
        (st, p) \<leftarrow> fork_child st;
        Some (set_kern st m, Returns (of_int p))
      }
      else if rbx reg = 247 then do {
        (st, sw) \<leftarrow> wait (ksp reg) (rcx reg) st;
        Some (set_kern st m, if sw then Switches else Returns 0)
      }
      else if rbx reg = 35 then do {
        (n, t) \<leftarrow> sleep (to_int (rcx reg)) (tick_count reg) \<lparr>t_con = con (kbd m), timer_tic = tic m, current_sec = sec m\<rparr>;
        Some (set_con (t_con t) (m\<lparr>tic := timer_tic t, sec := current_sec t\<rparr>), Returns 0)
      }
      else if rbx reg = 59 then do {
        (st, entry) \<leftarrow> execve (junk_rows reg) (rcx reg) (rdx reg) st;
        Some (set_kern st m, if entry = None then Returns 0 else Switches)
      }
      else if rbx reg = 78 then do {
        st \<leftarrow> store_f reg (rcx reg) (curr_dir (pcbs st (curr_process st)) @ [0, 0]) st;
        Some (set_kern st m, Returns 0)
      }
      else if rbx reg = 270 then do {
        st \<leftarrow> print_allPID st;
        Some (set_kern st m, Returns 0)
      }
      else if rbx reg = 60 then do {
        st \<leftarrow> sys_exit (sbush_entry reg) (ksp reg) st;
        Some (set_kern st m, Switches)
      }
      else if rbx reg = 62 then do {
        let own = (rcx reg = of_int (pid (pcbs st (curr_process st))));
        st \<leftarrow> kill (sbush_entry reg) (ksp reg) (rcx reg) st;
        Some (set_kern st m, if own then Switches else Returns 0)
      }
      else if rbx reg = 5 then do {
        s \<leftarrow> ld_string st (rcx reg);
        st \<leftarrow> setEnv s st;
        Some (set_kern st m, Returns 0)
      }
      else if rbx reg = 6 then do {
        s \<leftarrow> ld_string st (rcx reg);
        st \<leftarrow> printEnv s st;
        Some (set_kern st m, Returns 0)
      }
      else Some (m, Returns 0))"

section \<open>Strings of a process\<close>

text \<open>\<open>n\<close> bytes from \<open>a\<close> at the places \<open>P\<close>, all different and in no table.\<close>

definition own_bytes :: "'a paging_scheme \<Rightarrow> (u64 \<Rightarrow> nat option) \<Rightarrow> u64 \<Rightarrow> nat \<Rightarrow> (nat \<Rightarrow> u64) \<Rightarrow> bool" where
  "own_bytes st L a n P \<longleftrightarrow>
     (\<forall>j<n. phys_of st (a + of_nat j) = Some (P j) \<and> L (remove_flag (P j)) = None) \<and> inj_on P {..<n}"

lemma own_bytesD:
  assumes "own_bytes st L a n P" "j < n"
  shows "phys_of st (a + of_nat j) = Some (P j)" "L (remove_flag (P j)) = None"
  using assms unfolding own_bytes_def by blast+

lemma own_bytes_inj: "own_bytes st L a n P \<Longrightarrow> i < n \<Longrightarrow> j < n \<Longrightarrow> P i = P j \<longleftrightarrow> i = j"
  by (auto simp: own_bytes_def inj_on_def)

lemma own_bytes_cong: "(\<And>va. phys_of st' va = phys_of st va) \<Longrightarrow> own_bytes st' L a n P = own_bytes st L a n P"
  by (simp add: own_bytes_def)

lemma own_bytes_tl:
  assumes "own_bytes st L a (Suc n) P"
  shows "own_bytes st L (a + 1) n (\<lambda>j. P (Suc j))"
proof -
  have "phys_of st (a + 1 + of_nat j) = Some (P (Suc j)) \<and> L (remove_flag (P (Suc j))) = None" if "j < n" for j
    using own_bytesD [OF assms, of "Suc j"] that by (simp add: add.assoc)
  moreover have "inj_on (\<lambda>j. P (Suc j)) {..<n}" using assms by (auto simp: own_bytes_def inj_on_def)
  ultimately show ?thesis by (simp add: own_bytes_def)
qed

text \<open>What a store keeps: every mapping, the tables, and the bytes outside \<open>X\<close>.\<close>

definition only_bytes :: "u64 set \<Rightarrow> u64 set \<Rightarrow> (u64 \<Rightarrow> nat option) \<Rightarrow> 'a paging_scheme \<Rightarrow> (u64 \<Rightarrow> u64) \<Rightarrow> bool" where
  "only_bytes X A L st g \<longleftrightarrow> table_inv g A (reg_cr3 st) L \<and>
     (\<forall>va. translate g (reg_cr3 st) va = translate (pm st) (reg_cr3 st) va) \<and> (\<forall>x. x \<notin> X \<longrightarrow> pbyte g x = pbyte (pm st) x)"

lemma only_bytesD:
  assumes "only_bytes X A L st g"
  shows "table_inv g A (reg_cr3 st) L" "translate g (reg_cr3 st) va = translate (pm st) (reg_cr3 st) va"
    "x \<notin> X \<Longrightarrow> pbyte g x = pbyte (pm st) x" "phys_of (st\<lparr>pm := g\<rparr>) va = phys_of st va"
  using assms unfolding only_bytes_def by (simp_all add: phys_of_def frame_of_def)

lemma only_bytes_refl: "table_inv (pm st) A (reg_cr3 st) L \<Longrightarrow> only_bytes X A L st (pm st)"
  by (simp add: only_bytes_def)

lemma only_bytes_trans:
  "only_bytes X A L st g \<Longrightarrow> only_bytes Y A L (st\<lparr>pm := g\<rparr>) h \<Longrightarrow> X \<subseteq> Z \<Longrightarrow> Y \<subseteq> Z \<Longrightarrow> only_bytes Z A L st h"
  unfolding only_bytes_def by (simp add: subset_iff) metis

lemma sb_fault_mapped:
  assumes inv: "table_inv (pm st) A (reg_cr3 st) L" and p: "phys_of st a = Some p" "L (remove_flag p) = None"
  shows "sb_fault c a b st = Some (st\<lparr>pm := pset (pm st) p b\<rparr>)" "only_bytes {p} A L st (pset (pm st) p b)"
  using sb_eq [OF inv p] p(1) by (simp_all add: sb_fault_def only_bytes_def pbyte_pset)

lemma store_f_eq:
  assumes "table_inv (pm st) A (reg_cr3 st) L" "own_bytes st L a n P" "length bs \<le> n"
  shows "\<exists>g. store_f c a bs st = Some (st\<lparr>pm := g\<rparr>) \<and> only_bytes (P ` {..<length bs}) A L st g \<and> (\<forall>j<length bs. pbyte g (P j) = bs ! j)"
  using assms
proof (induction bs arbitrary: st a n P)
  case Nil
  then show ?case by (intro exI [of _ "pm st"]) (simp add: only_bytes_refl)
next
  case (Cons b bs)
  obtain n' where n: "n = Suc n'" using Cons.prems(3) by (cases n) auto
  have p0: "phys_of st a = Some (P 0)" "L (remove_flag (P 0)) = None" using own_bytesD [OF Cons.prems(2), of 0] n by simp_all
  define st1 where "st1 = st\<lparr>pm := pset (pm st) (P 0) b\<rparr>"
  note s1 = sb_fault_mapped [OF Cons.prems(1) p0, where b = b, folded st1_def]
  have "own_bytes st1 L (a + 1) n' (\<lambda>j. P (Suc j))"
    using own_bytes_tl Cons.prems(2) own_bytes_cong [OF only_bytesD(4) [OF s1(2)]] by (simp add: st1_def n)
  moreover have "table_inv (pm st1) A (reg_cr3 st1) L" using only_bytesD(1) [OF s1(2)] by (simp add: st1_def)
  ultimately obtain g where g: "store_f c (a + 1) bs st1 = Some (st1\<lparr>pm := g\<rparr>)"
      "only_bytes ((\<lambda>j. P (Suc j)) ` {..<length bs}) A L st1 g" "\<forall>j<length bs. pbyte g (P (Suc j)) = bs ! j"
    using Cons.IH [of st1 "a + 1" n' "\<lambda>j. P (Suc j)"] Cons.prems(3) n by auto
  have "only_bytes (P ` {..<length (b # bs)}) A L st g"
    by (rule only_bytes_trans [OF s1(2) g(2) [unfolded st1_def]]) auto
  moreover have "store_f c a (b # bs) st = Some (st\<lparr>pm := g\<rparr>)" using s1(1) g(1) by (simp add: st1_def)
  moreover have "pbyte g (P j) = (b # bs) ! j" if j: "j < length (b # bs)" for j
  proof (cases j)
    case 0
    have "P 0 \<notin> (\<lambda>j. P (Suc j)) ` {..<length bs}" using own_bytes_inj [OF Cons.prems(2)] Cons.prems(3) by force
    from only_bytesD(3) [OF g(2) this] show ?thesis by (simp add: 0 st1_def pbyte_pset)
  next
    case (Suc i)
    with g(3) j show ?thesis by simp
  qed
  ultimately show ?case by blast
qed

text \<open>The string at an address.\<close>

fun holds :: "kernel \<Rightarrow> u64 \<Rightarrow> u8 list \<Rightarrow> bool" where
  "holds st a [] \<longleftrightarrow> ld st a = Some 0"
| "holds st a (c # s) \<longleftrightarrow> ld st a = Some c \<and> c \<noteq> 0 \<and> holds st (a + 1) s"

lemma ld_string_holds: "holds st a s \<Longrightarrow> ld_string st a = Some s"
  by (induction s arbitrary: a) (subst ld_string.simps; simp)+

lemma ld_print_holds: "holds st a s \<Longrightarrow> 10 \<notin> set s \<Longrightarrow> ld_print st a = Some s"
  by (induction s arbitrary: a) (subst ld_print.simps; simp)+

lemma holds_nth: "holds st a s \<longleftrightarrow> (\<forall>j<length s. ld st (a + of_nat j) = Some (s ! j)) \<and> 0 \<notin> set s \<and> ld st (a + of_nat (length s)) = Some 0"
proof (induction s arbitrary: a)
  case (Cons c s)
  have e: "a + 1 + of_nat j = a + of_nat (Suc j)" for j by (simp add: add.assoc)
  show ?case unfolding holds.simps Cons.IH e by (auto simp: All_less_Suc2 simp del: of_nat_Suc)
qed simp

lemma holds_cong: "(\<And>j. j \<le> length s \<Longrightarrow> ld st' (a + of_nat j) = ld st (a + of_nat j)) \<Longrightarrow> holds st' a s = holds st a s"
  by (simp add: holds_nth)

lemma holds_stored:
  assumes "own_bytes st L a n P" "only_bytes X A L st g" "\<forall>j<length (s @ [0]). pbyte g (P j) = (s @ [0]) ! j"
    "length s < n" "0 \<notin> set s"
  shows "holds (st\<lparr>pm := g\<rparr>) a s"
proof -
  have "ld (st\<lparr>pm := g\<rparr>) (a + of_nat j) = Some ((s @ [0]) ! j)" if "j \<le> length s" for j
    using own_bytesD [OF assms(1), of j] only_bytesD(4) [OF assms(2)] assms(3,4) that by (simp add: ld_def)
  then show ?thesis using assms(5) by (simp add: holds_nth nth_append)
qed

text \<open>Storing a string and reading it back.\<close>

lemma store_string:
  assumes "table_inv (pm st) A (reg_cr3 st) L" "own_bytes st L a n P" "length s < n" "0 \<notin> set s"
  shows "\<exists>g. store_f c a (s @ [0]) st = Some (st\<lparr>pm := g\<rparr>) \<and> only_bytes (P ` {..<Suc (length s)}) A L st g \<and> holds (st\<lparr>pm := g\<rparr>) a s"
proof -
  obtain g where g: "store_f c a (s @ [0]) st = Some (st\<lparr>pm := g\<rparr>)" "only_bytes (P ` {..<length (s @ [0])}) A L st g"
      "\<forall>j<length (s @ [0]). pbyte g (P j) = (s @ [0]) ! j"
    using store_f_eq [OF assms(1,2), of "s @ [0]" c] assms(3) by auto
  with holds_stored [OF assms(2) g(2,3) assms(3,4)] show ?thesis by auto
qed

end
