(* ===== verification/UserLib.thy ===== *)
theory UserLib
  imports Syscalls LibcString ElfLoad
begin

text \<open>
  The library of the user programs, \<^verbatim>\<open>libc/stdio.c\<close>, \<^verbatim>\<open>libc/unistd.c\<close> and \<^verbatim>\<open>libc/stdlib.c\<close>: formatted output,
  and the functions that enter the kernel. A pointer is an address of the process; local arrays have
  the addresses given as arguments. What the library does with a call that made another program run is
  what remains to be done when this one runs again, and is not part of the step.
\<close>

unbundle bit_operations_syntax

section \<open>Definitions\<close>

text \<open>The traps of \<^verbatim>\<open>libc/libc.c\<close> into \<^verbatim>\<open>int 0x80\<close>, by the number of registers they set.\<close>

definition syscall_1 :: "u64 \<Rightarrow> call \<Rightarrow> machine \<Rightarrow> (machine \<times> outcome) option" where
  "syscall_1 n c m = syscall_handler (c\<lparr>rbx := n\<rparr>) m"

definition syscall_2 :: "u64 \<Rightarrow> u64 \<Rightarrow> call \<Rightarrow> machine \<Rightarrow> (machine \<times> outcome) option" where
  "syscall_2 n ch c m = syscall_handler (c\<lparr>rbx := n, rcx := ch\<rparr>) m"

definition syscall_3 :: "u64 \<Rightarrow> u64 \<Rightarrow> u64 \<Rightarrow> call \<Rightarrow> machine \<Rightarrow> (machine \<times> outcome) option" where
  "syscall_3 n ch buf c m = syscall_handler (c\<lparr>rbx := n, rcx := ch, rdx := buf\<rparr>) m"

definition syscall_pid :: "u64 \<Rightarrow> call \<Rightarrow> machine \<Rightarrow> (machine \<times> outcome) option" where
  "syscall_pid n c m = syscall_handler (c\<lparr>rbx := n\<rparr>) m"

definition after ::
  "(machine \<times> outcome) option \<Rightarrow> (u64 \<Rightarrow> machine \<Rightarrow> (machine \<times> outcome) option) \<Rightarrow> (machine \<times> outcome) option" where
  "after r f = do { (m, out) \<leftarrow> r; case out of Returns v \<Rightarrow> f v m | Switches \<Rightarrow> Some (m, Switches) }"

text \<open>Stores of the process into its memory.\<close>

definition user_store :: "call \<Rightarrow> u64 \<Rightarrow> u8 list \<Rightarrow> machine \<Rightarrow> machine option" where
  "user_store c a bs m = map_option (\<lambda>st. m\<lparr>kern := st\<rparr>) (store_f c a bs (kern m))"

subsection \<open>Output\<close>

text \<open>
  The text \<open>printf\<close> makes. A format that ends in a percent sign is read past its end, and after \<^verbatim>\<open>%c\<close>
  one more character is skipped, the end of the format included.
\<close>

fun printf_text :: "u8 list \<Rightarrow> arg list \<Rightarrow> u8 list option" where
  "printf_text [] args = Some []"
| "printf_text [c] args = (if c = 37 then None else Some [c])"
| "printf_text (c # d # cs) args =
     (if c \<noteq> 37 then map_option (Cons c) (printf_text (d # cs) args)
      else if d = 99 then
        (case args of AInt v # args \<Rightarrow> (case cs of [] \<Rightarrow> None | _ # cs \<Rightarrow> map_option (Cons (of_int v)) (printf_text cs args))
         | _ \<Rightarrow> None)
      else if d = 112 then
        (case args of ALong v # args \<Rightarrow> do { s \<leftarrow> convertPointerAddress2String_libc v; t \<leftarrow> printf_text cs args; Some (s @ t) }
         | _ \<Rightarrow> None)
      else if d = 100 then
        (case args of AInt v # args \<Rightarrow> map_option ((@) (strtoint_libc v [])) (printf_text cs args) | _ \<Rightarrow> None)
      else if d = 115 then
        (case args of AStr s # args \<Rightarrow> map_option ((@) s) (printf_text cs args) | _ \<Rightarrow> None)
      else if d = 120 then
        (case args of AInt v # args \<Rightarrow> do { s \<leftarrow> convertHex2String_libc (of_int v); t \<leftarrow> printf_text cs args; Some (s @ t) }
         | _ \<Rightarrow> None)
      else printf_text cs args)"

text \<open>The loop that empties a buffer up to its first NUL.\<close>

partial_function (option) empty_buffer :: "call \<Rightarrow> u64 \<Rightarrow> kernel \<Rightarrow> kernel option" where
  "empty_buffer c a st = do {
     b \<leftarrow> ld st a;
     if b \<noteq> 0 then do { st \<leftarrow> sb_fault c a 0 st; empty_buffer c (a + 1) st } else Some st
   }"

text \<open>\<^verbatim>\<open>result\<close> is an array of 1000 bytes at a fixed address.\<close>

definition printf :: "u64 \<Rightarrow> u8 list \<Rightarrow> arg list \<Rightarrow> call \<Rightarrow> machine \<Rightarrow> (machine \<times> outcome) option" where
  "printf result string args c m = do {
     st \<leftarrow> empty_buffer c result (kern m);
     text \<leftarrow> printf_text string args;
     if 1000 \<le> length text then None
     else do {
       st \<leftarrow> store_f c result (text @ [0]) st;
       after (syscall_2 1 result c (m\<lparr>kern := st\<rparr>)) (\<lambda>_ m. Some (m, Returns 0))
     }
   }"

definition clear :: "call \<Rightarrow> machine \<Rightarrow> (machine \<times> outcome) option" where
  "clear c m = after (syscall_1 91 c m) (\<lambda>_ m. Some (m, Returns 0))"

definition on_error :: "u64 \<Rightarrow> string \<Rightarrow> call \<Rightarrow> (machine \<times> outcome) option \<Rightarrow> (machine \<times> outcome) option" where
  "on_error result text c r =
     after r (\<lambda>v m. if to_int v \<noteq> 0 then printf result (bytes text) [] c m else Some (m, Returns 0))"

text \<open>\<^verbatim>\<open>scanf\<close> with \<^verbatim>\<open>%d\<close> stores 0 over what was read, first its digits, then the number.\<close>

definition scanf_user :: "u64 \<Rightarrow> u8 list \<Rightarrow> u64 \<Rightarrow> call \<Rightarrow> machine \<Rightarrow> (machine \<times> outcome) option" where
  "scanf_user result str buf c m = do {
     st \<leftarrow> empty_buffer c buf (kern m);
     if 100 \<le> length str then None
     else after (syscall_2 4 buf c (m\<lparr>kern := st\<rparr>))
       (\<lambda>v m. if v \<noteq> 0 then printf result (bytes ''Error in reading from stdin'' @ [10]) [] c m
          else if str = [37, 115] then Some (m, Returns 0)
          else if str = [37, 100] then do {
            st \<leftarrow> empty_buffer c buf (kern m);
            st \<leftarrow> store_f c buf (strtoint_libc 0 [] @ [0]) st;
            st \<leftarrow> store_f c buf [0, 0, 0, 0] st;
            Some (m\<lparr>kern := st\<rparr>, Returns 0)
          }
          else Some (m, Returns 0))
   }"

subsection \<open>Files, directories and memory\<close>

text \<open>The copy of a string argument into the local array of 100 bytes.\<close>

definition copy_arg :: "u64 \<Rightarrow> u64 \<Rightarrow> call \<Rightarrow> machine \<Rightarrow> machine option" where
  "copy_arg filename temp_buf c m = do {
     s \<leftarrow> ld_string (kern m) filename;
     if 100 \<le> length s then None else user_store c temp_buf (s @ [0]) m
   }"

definition open_dir :: "u64 \<Rightarrow> u64 \<Rightarrow> u64 \<Rightarrow> call \<Rightarrow> machine \<Rightarrow> (machine \<times> outcome) option" where
  "open_dir result filename temp_buf c m = do {
     m \<leftarrow> copy_arg filename temp_buf c m;
     after (syscall_2 89 temp_buf c m) (\<lambda>v m.
       if v = 999 then after (printf result [10, 37, 115] [AStr (bytes ''-sbush: cd:  No such file or directory'' @ [10])] c m)
         (\<lambda>_ m. Some (m, Returns v))
       else Some (m, Returns v))
   }"

definition read_dir_user :: "u64 \<Rightarrow> u64 \<Rightarrow> call \<Rightarrow> machine \<Rightarrow> (machine \<times> outcome) option" where
  "read_dir_user result d c m = on_error result ''Error in reading directory'' c (syscall_2 90 d c m)"

definition open_user :: "u64 \<Rightarrow> cint \<Rightarrow> u64 \<Rightarrow> call \<Rightarrow> machine \<Rightarrow> (machine \<times> outcome) option" where
  "open_user filename perm temp_buf c m = do {
     m \<leftarrow> copy_arg filename temp_buf c m;
     after (syscall_3 0 temp_buf (of_int perm) c m) (\<lambda>v m. Some (m, Returns (of_int (to_int v))))
   }"

definition read_user :: "u64 \<Rightarrow> u64 \<Rightarrow> u64 \<Rightarrow> cint \<Rightarrow> call \<Rightarrow> machine \<Rightarrow> (machine \<times> outcome) option" where
  "read_user result d buf sz c m =
     after (syscall_2 50 (of_int sz) c m) (\<lambda>_ m. on_error result ''Error in reading file'' c (syscall_3 2 d buf c m))"

definition chdir_user :: "u64 \<Rightarrow> u64 \<Rightarrow> call \<Rightarrow> machine \<Rightarrow> (machine \<times> outcome) option" where
  "chdir_user result dir c m =
     after (syscall_2 80 dir c m) (\<lambda>v m. if v \<noteq> 0 then printf result (bytes ''Something is not right'') [] c m else Some (m, Returns 0))"

definition getcwd_user :: "u64 \<Rightarrow> call \<Rightarrow> machine \<Rightarrow> (machine \<times> outcome) option" where
  "getcwd_user result c m =
     after (syscall_1 79 c m) (\<lambda>v m. if v \<noteq> 0 then printf result [37, 115] [AStr (bytes ''Error'')] c m else Some (m, Returns 0))"

definition cwd2 :: "u64 \<Rightarrow> u64 \<Rightarrow> call \<Rightarrow> machine \<Rightarrow> (machine \<times> outcome) option" where
  "cwd2 result buf c m =
     after (syscall_2 78 buf c m) (\<lambda>v m. if v \<noteq> 0 then printf result (10 # bytes ''Something fishy'') [] c m else Some (m, Returns 0))"

definition malloc :: "cint \<Rightarrow> call \<Rightarrow> machine \<Rightarrow> (machine \<times> outcome) option" where
  "malloc sz c m = syscall_2 9 (of_int sz) c m"

subsection \<open>Processes and the environment\<close>

definition getpid :: "call \<Rightarrow> machine \<Rightarrow> (machine \<times> outcome) option" where
  "getpid c m = syscall_pid 39 c m"

definition fork :: "call \<Rightarrow> machine \<Rightarrow> (machine \<times> outcome) option" where
  "fork c m = after (syscall_1 57 c m) (\<lambda>v m. Some (m, Returns (of_int (to_int v))))"

definition wait_pid :: "u64 \<Rightarrow> u64 \<Rightarrow> call \<Rightarrow> machine \<Rightarrow> (machine \<times> outcome) option" where
  "wait_pid result p c m =
     after (syscall_2 247 p c m) (\<lambda>v m. if to_int v \<noteq> 0
       then printf result (bytes ''Error in exiting. You are going to exit too'' @ [10]) [] c m else Some (m, Returns 0))"

definition execvpe :: "u64 \<Rightarrow> u64 \<Rightarrow> u64 \<Rightarrow> call \<Rightarrow> machine \<Rightarrow> (machine \<times> outcome) option" where
  "execvpe result filename ex_argv c m =
     after (syscall_3 59 filename ex_argv c m) (\<lambda>v m. if to_int v \<noteq> 0
       then printf result (bytes ''Error in executing binary'' @ [10]) [] c m else Some (m, Returns 0))"

definition exit_user :: "u64 \<Rightarrow> call \<Rightarrow> machine \<Rightarrow> (machine \<times> outcome) option" where
  "exit_user result c m =
     after (syscall_1 60 c m) (\<lambda>v m. if to_int v \<noteq> 0 then printf result (bytes ''Error in exiting '' @ [10]) [] c m else Some (m, Returns 0))"

definition kill_user :: "u64 \<Rightarrow> u64 \<Rightarrow> call \<Rightarrow> machine \<Rightarrow> (machine \<times> outcome) option" where
  "kill_user result p c m =
     after (syscall_2 62 p c m) (\<lambda>v m. if to_int v \<noteq> 0 then printf result (bytes ''Process Kill unsuccessful'' @ [10]) [] c m else Some (m, Returns 0))"

text \<open>
  \<open>setEchoValue\<close>: the scan counts equals signs and quotes, and from the first quote on moves every byte
  down by one. The result is the bytes the string is overwritten with, and the two counts.
\<close>

fun quote_scan :: "bool \<Rightarrow> u8 list \<Rightarrow> u8 list \<times> nat \<times> nat" where
  "quote_scan flag [] = ([], 0, 0)"
| "quote_scan flag (c # cs) =
     (let q = (c = 34 \<or> c = 39);
          flag = (flag \<or> q);
          (r, qs, es) = quote_scan flag cs
      in ((if flag then (case cs of [] \<Rightarrow> 0 | d # _ \<Rightarrow> d) else c) # r,
          if q then Suc qs else qs, if c = 61 then Suc es else es))"

definition setEchoValue :: "u64 \<Rightarrow> u64 \<Rightarrow> call \<Rightarrow> machine \<Rightarrow> (machine \<times> outcome) option" where
  "setEchoValue result s c m = do {
     str \<leftarrow> ld_string (kern m) s;
     let (r, qcount, eqcount) = quote_scan False str;
     m \<leftarrow> user_store c s r m;
     if eqcount = 1 \<and> qcount = 2 then do {
       str \<leftarrow> ld_string (kern m) s;
       m \<leftarrow> user_store c (s + of_nat (length str) + 1) [0, 0] m;
       m \<leftarrow> user_store c (s + of_nat (length str) - 1) [0] m;
       after (syscall_2 5 s c m) (\<lambda>v m. if v = 999 then printf result (bytes ''Some issue with Echo'') [] c m else Some (m, Returns 0))
     }
     else printf result (bytes ''-sbush: wrong export statement'') [] c m
   }"

definition printEchoVar :: "u64 \<Rightarrow> u64 \<Rightarrow> call \<Rightarrow> machine \<Rightarrow> (machine \<times> outcome) option" where
  "printEchoVar result s c m =
     after (syscall_2 6 s c m) (\<lambda>v m. if v = 999 then printf result (bytes ''Some issue with Echo'') [] c m else Some (m, Returns 0))"

section \<open>Printing\<close>

lemma empty_buffer_eq:
  assumes "table_inv (pm st) A (reg_cr3 st) L" "own_bytes st L a n P" "k < n" "pbyte (pm st) (P k) = 0"
  shows "\<exists>g. empty_buffer c a st = Some (st\<lparr>pm := g\<rparr>) \<and> only_bytes (P ` {..<n}) A L st g"
  using assms
proof (induction k arbitrary: st a n P)
  case 0
  then have "ld st a = Some 0" using own_bytesD [OF 0(2), of 0] by (simp add: ld_def)
  then have "empty_buffer c a st = Some st" by (subst empty_buffer.simps) simp
  then show ?case by (intro exI [of _ "pm st"]) (simp add: only_bytes_refl 0(1) only_bytes_def)
next
  case (Suc k)
  obtain n' where n: "n = Suc n'" using Suc.prems(3) by (cases n) auto
  have p0: "phys_of st a = Some (P 0)" "L (remove_flag (P 0)) = None" using own_bytesD [OF Suc.prems(2), of 0] n by simp_all
  show ?case
  proof (cases "pbyte (pm st) (P 0) = 0")
    case True
    then have "ld st a = Some 0" using p0 by (simp add: ld_def)
    then have "empty_buffer c a st = Some st" by (subst empty_buffer.simps) simp
    then show ?thesis by (intro exI [of _ "pm st"]) (simp add: only_bytes_refl Suc.prems(1) only_bytes_def)
  next
    case False
    define st1 where "st1 = st\<lparr>pm := pset (pm st) (P 0) 0\<rparr>"
    note s1 = sb_fault_mapped [OF Suc.prems(1) p0, where b = 0, folded st1_def]
    have "own_bytes st1 L (a + 1) n' (\<lambda>j. P (Suc j))"
      using own_bytes_tl Suc.prems(2) own_bytes_cong [OF only_bytesD(4) [OF s1(2)]] by (simp add: st1_def n)
    moreover have "P (Suc k) \<noteq> P 0" using own_bytes_inj [OF Suc.prems(2), of "Suc k" 0] Suc.prems(3) by simp
    ultimately obtain g where g: "empty_buffer c (a + 1) st1 = Some (st1\<lparr>pm := g\<rparr>)"
        "only_bytes ((\<lambda>j. P (Suc j)) ` {..<n'}) A L st1 g"
      using Suc.IH [of st1 "a + 1" n' "\<lambda>j. P (Suc j)"] Suc.prems(3,4) only_bytesD(1) [OF s1(2)] n
      by (auto simp: st1_def pbyte_pset)
    have "empty_buffer c a st = Some (st\<lparr>pm := g\<rparr>)"
      using False p0 s1(1) g(1) by (subst empty_buffer.simps) (simp add: ld_def st1_def)
    moreover have "only_bytes (P ` {..<n}) A L st g"
      by (rule only_bytes_trans [OF s1(2) g(2) [unfolded st1_def]]) (auto simp: n)
    ultimately show ?thesis by blast
  qed
qed

lemma emit_str_all: "10 \<notin> set s \<Longrightarrow> emit_str s d = Some (emit_all s d)"
  by (induction s d rule: emit_str.induct) (auto simp: emit_all_def)

lemma kprintf_str: "10 \<notin> set s \<Longrightarrow> kprintf [37, 115] [AStr s] d = Some (emit_all s d)"
  by (simp add: convert_def emit_str_all)

text \<open>\<open>printf\<close> of a text of one line, with its buffer in memory.\<close>

lemma printf_spec:
  assumes inv: "table_inv (pm (kern m)) A (reg_cr3 (kern m)) L" and own: "own_bytes (kern m) L result 1000 P"
    and nul: "k < 1000" "pbyte (pm (kern m)) (P k) = 0"
    and t: "printf_text fmt args = Some t" "length t < 1000" "0 \<notin> set t" "10 \<notin> set t"
  shows "\<exists>g. printf result fmt args c m =
      Some (m\<lparr>kern := (kern m)\<lparr>pm := g\<rparr>, kbd := (kbd m)\<lparr>con := emit_all t (con (kbd m))\<rparr>\<rparr>, Returns 0) \<and>
    only_bytes (P ` {..<1000}) A L (kern m) g \<and> holds ((kern m)\<lparr>pm := g\<rparr>) result t"
proof -
  let ?st = "kern m"
  obtain g1 where g1: "empty_buffer c result ?st = Some (?st\<lparr>pm := g1\<rparr>)" "only_bytes (P ` {..<1000}) A L ?st g1"
    using empty_buffer_eq [OF inv own nul] by blast
  let ?st1 = "?st\<lparr>pm := g1\<rparr>"
  have "own_bytes ?st1 L result 1000 P" using own own_bytes_cong [OF only_bytesD(4) [OF g1(2)]] by simp
  moreover have "table_inv (pm ?st1) A (reg_cr3 ?st1) L" using only_bytesD(1) [OF g1(2)] by simp
  ultimately obtain g where g: "store_f c result (t @ [0]) ?st1 = Some (?st1\<lparr>pm := g\<rparr>)"
      "only_bytes (P ` {..<Suc (length t)}) A L ?st1 g" "holds (?st1\<lparr>pm := g\<rparr>) result t"
    using store_string [of ?st1 A L result 1000 P t c] t(2,3) by auto
  have "only_bytes (P ` {..<1000}) A L ?st g"
    by (rule only_bytes_trans [OF g1(2) g(2)]) (use t(2) in auto)
  moreover have "printf result fmt args c m = Some (m\<lparr>kern := ?st\<lparr>pm := g\<rparr>, kbd := (kbd m)\<lparr>con := emit_all t (con (kbd m))\<rparr>\<rparr>, Returns 0)"
    using g1(1) g(1) t(1,2) ld_print_holds [OF g(3) t(4)] kprintf_str [OF t(4)]
    by (simp add: printf_def syscall_2_def syscall_handler_def after_def set_con_def Let_def)
  ultimately show ?thesis using g(3) by auto
qed

section \<open>Setting and showing a variable\<close>

lemma own_bytes_drop:
  assumes "own_bytes st L a n P" "i \<le> n"
  shows "own_bytes st L (a + of_nat i) (n - i) (\<lambda>j. P (i + j))"
proof -
  have "phys_of st (a + of_nat i + of_nat j) = Some (P (i + j)) \<and> L (remove_flag (P (i + j))) = None" if "j < n - i" for j
    using own_bytesD [OF assms(1), of "i + j"] that assms(2) by (simp add: add.assoc)
  moreover have "inj_on (\<lambda>j. P (i + j)) {..<n - i}"
    using own_bytes_inj [OF assms(1), of "i + x" "i + y" for x y] assms(2) by (auto intro!: inj_onI)
  ultimately show ?thesis by (simp add: own_bytes_def)
qed

text \<open>Stores inside a range that is owned, at an offset.\<close>

lemma user_store_at:
  assumes inv: "table_inv (pm (kern m)) A (reg_cr3 (kern m)) L" and own: "own_bytes (kern m) L a n P" and i: "i + length bs \<le> n"
  shows "\<exists>g. user_store c (a + of_nat i) bs m = Some (m\<lparr>kern := (kern m)\<lparr>pm := g\<rparr>\<rparr>) \<and> only_bytes (P ` {i..<i + length bs}) A L (kern m) g \<and>
    (\<forall>j<length bs. pbyte g (P (i + j)) = bs ! j)"
proof -
  have "(\<lambda>j. P (i + j)) ` {..<length bs} = P ` {i..<i + length bs}"
  proof -
    have "{i..<i + length bs} = (+) i ` {..<length bs}" by (simp add: lessThan_atLeast0 add.commute)
    then show ?thesis by (simp add: image_image)
  qed
  moreover have "own_bytes (kern m) L (a + of_nat i) (n - i) (\<lambda>j. P (i + j))" by (rule own_bytes_drop [OF own]) (use i in simp)
  moreover have "length bs \<le> n - i" using i by simp
  ultimately obtain g where "store_f c (a + of_nat i) bs (kern m) = Some ((kern m)\<lparr>pm := g\<rparr>)"
      "only_bytes (P ` {i..<i + length bs}) A L (kern m) g" "\<forall>j<length bs. pbyte g (P (i + j)) = bs ! j"
    using store_f_eq [OF inv, of "a + of_nat i" "n - i" "\<lambda>j. P (i + j)" bs c] by auto
  then show ?thesis by (intro exI [of _ g]) (simp add: user_store_def)
qed

lemma quote_scan_prefix:
  "set k \<inter> {34, 39, 61} = {} \<Longrightarrow> quote_scan False (k @ s) = (case quote_scan False s of (r, qs, es) \<Rightarrow> (k @ r, qs, es))"
  by (induction k) (auto simp: Let_def split: prod.splits)

lemma quote_scan_shift:
  "set v \<inter> {34, 39, 61} = {} \<Longrightarrow> q = 34 \<or> q = 39 \<Longrightarrow> quote_scan True (v @ [q]) = (tl (v @ [q]) @ [0], 1, 0)"
proof (induction v)
  case (Cons c v)
  then show ?case by (cases v) (auto simp: Let_def)
qed auto

lemma quote_scan_export:
  assumes "set k \<inter> {34, 39, 61} = {}" "set v \<inter> {34, 39, 61} = {}" "q \<in> {34, 39}" "q' \<in> {34, 39}"
  shows "quote_scan False (k @ [61, q] @ v @ [q']) = (k @ 61 # v @ [q', 0], 2, 1)"
proof -
  have "quote_scan False ([61, q] @ v @ [q']) = (61 # v @ [q', 0], 2, 1)"
    using quote_scan_shift [OF assms(2), of q'] assms(3,4) by (cases v) (auto simp: Let_def)
  with quote_scan_prefix [OF assms(1)] show ?thesis by simp
qed

lemma holds_stored_at:
  assumes own: "own_bytes st L a n P" and len: "length s < n"
    and g: "only_bytes X A L st g" "\<forall>j\<le>length s. pbyte g (P j) = (s @ [0]) ! j" and nz: "0 \<notin> set s"
  shows "holds (st\<lparr>pm := g\<rparr>) a s"
proof -
  have "ld (st\<lparr>pm := g\<rparr>) (a + of_nat j) = Some ((s @ [0]) ! j)" if "j \<le> length s" for j
    using own_bytesD [OF own, of j] only_bytesD(4) [OF g(1)] g(2) len that by (simp add: ld_def)
  then show ?thesis using nz by (simp add: holds_nth nth_append)
qed

lemma kern_upd: "kern (m\<lparr>kern := x\<rparr>) = x"
  by simp

lemma pm_upd: "st\<lparr>pm := f\<rparr>\<lparr>pm := g\<rparr> = st\<lparr>pm := g\<rparr>"
  by simp

lemma export_memory:
  assumes inv: "table_inv (pm (kern m)) A (reg_cr3 (kern m)) L" and own: "own_bytes (kern m) L s n P" and n: "n = length k + length v + 5"
    and str: "holds (kern m) s (k @ [61, q] @ v @ [q'])"
    and chars: "set k \<inter> {34, 39, 61} = {}" "set v \<inter> {34, 39, 61} = {}" "q \<in> {34, 39}" "q' \<in> {34, 39}"
  shows "\<exists>g. setEchoValue result s c m =
      after (syscall_2 5 s c (m\<lparr>kern := (kern m)\<lparr>pm := g\<rparr>\<rparr>))
        (\<lambda>x m. if x = 999 then printf result (bytes ''Some issue with Echo'') [] c m else Some (m, Returns 0)) \<and>
    only_bytes (P ` {..<n}) A L (kern m) g \<and> holds ((kern m)\<lparr>pm := g\<rparr>) s (k @ 61 # v)"
proof -
  let ?st = "kern m" and ?t = "k @ 61 # v @ [q']" and ?u = "k @ 61 # v"
  have nz: "0 \<notin> set ?t" using str chars(4) by (auto simp: holds_nth)
  have lt: "length ?t = length k + length v + 2" by simp
  obtain g1 where g1: "user_store c s (?t @ [0]) m = Some (m\<lparr>kern := ?st\<lparr>pm := g1\<rparr>\<rparr>)" "only_bytes (P ` {0..<length (?t @ [0])}) A L ?st g1"
      "\<forall>j<length (?t @ [0]). pbyte g1 (P j) = (?t @ [0]) ! j"
    using user_store_at [OF inv own, of 0 "?t @ [0]" c] n by auto
  let ?m1 = "m\<lparr>kern := ?st\<lparr>pm := g1\<rparr>\<rparr>"
  have t1: "table_inv (pm (kern ?m1)) A (reg_cr3 (kern ?m1)) L" "own_bytes (kern ?m1) L s n P"
    using only_bytesD(1) [OF g1(2)] own own_bytes_cong [OF only_bytesD(4) [OF g1(2)]] by simp_all
  have h1: "holds (kern ?m1) s ?t"
    using holds_stored_at [OF own _ g1(2) _ nz] g1(3) n by (simp add: less_Suc_eq_le)
  obtain g2 where g2: "user_store c (s + of_nat (length ?t + 1)) [0, 0] ?m1 = Some (?m1\<lparr>kern := (kern ?m1)\<lparr>pm := g2\<rparr>\<rparr>)"
      "only_bytes (P ` {length ?t + 1..<length ?t + 1 + length [0, 0 :: u8]}) A L (kern ?m1) g2"
    using user_store_at [OF t1, of "length ?t + 1" "[0, 0]" c] n by auto
  let ?m2 = "?m1\<lparr>kern := (kern ?m1)\<lparr>pm := g2\<rparr>\<rparr>"
  have t2: "table_inv (pm (kern ?m2)) A (reg_cr3 (kern ?m2)) L" "own_bytes (kern ?m2) L s n P"
    using only_bytesD(1) [OF g2(2)] t1(2) own_bytes_cong [OF only_bytesD(4) [OF g2(2)]] by simp_all
  obtain g3 where g3: "user_store c (s + of_nat (length ?u)) [0] ?m2 = Some (?m2\<lparr>kern := (kern ?m2)\<lparr>pm := g3\<rparr>\<rparr>)"
      "only_bytes (P ` {length ?u..<length ?u + length [0 :: u8]}) A L (kern ?m2) g3" "pbyte g3 (P (length ?u)) = 0"
    using user_store_at [OF t2, of "length ?u" "[0]" c] n by auto
  have keep: "P j \<notin> P ` {x..<y}" if "j < x" "y \<le> n" "x \<le> y" for j x y
    using own_bytes_inj [OF own] that by (auto dest: less_le_trans)
  have b: "pbyte g3 (P j) = (?u @ [0]) ! j" if j: "j \<le> length ?u" for j
  proof (cases "j = length ?u")
    case True
    with g3(3) show ?thesis by (simp add: nth_append)
  next
    case False
    with j have lj: "j < length ?u" by simp
    have "pbyte g3 (P j) = pbyte g2 (P j)" using only_bytesD(3) [OF g3(2) keep] lj n by simp
    also have "\<dots> = pbyte g1 (P j)" using only_bytesD(3) [OF g2(2) keep] lj n by simp
    also have "\<dots> = (?u @ [q', 0]) ! j" using g1(3) lj by simp
    also have "\<dots> = (?u @ [0]) ! j" unfolding nth_append [of ?u] using lj by simp
    finally show ?thesis .
  qed
  have nzu: "0 \<notin> set ?u" using nz by auto
  have o12: "only_bytes (P ` {..<n}) A L ?st g2"
    by (rule only_bytes_trans [OF g1(2) g2(2) [unfolded kern_upd]]) (use n in \<open>auto\<close>)
  have o: "only_bytes (P ` {..<n}) A L ?st g3"
    by (rule only_bytes_trans [OF o12 g3(2) [unfolded kern_upd pm_upd]]) (use n in \<open>auto\<close>)
  have h: "holds (?st\<lparr>pm := g3\<rparr>) s ?u" by (rule holds_stored_at [OF own _ o _ nzu]) (use b n in simp_all)
  have pos: "s + of_nat (length ?t) + 1 = s + of_nat (length ?t + 1)" "s + of_nat (length ?t) - 1 = s + of_nat (length ?u)" by simp_all
  have "setEchoValue result s c m = after (syscall_2 5 s c (m\<lparr>kern := ?st\<lparr>pm := g3\<rparr>\<rparr>))
        (\<lambda>x m. if x = 999 then printf result (bytes ''Some issue with Echo'') [] c m else Some (m, Returns 0))"
    using g1(1) g2(1) [folded pos(1)] g3(1) [folded pos(2)] ld_string_holds [OF str] ld_string_holds [OF h1] quote_scan_export [OF chars]
    unfolding setEchoValue_def by (simp del: of_nat_add of_nat_Suc)
  with o h show ?thesis by blast
qed

lemma export_then_echo_spec:
  assumes inv: "table_inv (pm (kern m)) A (reg_cr3 (kern m)) L" and own: "own_bytes (kern m) L s n P" and n: "n = length k + length v + 5"
    and str: "holds (kern m) s (k @ [61, q] @ v @ [q'])"
    and chars: "set k \<inter> {34, 39, 61} = {}" "set v \<inter> {34, 39, 61} = {}" "q \<in> {34, 39}" "q' \<in> {34, 39}"
    and env: "env_ok (pcbs (kern m) (curr_process (kern m)))" "env_fit k v" "fits 100 (k @ 61 # v)" "37 \<notin> set v" "out (kern m) = []"
    and p: "holds (kern m) p k" "\<forall>j\<le>length k. \<forall>i<n. phys_of (kern m) (p + of_nat j) \<noteq> Some (P i)"
  shows "\<exists>m1 m2. setEchoValue result s c m = Some (m1, Returns 0) \<and> printEchoVar result p c m1 = Some (m2, Returns 0) \<and>
    con (kbd m2) = fold plain (v @ [10]) (con (kbd m)) \<and> env_ok (pcbs (kern m2) (curr_process (kern m2)))"
proof -
  let ?st = "kern m"
  obtain g where g: "setEchoValue result s c m = after (syscall_2 5 s c (m\<lparr>kern := ?st\<lparr>pm := g\<rparr>\<rparr>))
      (\<lambda>x m. if x = 999 then printf result (bytes ''Some issue with Echo'') [] c m else Some (m, Returns 0))"
    "only_bytes (P ` {..<n}) A L ?st g" "holds (?st\<lparr>pm := g\<rparr>) s (k @ 61 # v)"
    using export_memory [OF inv own n str chars] by blast
  define st1 where "st1 = ?st\<lparr>pm := g\<rparr>"
  obtain e where e: "setEnv_pcb k v (pcbs st1 (curr_process st1)) = Some e"
    using env.put_fit [OF env(1,2)] by (auto simp: st1_def)
  have ok: "env_ok e" "getEnv k e = Some v" using env.put_ok [OF env(1,2)] env.get_same [OF env(1,2)] e by (simp_all add: st1_def)
  define st2 where "st2 = upd_pcb (curr_process st1) (\<lambda>_. e) st1"
  have set: "setEnv (k @ 61 # v) st1 = Some st2"
    using setEnv_put [of k v st1] env(2,3) e by (simp add: env_fit_def st2_def)
  have out2: "out st2 = []" "st2\<lparr>out := []\<rparr> = st2" using env(5) by (simp_all add: st2_def st1_def upd_pcb_def)
  define m1 where "m1 = m\<lparr>kern := st2\<rparr>"
  have show2: "set_kern st2 (m\<lparr>kern := st1\<rparr>) = m1" using out2 by (simp add: set_kern_def show_out_def m1_def)
  have "setEchoValue result s c m = Some (m1, Returns 0)"
    using set ld_string_holds [OF g(3)] show2
    by (simp add: g(1) syscall_2_def syscall_handler_def after_def st1_def [symmetric] Let_def)
  moreover have "holds st2 p k"
  proof -
    have "phys_of st2 va = phys_of st1 va" for va by (rule phys_of_cong) (simp add: st2_def upd_pcb_def)
    then have same: "phys_of st2 va = phys_of ?st va" for va using only_bytesD(4) [OF g(2)] by (simp add: st1_def)
    have pm2: "pm st2 = g" by (simp add: st2_def st1_def upd_pcb_def)
    have "ld st2 (p + of_nat j) = ld ?st (p + of_nat j)" if "j \<le> length k" for j
    proof (cases "phys_of ?st (p + of_nat j)")
      case (Some x)
      then have "x \<notin> P ` {..<n}" using p(2) that by auto
      with Some show ?thesis using only_bytesD(3) [OF g(2)] by (simp add: ld_def same pm2)
    qed (simp add: ld_def same)
    then show ?thesis using p(1) holds_cong by blast
  qed
  then have "ld_string (kern m1) p = Some k" by (simp add: ld_string_holds m1_def)
  moreover have "printEnv k st2 = Some (print [10] (print v st2))"
    using ok(2) env(4) by (intro printEnv_get) (simp_all add: st2_def upd_pcb_def)
  ultimately show ?thesis
    using ok(1) out2(1) by (simp add: printEchoVar_def syscall_2_def syscall_handler_def after_def Let_def set_kern_def show_out_def
        m1_def print_def) (simp add: st2_def upd_pcb_def)
qed

section \<open>Properties\<close>


text \<open>A program with its buffer in the page of the file of the loader's example.\<close>

definition demo_machine :: machine where
  "demo_machine = \<lparr>kern = demo_file, kbd = demo_keyboard\<lparr>con := demo_console\<lparr>x_pos := 0\<rparr>\<rparr>, tic = 0, sec = 0, read_size = 0\<rparr>"

definition demo_call :: call where
  "demo_call = \<lparr>rbx = 0, rcx = 0, rdx = 0, ksp = 0, sbush_entry = 0, junk_rows = [], key_events = [], tick_count = 0\<rparr>"

lemma demo_machine_simps [simp]: "kern demo_machine = demo_file" "con (kbd demo_machine) = demo_console\<lparr>x_pos := 0\<rparr>"
  by (simp_all add: demo_machine_def)

lemma demo_own: "n \<le> 4096 \<Longrightarrow> own_bytes demo_file demo_levels 0xFFFFFFFF8000C000 n (\<lambda>j. 0xC000 + of_nat j)"
proof -
  assume n: "n \<le> 4096"
  have "phys_of demo_file (0xFFFFFFFF8000C000 + of_nat j) = Some (0xC000 + of_nat j) \<and> demo_levels (remove_flag (0xC000 + of_nat j)) = None"
    if "j < 4096" for j
  proof -
    have u: "unat (0xFFFFFFFF8000C000 + of_nat j :: u64) = 0xFFFFFFFF8000C000 + j" "unat (0xC000 + of_nat j :: u64) = 0xC000 + j"
      using that by (subst unat_offset; simp)+
    have "unat (of_nat j :: u64) = j" using that by (simp add: unat_of_nat take_bit_nat_eq_self)
    then have low: "(0xFFFFFFFF8000C000 + of_nat j) AND mask 12 = (of_nat j :: u64)"
      using u(1) that by (simp add: word_unat_eq_iff unat_low12 mod_add_left_eq [symmetric, of "0xFFFFFFFF8000C000"])
    have "(0xFFFFFFFF8000C000 + j) div 4096 = 0xFFFFFFFF8000C" using that by (intro div_nat_eqI) simp_all
    then have "indices (0xFFFFFFFF8000C000 + of_nat j) = indices 0xFFFFFFFF8000C000"
      using u(1) by (simp add: indices_eq_iff page_no_def)
    moreover have "remove_flag (0xC000 + of_nat j) = 0xC000"
      using u(2) that by (simp add: word_unat_eq_iff unat_remove_flag mod_add_left_eq [symmetric, of "0xC000"])
    moreover have "remove_flag 0xC003 = 0xC000" by (simp add: remove_flag_def)
    ultimately show ?thesis using low by (simp add: phys_of_def frame_of_def demo_file_tables(3) demo_levels_def)
  qed
  moreover have "inj_on (\<lambda>j. 0xC000 + of_nat j :: u64) {..<n}"
  proof (rule inj_onI)
    fix i j assume ij: "i \<in> {..<n}" "j \<in> {..<n}" and eq: "(0xC000 + of_nat i :: u64) = 0xC000 + of_nat j"
    from ij n have "unat (0xC000 + of_nat i :: u64) = unat (0xC000 :: u64) + i" "unat (0xC000 + of_nat j :: u64) = unat (0xC000 :: u64) + j"
      by (intro unat_offset; simp)+
    with eq show "i = j" by (metis add_left_cancel)
  qed
  ultimately show ?thesis using n by (simp add: own_bytes_def)
qed



text \<open>The same machine with \<^verbatim>\<open>AB="hi"\<close> at the start of the page.\<close>

definition demo_export :: machine where
  "demo_export = demo_machine\<lparr>kern := demo_file\<lparr>pm := demo_file_pm(0xC000 := 0x00226968223D4241)\<rparr>\<rparr>"

lemma demo_export_tables:
  "table_inv (pm (kern demo_export)) (avail demo) 0x1000 demo_levels" "phys_of (kern demo_export) va = phys_of demo_file va"
proof -
  let ?g = "demo_file_pm(0xC000 := 0x00226968223D4241)"
  have eq: "?g x = demo_file_pm x" if "remove_flag x \<noteq> 0xC000" for x using that by (auto simp: remove_flag_def)
  have no: "demo_levels 0xC000 = None" and r: "\<And>va. demo_levels 0x1000 = Some (length (indices va))"
    by (simp_all add: demo_levels_def indices_def)
  note wf = table_inv_wf [OF demo_file_tables(1)]
  have wf': "wf_tables ?g 0x1000 demo_levels" by (rule data_write_wf [OF wf eq no])
  then show "table_inv (pm (kern demo_export)) (avail demo) 0x1000 demo_levels"
    using demo_file_tables(1) by (simp add: table_inv_def demo_export_def)
  have "entry_at ?g 0x1000 (indices va) = entry_at demo_file_pm 0x1000 (indices va)"
    by (rule data_write_leaf_of(2) [OF wf eq no r indices_less])
  then show "phys_of (kern demo_export) va = phys_of demo_file va"
    by (simp add: phys_of_def frame_of_def translate_def demo_export_def)
qed


end
