(* ===== verification/Programs.thy ===== *)
theory Programs
  imports UserLib
begin

unbundle bit_operations_syntax

text \<open>
  The user programs: \<^verbatim>\<open>crt/crt1.c\<close>, the programs of \<^verbatim>\<open>bin\<close> but the shell, and what they are built on.
  A program runs on its own memory, a total map as the process sees it (page faults do not show), and
  calls the library functions of \<open>UserLib\<close>. The kernel is its environment: a call hands over the memory,
  and the program goes on with the memory and the value the call returns, whenever the process runs again.
\<close>

section \<open>Programs and their traces\<close>

text \<open>A pointer argument is an address in the memory the call hands over; a string literal is its text.\<close>

datatype text_arg = Lit "u8 list" | Ptr u64

datatype ucall =
    Clear
  | Getcwd
  | Scanf "u8 list" u64
  | Cwd2 u64
  | Chdir u64
  | SetEchoValue u64
  | PrintEchoVar u64
  | Fork
  | WaitPid u64
  | Execvpe "u8 list" u64
  | Exit
  | Printf text_arg "text_arg list"
  | Open u64 cint
  | Read u64 u64 cint
  | OpenDir u64
  | ReadDir u64
  | Malloc cint
  | Trap1 u64
  | Trap2 u64 u64

text \<open>\<open>Undefined\<close>: the code runs out of its arrays or does not get to its next call.\<close>

datatype prog =
    Finish mem u64
  | Undefined
  | Do ucall mem "mem \<times> u64 \<Rightarrow> prog"

primrec seq :: "prog \<Rightarrow> (mem \<times> u64 \<Rightarrow> prog) \<Rightarrow> prog" where
  "seq (Finish m r) f = f (m, r)"
| "seq Undefined f = Undefined"
| "seq (Do c m k) f = Do c m (\<lambda>x. seq (k x) f)"

definition lift_mem :: "mem option \<Rightarrow> (mem \<Rightarrow> prog) \<Rightarrow> prog" where
  "lift_mem r f = (case r of None \<Rightarrow> Undefined | Some m \<Rightarrow> f m)"

definition lift_val :: "'a option \<Rightarrow> ('a \<Rightarrow> prog) \<Rightarrow> prog" where
  "lift_val r f = (case r of None \<Rightarrow> Undefined | Some v \<Rightarrow> f v)"

lemma lift_simps [simp]: "lift_mem (Some m) f = f m" "lift_mem None f = Undefined" "lift_val (Some v) g = g v" "lift_val None g = Undefined"
  by (simp_all add: lift_mem_def lift_val_def)

text \<open>A call for its effect, or with a continuation.\<close>

definition do_call :: "ucall \<Rightarrow> mem \<Rightarrow> prog" where
  "do_call c m = Do c m (\<lambda>(m, r). Finish m r)"

text \<open>
  The calls a program makes, with the memory each is made with, when the environment answers as \<open>h\<close> does
  from its state \<open>s\<close>.
\<close>

type_synonym 's env = "'s \<Rightarrow> ucall \<Rightarrow> mem \<Rightarrow> 's \<times> mem \<times> u64"

primrec trace :: "'s env \<Rightarrow> prog \<Rightarrow> 's \<Rightarrow> (ucall \<times> mem) list" where
  "trace h (Finish m r) s = []"
| "trace h Undefined s = []"
| "trace h (Do c m k) s = (c, m) # trace h (k (snd (h s c m))) (fst (h s c m))"

text \<open>Where the program ends, if it does.\<close>

primrec final :: "'s env \<Rightarrow> prog \<Rightarrow> 's \<Rightarrow> ('s \<times> mem \<times> u64) option" where
  "final h (Finish m r) s = Some (s, m, r)"
| "final h Undefined s = None"
| "final h (Do c m k) s = final h (k (snd (h s c m))) (fst (h s c m))"

lemma trace_seq:
  "trace h (seq p f) s = trace h p s @ (case final h p s of None \<Rightarrow> [] | Some (s, m, r) \<Rightarrow> trace h (f (m, r)) s)"
  by (induction p arbitrary: s) auto

lemma final_seq: "final h (seq p f) s = (case final h p s of None \<Rightarrow> None | Some (s, m, r) \<Rightarrow> final h (f (m, r)) s)"
  by (induction p arbitrary: s) auto

section \<open>The programs\<close>

text \<open>\<^verbatim>\<open>ps.c\<close>, \<^verbatim>\<open>kill.c\<close>, \<^verbatim>\<open>sleep.c\<close>. \<open>argv\<close> is the list of the pointers to the arguments.\<close>

definition main_ps :: "mem \<Rightarrow> prog" where
  "main_ps m = Do (Trap1 270) m (\<lambda>(m, ret_val).
     if ret_val \<noteq> 0 then Do (Printf (Lit (bytes ''Something is fishy'' @ [10])) []) m (\<lambda>(m, _). Finish m 0) else Finish m 0)"

definition main_kill :: "u64 list \<Rightarrow> mem \<Rightarrow> prog" where
  "main_kill argv m =
     (if argv = [] then Do (Printf (Lit (bytes ''kill: Invalid arguments  <usage: kill -9 pid>'' @ [10])) []) m (\<lambda>(m, _). Finish m 0)
      else if length argv < 2 then Undefined
      else lift_val (atoi_libc m (argv ! 1)) (\<lambda>pid. Do (Trap2 62 (of_int pid)) m (\<lambda>(m, ret).
        if to_int ret \<noteq> 0 then Do (Printf (Lit (bytes ''Process Kill unsuccessful'' @ [10])) []) m (\<lambda>(m, _). Finish m 0)
        else Finish m 0)))"

definition main_sleep :: "u64 list \<Rightarrow> mem \<Rightarrow> prog" where
  "main_sleep argv m =
     (if argv = [] then Undefined
      else lift_val (atoi_libc m (argv ! 0)) (\<lambda>duration. Do (Trap2 35 (of_int duration)) m (\<lambda>(m, ret).
        if to_int ret \<noteq> 0 then Do (Printf (Lit (bytes ''Something is fishy!! Not able to sleep'' @ [10])) []) m (\<lambda>(m, _). Finish m 0)
        else Finish m 0)))"

text \<open>\<^verbatim>\<open>init.c\<close>: the loop starts a shell and waits for it, again and again; the first \<open>n\<close> turns.\<close>

fun init_loop_user :: "nat \<Rightarrow> u64 \<Rightarrow> mem \<Rightarrow> prog" where
  "init_loop_user 0 str m = Finish m 0"
| "init_loop_user (Suc n) str m = Do Clear m (\<lambda>(m, _). Do Fork m (\<lambda>(m, pid).
     if pid \<noteq> 0 then Do (WaitPid pid) m (\<lambda>(m, _). init_loop_user n str m)
     else Do (Execvpe (bytes ''bin/sbush'') str) m (\<lambda>(m, _). init_loop_user n str m)))"

definition main_init :: "nat \<Rightarrow> u64 \<Rightarrow> mem \<Rightarrow> prog" where
  "main_init n str m =
     (let m = write_bytes m str ([32, 32, 32, 32] @ replicate 6 0)
      in Do Clear m (\<lambda>(m, _). init_loop_user n str m))"

text \<open>\<^verbatim>\<open>echo.c\<close>: \<open>temp\<close> is the local array of 100 bytes.\<close>

definition echo_word :: "u64 \<Rightarrow> u64 \<Rightarrow> mem \<Rightarrow> prog" where
  "echo_word temp arg m =
     (if m arg = 36 then Do (PrintEchoVar (arg + 1)) m (\<lambda>(m, _). Finish m 0)
      else lift_val (strlen_libc arg m) (\<lambda>(m, len). lift_mem (strcpy_libc temp arg m) (\<lambda>m.
        if m temp = 39 \<or> m temp = 34
        then let ss = temp + 1; m = m(ss + of_int (len - 2) := 0)
             in Do (Printf (Ptr ss) []) m (\<lambda>(m, _). Do (Printf (Lit [37, 115]) [Lit [10]]) m (\<lambda>(m, _). Finish m 0))
        else Do (Printf (Ptr temp) []) m (\<lambda>(m, _). Do (Printf (Lit [37, 115]) [Lit [10]]) m (\<lambda>(m, _). Finish m 0)))))"

fun echo_loop :: "u64 \<Rightarrow> u64 list \<Rightarrow> mem \<Rightarrow> prog" where
  "echo_loop temp [] m = Finish m 0"
| "echo_loop temp (arg # argv) m = seq (echo_word temp arg m) (\<lambda>(m, _). echo_loop temp argv m)"

definition main_echo :: "u64 \<Rightarrow> u64 list \<Rightarrow> mem \<Rightarrow> prog" where
  "main_echo temp argv m = echo_loop temp argv (write_bytes m temp (replicate 100 0))"

text \<open>\<^verbatim>\<open>cat.c\<close> and \<^verbatim>\<open>ls.c\<close>; the loop over the arguments is the recursion over their list.\<close>

fun cat_loop :: "u64 \<Rightarrow> u64 list \<Rightarrow> mem \<Rightarrow> prog" where
  "cat_loop text [] m = Finish m 0"
| "cat_loop text (arg # argv) m = Do (Open arg 0) m (\<lambda>(m, fd).
     Do (Read fd text 1000) (m(text := 0)) (\<lambda>(m, _).
       Do (Printf (Lit [37, 115]) [Ptr text]) m (\<lambda>(m, _). cat_loop text argv m)))"

definition main_cat :: "u64 list \<Rightarrow> mem \<Rightarrow> prog" where
  "main_cat argv m =
     (if argv = [] then Do (Printf (Lit (bytes ''cat: Invalid arguments <usage: cat filename1 filename2 ...'')) []) m (\<lambda>(m, _). Finish m 0)
      else Do (Malloc 1000) m (\<lambda>(m, text). cat_loop text argv m))"

fun ls_loop :: "u64 \<Rightarrow> u64 list \<Rightarrow> mem \<Rightarrow> prog" where
  "ls_loop text [] m = Finish m 0"
| "ls_loop text (arg # argv) m = Do (OpenDir arg) m (\<lambda>(m, fd).
     if fd = 999 then Finish m 0
     else Do (ReadDir fd) (m(text := 0)) (\<lambda>(m, _).
       Do (Printf (Lit [37, 115]) [Ptr text]) m (\<lambda>(m, _). ls_loop text argv m)))"

definition main_ls :: "u64 list \<Rightarrow> mem \<Rightarrow> prog" where
  "main_ls argv m = Do (Malloc 1000) m (\<lambda>(m, text). ls_loop text argv m)"

section \<open>The start of a program\<close>

text \<open>
  \<^verbatim>\<open>_start\<close> of \<^verbatim>\<open>crt1.c\<close>. \<open>sp\<close> is the stack pointer it computes. It copies the arguments from the stack, one
  every 64 bytes, through \<^verbatim>\<open>temp_str[50]\<close> into \<^verbatim>\<open>str[5][50]\<close>, which is a list of strings here, and then into
  memory from \<open>malloc\<close>, calls \<^verbatim>\<open>main\<close>, and exits.
\<close>

partial_function (option) get_string :: "mem \<Rightarrow> u64 \<Rightarrow> u8 list option" where
  "get_string m a = (if m a = 0 then Some [] else do { s \<leftarrow> get_string m (a + 1); Some (m a # s) })"

definition word_at :: "mem \<Rightarrow> u64 \<Rightarrow> u64" where
  "word_at m a = fold (\<lambda>k w. w OR push_bit (8 * k) (ucast (m (a + of_nat k)))) [0..<8] 0"

fun stack_strings :: "mem \<Rightarrow> u64 \<Rightarrow> nat \<Rightarrow> u8 list list option" where
  "stack_strings m argv 0 = Some []"
| "stack_strings m argv (Suc n) =
     (case get_string m argv of None \<Rightarrow> None
      | Some s \<Rightarrow> if 50 < length s + 2 then None else map_option (Cons s) (stack_strings m (argv + 64) n))"

fun heap_strings :: "u64 \<Rightarrow> u64 list \<Rightarrow> u8 list list \<Rightarrow> (u64 list \<Rightarrow> mem \<Rightarrow> prog) \<Rightarrow> mem \<Rightarrow> prog" where
  "heap_strings str2 ps [] main m = main ps m"
| "heap_strings str2 ps (s # ss) main m = Do (Malloc 50) m (\<lambda>(m, p).
     heap_strings str2 (ps @ [p]) ss main
       (write_bytes (write_bytes m (str2 + 8 * of_nat (length ps)) (map (\<lambda>k. ucast (drop_bit (8 * k) p)) [0..<8])) p (s @ [0, 0])))"

definition crt_start :: "(u64 list \<Rightarrow> mem \<Rightarrow> prog) \<Rightarrow> u64 \<Rightarrow> mem \<Rightarrow> prog" where
  "crt_start main sp m =
     (let argc = word_at m (sp + 8); argv = sp + 16
      in if 5 < argc then Undefined
         else lift_val (stack_strings m argv (unat argc)) (\<lambda>str.
           Do (Malloc 40) m (\<lambda>(m, str2). seq (heap_strings str2 [] str main m) (\<lambda>(m, _). do_call Exit m))))"

end
