(* ===== verification/Shell.thy ===== *)
theory Shell
  imports Programs "HOL-Library.Sublist"
begin

text \<open>
  The shell, \<^verbatim>\<open>bin/sbush/sbush.c\<close>, with the parts of it that are in the library: \<open>addParent\<close> and \<open>executeSbang\<close>
  of \<^verbatim>\<open>libc/unistd.c\<close> and \<open>checkingForBinary\<close> of \<^verbatim>\<open>libc/unibinary.c\<close>. An array is given by its address.
\<close>

unbundle bit_operations_syntax

section \<open>Definitions\<close>

text \<open>
  The arrays: \<open>str\<close> and \<open>temp\<close> of \<^verbatim>\<open>sbush.c\<close>, those of the three library functions, and the two literals that
  commands are compared with.
\<close>

record arrays =
  str :: u64
  temp :: u64
  parent_temp :: u64
  sbang_temp3 :: u64
  sbang_temp4 :: u64
  binary_str :: u64
  binary_temp :: u64
  lit_pwd :: u64
  lit_clear :: u64

text \<open>\<^verbatim>\<open>*p == c0 && *(p+1) == c1 && ...\<close>\<close>

fun starts :: "mem \<Rightarrow> u64 \<Rightarrow> u8 list \<Rightarrow> bool" where
  "starts m p [] = True"
| "starts m p (c # cs) = (m p = c \<and> starts m (p + 1) cs)"

definition no_slash :: "mem \<Rightarrow> u64 \<Rightarrow> cint \<Rightarrow> bool" where
  "no_slash m s len \<longleftrightarrow>
     m (s + of_int (len - 1)) \<noteq> 47 \<and> m (s + of_int (len - 3)) \<noteq> 46 \<and> m (s + of_int (len - 2)) \<noteq> 115 \<and> m (s + of_int (len - 1)) \<noteq> 104 \<and>
     m (s + of_int (len - 4)) \<noteq> 46 \<and> m (s + of_int (len - 3)) \<noteq> 116 \<and> m (s + of_int (len - 2)) \<noteq> 120 \<and> m (s + of_int (len - 1)) \<noteq> 116"

definition addParent :: "arrays \<Rightarrow> u64 \<Rightarrow> u64 \<Rightarrow> mem \<Rightarrow> mem option" where
  "addParent v par s m = do {
     m \<leftarrow> strcpy_libc (parent_temp v) (par + 7) m;
     m \<leftarrow> strcat_libc (parent_temp v) s m;
     m \<leftarrow> strcpy_libc s (parent_temp v) m;
     (m, len) \<leftarrow> strlen_libc s m;
     if no_slash m s len then Some (m(s + of_int len := 47, s + of_int len + 1 := 0)) else Some m
   }"

text \<open>The commands that run a program: the parent waits for the child, and the child becomes the program.\<close>

definition fork_run :: "mem \<Rightarrow> (mem \<Rightarrow> prog) \<Rightarrow> prog" where
  "fork_run m child = Do Fork m (\<lambda>(m, pid). if pid \<noteq> 0 then do_call (WaitPid pid) m else child m)"

definition run_path :: "arrays \<Rightarrow> u8 list \<Rightarrow> u64 \<Rightarrow> u64 \<Rightarrow> u64 \<Rightarrow> mem \<Rightarrow> prog" where
  "run_path v name s par tp m =
     lift_mem (addParent v par tp m) (\<lambda>m. lift_mem (strcpy_libc s tp m) (\<lambda>m. do_call (Execvpe name s) m))"

definition run_ls :: "arrays \<Rightarrow> u64 \<Rightarrow> u64 \<Rightarrow> mem \<Rightarrow> prog" where
  "run_ls v s par m =
     (if m (s + 2) = 32 then run_path v (bytes ''bin/ls'') s par (s + 3) m
      else lift_mem (addParent v par (s + 2) m) (\<lambda>m. lift_mem (strcpy_libc s (s + 2) m) (\<lambda>m.
        lift_val (strlen_libc s m) (\<lambda>(m, len). do_call (Execvpe (bytes ''bin/ls'') s) (if len = 0 then m(s := 0) else m)))))"

text \<open>\<^verbatim>\<open>libc/unibinary.c\<close>: a line of a script.\<close>

definition binary_command :: "arrays \<Rightarrow> u64 \<Rightarrow> u64 \<Rightarrow> mem \<Rightarrow> prog" where
  "binary_command v s t m =
     (if starts m s (bytes ''sleep '') then fork_run m (do_call (Execvpe (bytes ''bin/sleep'') (s + 6)))
      else if starts m s (bytes ''cat '') then Do (Cwd2 t) m (\<lambda>(m, _). fork_run m (run_path v (bytes ''bin/cat'') s t (s + 4)))
      else if starts m s (bytes ''echo '') then fork_run m (do_call (Execvpe (bytes ''bin/echo'') (s + 5)))
      else if starts m s (bytes ''ls'') then Do (Cwd2 t) m (\<lambda>(m, _). fork_run m (run_ls v s t))
      else if starts m s (bytes ''kill'') \<and> starts m (s + 5) (bytes ''-9'') then fork_run m (do_call (Execvpe (bytes ''bin/kill'') (s + 7)))
      else if starts m s (bytes ''ps'') then fork_run m (do_call (Execvpe (bytes ''bin/ps'') s))
      else Finish m 0)"

definition checkingForBinary :: "arrays \<Rightarrow> u64 \<Rightarrow> mem \<Rightarrow> prog" where
  "checkingForBinary v s m =
     (let m = m(binary_str v := 0, binary_temp v := 0)
      in lift_mem (strcpy_libc (binary_str v) s m) (\<lambda>m. lift_mem (removespace s m) (\<lambda>m.
        seq (binary_command v (binary_str v) (binary_temp v) m) (\<lambda>(m, _). Finish m 0))))"

text \<open>
  \<^verbatim>\<open>while (*temp != '\n') temp++\<close>, and the loop over the lines of a script, of which at most \<open>n\<close> are run: a script has
  no more lines than the 1000 bytes that are read of it.
\<close>

partial_function (option) skip_line :: "mem \<Rightarrow> u64 \<Rightarrow> u64 option" where
  "skip_line m p = (if m p \<noteq> 10 then skip_line m (p + 1) else Some p)"

fun sbang_loop :: "nat \<Rightarrow> arrays \<Rightarrow> u64 \<Rightarrow> mem \<Rightarrow> prog" where
  "sbang_loop 0 v p m = Undefined"
| "sbang_loop (Suc n) v p m =
     (if m p \<noteq> 0 then
        lift_val (skip_line m p) (\<lambda>q. lift_mem (strcpy_libc (sbang_temp4 v) p (m(q := 0))) (\<lambda>m.
          seq (checkingForBinary v (sbang_temp4 v) m) (\<lambda>(m, r).
            if r \<noteq> 0 then Do (Printf (Lit (bytes ''Something went wrong'')) []) m (\<lambda>(m, _). sbang_loop n v (q + 1) m)
            else sbang_loop n v (q + 1) m)))
      else Finish m 0)"

definition executeSbang :: "nat \<Rightarrow> arrays \<Rightarrow> u64 \<Rightarrow> mem \<Rightarrow> prog" where
  "executeSbang n v s m = Do (Open s 0) m (\<lambda>(m, fd). Do (Read fd s 1000) (m(s := 0)) (\<lambda>(m, _).
     if m s = 35 \<and> m (s + 1) = 33 then
       lift_mem (strcpy_libc (sbang_temp3 v) s m) (\<lambda>m.
         lift_val (skip_line m (sbang_temp3 v)) (\<lambda>p. sbang_loop n v (p + 1) m))
     else do_call (Printf (Lit (bytes ''-sbush:  No such file or directory'' @ [10])) []) m))"

subsection \<open>The shell\<close>

text \<open>A command line; \<open>slen\<close> is its length before \<open>removespace\<close>.\<close>

definition sbush_command :: "nat \<Rightarrow> arrays \<Rightarrow> cint \<Rightarrow> mem \<Rightarrow> prog" where
  "sbush_command n v slen m =
     (let s = str v; t = temp v in
      lift_val (strcmp_libc m s (lit_pwd v)) (\<lambda>is_pwd.
      if is_pwd = 0 then Do (Cwd2 t) m (\<lambda>(m, _). do_call (Printf (Lit [37, 115, 10]) [Ptr t]) m)
      else if starts m s (bytes ''exp'') then
        (if starts m (s + 3) (bytes ''ort '') then lift_mem (strcpy_libc s (s + 7) m) (\<lambda>m. do_call (SetEchoValue s) m) else Finish m 0)
      else if starts m s (bytes ''cd '') then
        lift_mem (strcpy_libc t (s + 3) (write_bytes m t (replicate 100 0))) (\<lambda>m. do_call (Chdir t) m)
      else if starts m s (bytes ''sleep '') then fork_run m (do_call (Execvpe (bytes ''bin/sleep'') (s + 6)))
      else if starts m s (bytes ''ls'') then Do (Cwd2 t) m (\<lambda>(m, _). fork_run m (run_ls v s t))
      else if starts m s (bytes ''ps'') then fork_run m (do_call (Execvpe (bytes ''bin/ps'') s))
      else if starts m s (bytes ''kill'') \<and> starts m (s + 5) (bytes ''-9'') then fork_run m (do_call (Execvpe (bytes ''bin/kill'') (s + 7)))
      else if starts m s (bytes ''./sbush'') then
        lift_val (strlen_libc s m) (\<lambda>(m, len). fork_run m (\<lambda>m.
          if m (s + 2) = 32 \<and> 2 < len then lift_mem (addDelimiter (s + 7) m) (do_call (Execvpe (bytes ''bin/sbush'') (s + 7)))
          else do_call (Execvpe (bytes ''bin/sbush'') (s + 7)) m))
      else if starts m s (bytes ''./'') \<and> starts m (s + of_int (slen - 3)) (bytes ''.sh'') then
        Do (Cwd2 t) m (\<lambda>(m, _). lift_mem (addParent v t (s + 2) m) (\<lambda>m. lift_mem (strcpy_libc s (s + 2) m) (\<lambda>m. executeSbang n v s m)))
      else if starts m s (bytes ''echo '') then fork_run m (do_call (Execvpe (bytes ''bin/echo'') (s + 5)))
      else if starts m s (bytes ''cat'') then Do (Cwd2 t) m (\<lambda>(m, _). fork_run m (run_path v (bytes ''bin/cat'') s t (s + 4)))
      else if starts m s (bytes ''exit'') then do_call Exit m
      else lift_val (strcmp_libc m s (lit_clear v)) (\<lambda>is_clear.
        if is_clear = 0 then do_call Clear m
        else do_call (Printf (Lit (bytes ''-sbush : %s: command not found'' @ [10])) [Ptr s]) m)))"

text \<open>One turn of the loop, and the first \<open>k\<close> turns.\<close>

definition sbush_turn :: "nat \<Rightarrow> arrays \<Rightarrow> mem \<Rightarrow> prog" where
  "sbush_turn n v m = Do Getcwd (m(str v := 0, temp v := 0)) (\<lambda>(m, _). Do (Scanf [37, 115] (str v)) m (\<lambda>(m, _).
     lift_val (strlen_libc (str v) m) (\<lambda>(m, slen). lift_mem (removespace (str v) m) (\<lambda>m.
       if slen = 0 then Finish m 0 else sbush_command n v slen m))))"

fun sbush_loop :: "nat \<Rightarrow> nat \<Rightarrow> arrays \<Rightarrow> mem \<Rightarrow> prog" where
  "sbush_loop 0 n v m = Finish m 0"
| "sbush_loop (Suc k) n v m = seq (sbush_turn n v m) (\<lambda>(m, _). sbush_loop k n v m)"

definition main_sbush :: "nat \<Rightarrow> nat \<Rightarrow> arrays \<Rightarrow> mem \<Rightarrow> prog" where
  "main_sbush k n v m = Do Clear m (\<lambda>(m, _). sbush_loop k n v m)"

section \<open>Strings that are moved\<close>

text \<open>\<open>m'\<close> is \<open>m\<close> but for the \<open>n\<close> bytes at \<open>p\<close>.\<close>

definition same_out :: "u64 \<Rightarrow> nat \<Rightarrow> mem \<Rightarrow> mem \<Rightarrow> bool" where
  "same_out p n m m' \<longleftrightarrow> (\<forall>x. (\<forall>i<n. x \<noteq> p + of_nat i) \<longrightarrow> m' x = m x)"

lemma same_out_refl: "same_out p n m m"
  by (simp add: same_out_def)

lemma same_out_trans: "same_out p n m m' \<Longrightarrow> same_out p n m' m'' \<Longrightarrow> same_out p n m m''"
  by (simp add: same_out_def)

lemma same_out_mono: "same_out p n m m' \<Longrightarrow> n \<le> k \<Longrightarrow> same_out p k m m'"
  by (auto simp: same_out_def)

lemma same_out_write: "length bs \<le> n \<Longrightarrow> same_out p n m (write_bytes m p bs)"
  unfolding same_out_def by (intro allI impI write_bytes_other) (metis less_le_trans)

lemma same_out_upd: "q = p + of_nat i \<Longrightarrow> i < n \<Longrightarrow> same_out p n m (m(q := b))"
  by (auto simp: same_out_def)

lemma same_out_at: "same_out p n m m' \<Longrightarrow> apart p n q k \<Longrightarrow> i < k \<Longrightarrow> m' (q + of_nat i) = m (q + of_nat i)"
  unfolding same_out_def apart_def by metis

lemma same_out_string: "same_out p n m m' \<Longrightarrow> apart p n q (Suc (length s)) \<Longrightarrow> c_string m' q s \<longleftrightarrow> c_string m q s"
  by (intro c_string_cong same_out_at [where k = "Suc (length s)"]) simp_all

text \<open>A part of an array.\<close>

lemma apart_offset: "apart p (k + n) q l \<Longrightarrow> apart (p + of_nat k) n q l"
  unfolding apart_def
proof (intro allI impI)
  fix i j assume "\<forall>i<k + n. \<forall>j<l. p + of_nat i \<noteq> q + of_nat j" "i < n" "j < l"
  then have "p + of_nat (k + i) \<noteq> q + of_nat j" by (metis nat_add_left_cancel_less)
  then show "p + of_nat k + of_nat i \<noteq> q + of_nat j" by (simp add: add.assoc)
qed

lemma same_out_offset: "same_out (p + of_nat k) n m m' \<Longrightarrow> same_out p (k + n) m m'"
  unfolding same_out_def
proof (intro allI impI)
  fix x assume h: "\<forall>x. (\<forall>i<n. x \<noteq> p + of_nat k + of_nat i) \<longrightarrow> m' x = m x" "\<forall>i<k + n. x \<noteq> p + of_nat i"
  have "x \<noteq> p + of_nat k + of_nat i" if "i < n" for i
    using h(2) [rule_format, of "k + i"] that by (simp add: add.assoc)
  with h(1) show "m' x = m x" by blast
qed

lemma starts_eq: "c_string m p s \<Longrightarrow> 0 \<notin> set c \<Longrightarrow> starts m p c \<longleftrightarrow> prefix c s"
proof (induction c arbitrary: p s)
  case (Cons b c)
  then show ?case by (cases s) auto
qed simp

lemma starts_at: "c_string m p s \<Longrightarrow> i \<le> length s \<Longrightarrow> 0 \<notin> set c \<Longrightarrow> starts m (p + of_nat i) c \<longleftrightarrow> prefix c (drop i s)"
  using starts_eq [OF c_string_tail [of m p "take i s" "drop i s"]] by (simp add: min.absorb2)

lemma c_string_append: "c_string m p (s @ t) \<longleftrightarrow> starts m p s \<and> 0 \<notin> set s \<and> c_string m (p + of_nat (length s)) t"
  by (induction s arbitrary: p) (auto simp: add.assoc)

lemma starts_cong: "(\<And>i. i < length c \<Longrightarrow> m' (p + of_nat i) = m (p + of_nat i)) \<Longrightarrow> starts m' p c \<longleftrightarrow> starts m p c"
proof (induction c arbitrary: p)
  case (Cons b c)
  have "starts m' (p + 1) c \<longleftrightarrow> starts m (p + 1) c"
  proof (rule Cons.IH)
    fix i assume "i < length c"
    with Cons.prems [of "Suc i"] show "m' (p + 1 + of_nat i) = m (p + 1 + of_nat i)" by (simp add: add.assoc)
  qed
  with Cons.prems [of 0] show ?case by simp
qed simp

text \<open>A copy to a lower place of the same array, one that overlaps its source.\<close>

lemma copy_down:
  "c_string m (p + of_nat d) s \<Longrightarrow> d + length s < 2 ^ 64 \<Longrightarrow>
     copy_loop (p + of_nat d) p m = Some (write_bytes m p s, p + of_nat (length s))"
proof (induction s arbitrary: p m)
  case Nil
  then show ?case by (subst copy_loop.simps) simp
next
  case (Cons c cs)
  have "p \<noteq> p + of_nat d + 1 + of_nat j" if "j < Suc (length cs)" for j
    using offset_neq [of "d + Suc j" p] that Cons.prems(2) by (simp add: ac_simps)
  then have "c_string (m(p := c)) (p + of_nat d + 1) cs" using Cons.prems(1) by (subst c_string_upd) simp_all
  then have "c_string (m(p := c)) (p + 1 + of_nat d) cs" by (simp add: ac_simps)
  then have "copy_loop (p + 1 + of_nat d) (p + 1) (m(p := c)) = Some (write_bytes (m(p := c)) (p + 1) cs, p + 1 + of_nat (length cs))"
    by (rule Cons.IH) (use Cons.prems(2) in simp)
  then show ?case using Cons.prems(1) by (subst copy_loop.simps) (simp add: ac_simps)
qed

lemma strcpy_down:
  "c_string m (p + of_nat d) s \<Longrightarrow> d + length s < 2 ^ 64 \<Longrightarrow> strcpy_libc p (p + of_nat d) m = Some (write_bytes m p (s @ [0, 0]))"
  by (simp add: strcpy_libc_def copy_down write_bytes_append)

text \<open>A write inside a string, and a copy from the rest of it.\<close>

lemma write_tail:
  assumes a: "c_string m p (a @ r)" and z: "0 \<notin> set b" and len: "length a + length b + length t < 2 ^ 63"
  shows "c_string (write_bytes m (p + of_nat (length a)) (b @ 0 # t)) p (a @ b)"
proof -
  let ?t = "p + of_nat (length a)" and ?m = "write_bytes m (p + of_nat (length a)) (b @ 0 # t)"
  have "length b + 1 + length t \<le> 2 ^ 64" using len by simp
  from c_string_write [OF z this] have sb: "c_string ?m ?t b" .
  have st: "starts m p a" "0 \<notin> set a" using a c_string_append by blast+
  have "?m (p + of_nat i) = m (p + of_nat i)" if i: "i < length a" for i
  proof (rule write_bytes_other)
    fix j assume j: "j < length (b @ 0 # t)"
    then have "(p + of_nat (length a + j) = p + of_nat i) = (length a + j = i)"
      by (intro offset_inj) (use i len in \<open>simp_all\<close>)
    then show "?t + of_nat j \<noteq> p + of_nat i" using i by (simp add: add.assoc)
  qed
  then have "starts ?m p a" using st(1) starts_cong [of a ?m p m] by blast
  with st(2) sb show ?thesis unfolding c_string_append [of ?m p a b] by blast
qed

lemma write_tail_0:
  assumes "length a + length b < 2 ^ 62"
  shows "write_bytes m (p + of_nat (length a)) (b @ [0, 0]) (p + of_nat (length (a @ b)) + 1) = 0"
proof -
  have "length b + 1 < length (b @ [0, 0 :: u8])" "length (b @ [0, 0 :: u8]) \<le> 2 ^ 64" using assms by simp_all
  from write_bytes_at [OF this, of m "p + of_nat (length a)"]
  have "write_bytes m (p + of_nat (length a)) (b @ [0, 0]) (p + of_nat (length a) + of_nat (length b + 1)) = 0" by (simp add: nth_append)
  then show ?thesis by (simp add: ac_simps)
qed

lemma move_tail:
  assumes a: "c_string m p (a @ r)" and b: "c_string m (p + of_nat (length a) + of_nat d) b" and len: "length a + d + length b < 2 ^ 62"
  shows "\<exists>m'. strcpy_libc (p + of_nat (length a)) (p + of_nat (length a) + of_nat d) m = Some m' \<and> c_string m' p (a @ b) \<and>
    same_out p (length a + (length b + 2)) m m' \<and> m' (p + of_nat (length (a @ b)) + 1) = 0"
proof -
  let ?t = "p + of_nat (length a)" and ?m = "write_bytes m (p + of_nat (length a)) (b @ [0, 0])"
  have "strcpy_libc ?t (?t + of_nat d) m = Some ?m" by (rule strcpy_down [OF b]) (use len in simp)
  moreover have "same_out p (length a + (length b + 2)) m ?m" by (intro same_out_offset same_out_write) simp
  moreover have "c_string ?m p (a @ b)" by (rule write_tail [OF a]) (use b len in \<open>simp_all add: c_string_iff\<close>)
  moreover have "?m (p + of_nat (length (a @ b)) + 1) = 0" by (rule write_tail_0) (use len in simp)
  ultimately show ?thesis by blast
qed

lemma c_string_behind:
  assumes "c_string m q u" "1 \<le> k" "length u + k < 2 ^ 64"
  shows "c_string (m(q + of_nat (length u) + of_nat k := b)) q u"
proof -
  have "q + of_nat (length u) + of_nat k \<noteq> q + of_nat j" if "j < Suc (length u)" for j
    using offset_inj [of "length u + k" j q] that assms(2,3) by (simp add: add.assoc)
  then show ?thesis using assms(1) by (subst c_string_upd) simp_all
qed

text \<open>\<open>removespace\<close> leaves one space behind the first word.\<close>

definition squeeze :: "u8 list \<Rightarrow> u8 list" where
  "squeeze w =
     (let a = takeWhile (\<lambda>c. c \<noteq> 32) w; b = dropWhile (\<lambda>c. c = 32) (dropWhile (\<lambda>c. c \<noteq> 32) w)
      in if b = [] then w else a @ 32 # b)"

lemma skip_spaces_eq: "c_string m p s \<Longrightarrow> skip_spaces p m = Some (p + of_nat (length (takeWhile (\<lambda>c. c = 32) s)))"
proof (induction s arbitrary: p)
  case Nil
  then show ?case by (subst skip_spaces.simps) simp
next
  case (Cons c cs)
  then show ?case by (subst skip_spaces.simps) (simp add: add.assoc)
qed

lemma removespace_eq:
  assumes w: "c_string m p w" and len: "length w < 2 ^ 31" and nul: "m (p + of_nat (length w) + 1) = 0"
  shows "\<exists>m'. removespace p m = Some m' \<and> c_string m' p (squeeze w) \<and> same_out p (length w + 2) m m' \<and>
    m' (p + of_nat (length (squeeze w)) + 1) = 0 \<and> length (squeeze w) \<le> length w"
proof -
  define a r where "a = takeWhile (\<lambda>c. c \<noteq> 32) w" and "r = dropWhile (\<lambda>c. c \<noteq> 32) w"
  define t where "t = p + of_nat (length a)"
  have ar: "w = a @ r" by (simp add: a_def r_def)
  have skip: "skip_word 32 p m = Some t" unfolding t_def a_def by (rule skip_word_eq [OF w])
  have sr: "c_string m t r" using w unfolding ar t_def by (rule c_string_tail)
  show ?thesis
  proof (cases r)
    case Nil
    then have "squeeze w = w" by (simp add: squeeze_def r_def del: dropWhile_eq_Nil_conv)
    moreover have "removespace p m = Some m" using Nil sr skip by (simp add: removespace_def)
    ultimately show ?thesis using w nul same_out_refl by (metis order.refl)
  next
    case (Cons c r')
    then have c: "c = 32" using hd_drop_word [of 32 w] by (simp add: r_def)
    define b d where "b = dropWhile (\<lambda>c. c = 32) r'" and "d = length (takeWhile (\<lambda>c. c = 32) r')"
    have sr': "c_string m (t + 1) r'" "m t = 32" using sr Cons c by simp_all
    have sp: "skip_spaces (t + 1) m = Some (t + 1 + of_nat d)" unfolding d_def by (rule skip_spaces_eq [OF sr'(1)])
    have "r' = takeWhile (\<lambda>c. c = 32) r' @ b" by (simp add: b_def)
    with sr'(1) have sb: "c_string m (t + 1 + of_nat d) b" unfolding d_def by (metis c_string_tail)
    have dr: "dropWhile (\<lambda>c. c = 32) r = b" using Cons c by (simp add: b_def)
    have sqz: "squeeze w = (if b = [] then w else a @ 32 # b)" unfolding squeeze_def Let_def a_def dr [unfolded r_def] by (rule refl)
    have lr: "length r' = d + length b" unfolding b_def d_def by (metis length_append takeWhile_dropWhile_id)
    show ?thesis
    proof (cases "b = []")
      case True
      then have "squeeze w = w" "m (t + 1 + of_nat d) = 0" using sqz sb by simp_all
      moreover from this(2) have "removespace p m = Some m" using skip sp sr'(2) by (simp add: removespace_def)
      ultimately show ?thesis using w nul same_out_refl by (metis order.refl)
    next
      case False
      have nb: "m (t + 1 + of_nat d) \<noteq> 0" using sb False by (cases b) auto
      have sq: "squeeze w = (a @ [32]) @ b" using sqz False by simp
      have w': "w = (a @ [32]) @ r'" unfolding ar Cons c by simp
      from arg_cong [OF this, of length] have lw: "length w = length (a @ [32]) + d + length b" using lr by simp
      have t1: "t + 1 = p + of_nat (length (a @ [32]))" by (simp add: t_def ac_simps)
      have cs: "c_string m p ((a @ [32]) @ r')" using w w' by metis
      have "length (a @ [32]) + d + length b < 2 ^ 62" using len lw by simp
      from move_tail [OF cs sb [unfolded t1] this, folded t1 sq] obtain m' where m': "strcpy_libc (t + 1) (t + 1 + of_nat d) m = Some m'"
          "c_string m' p (squeeze w)" "same_out p (length (a @ [32]) + (length b + 2)) m m'" "m' (p + of_nat (length (squeeze w)) + 1) = 0"
        by (elim exE conjE) (rule that)
      have "removespace p m = Some m'" using skip sp sr'(2) nb m'(1) by (simp add: removespace_def)
      moreover have "same_out p (length w + 2) m m'" by (rule same_out_mono [OF m'(3)]) (use lw in linarith)
      moreover have "length (squeeze w) \<le> length w" unfolding sq using lw by simp
      ultimately show ?thesis using m'(2,4) by blast
    qed
  qed
qed

section \<open>Paths\<close>

text \<open>Whether \<open>addParent\<close> ends a name with a slash, by the last four characters before it.\<close>

definition adds_slash :: "u8 list \<Rightarrow> bool" where
  "adds_slash u =
     (let n = length u
      in u ! (n - 1) \<notin> {47, 104, 116} \<and> u ! (n - 2) \<notin> {115, 120} \<and> u ! (n - 3) \<notin> {46, 116} \<and> u ! (n - 4) \<noteq> 46)"

text \<open>The path made of \<open>a\<close>, which follows \<open>pre\<close> in its array, and the current directory behind its \<^verbatim>\<open>rootfs/\<close>.\<close>

definition with_parent :: "u8 list \<Rightarrow> u8 list \<Rightarrow> u8 list \<Rightarrow> u8 list" where
  "with_parent pre cwd a = (let t = drop 7 cwd @ a in if adds_slash (pre @ t) then t @ [47] else t)"

lemma no_slash_eq:
  assumes u: "c_string m q u" "4 \<le> length u" and s: "s + of_int len = q + of_nat (length u)"
  shows "no_slash m s len \<longleftrightarrow> adds_slash u"
proof -
  have "m (s + of_int (len - int j)) = u ! (length u - j)" if "1 \<le> j" "j \<le> 4" for j
  proof -
    have "s + of_int (len - int j) = s + of_int len - of_nat j" by simp
    also have "\<dots> = q + of_nat (length u - j)" unfolding s using that u(2) by (simp add: of_nat_diff)
    finally have e: "s + of_int (len - int j) = q + of_nat (length u - j)" .
    have "length u - j < length u" using that u(2) by linarith
    then show ?thesis unfolding e using c_string_at [OF u(1), of "length u - j"] by simp
  qed
  from this [of 1] this [of 2] this [of 3] this [of 4] show ?thesis
    unfolding no_slash_def adds_slash_def Let_def by simp blast
qed

lemma addParent_eq:
  assumes q: "c_string m q (pre @ a)" and par: "c_string m par cwd" and len: "7 \<le> length cwd" "length pre + length a + length cwd + 3 \<le> 100"
    and four: "4 \<le> length (pre @ drop 7 cwd @ a)"
    and ap: "apart q 100 (parent_temp v) 100" "apart par 100 (parent_temp v) 100"
  shows "\<exists>m'. addParent v par (q + of_nat (length pre)) m = Some m' \<and> c_string m' q (pre @ with_parent pre cwd a)"
proof -
  let ?pt = "parent_temp v" and ?d = "drop 7 cwd" and ?s = "q + of_nat (length pre)"
  let ?t = "drop 7 cwd @ a"
  have z: "0 \<notin> set a" "0 \<notin> set ?d" using q par by (auto simp: c_string_iff dest: in_set_dropD)
  have lt: "length pre + length ?t \<le> 90" "length ?d + length a \<le> 90" "length cwd \<le> 97" using len by simp_all
  have d: "c_string m (par + 7) ?d" using c_string_tail [of m par "take 7 cwd" ?d] par len(1) by (simp add: min.absorb2)
  have "apart (par + of_nat 7) 93 ?pt 100" by (rule apart_offset) (use ap(2) in simp)
  from apart_mono [OF this, of "Suc (length ?d)" "length ?d"] have a1: "apart ?pt (length ?d) (par + 7) (Suc (length ?d))"
    using lt by (simp add: apart_sym [of ?pt])
  define m1 where "m1 = write_bytes m ?pt (?d @ [0, 0])"
  have e1: "strcpy_libc ?pt (par + 7) m = Some m1" unfolding m1_def by (rule strcpy_libc_eq [OF d a1])
  have pq: "apart ?pt 100 q 100" using ap(1) apart_sym by blast
  have q1: "c_string m1 q (pre @ a)" unfolding m1_def by (rule c_string_write_other [OF q]) (rule apart_mono [OF pq]; use lt in simp)
  have d1: "c_string m1 ?pt ?d" unfolding m1_def by (rule c_string_write [OF z(2), of "[0]"]) (use lt in simp)
  define m2 where "m2 = write_bytes m1 (?pt + of_nat (length ?d)) (a @ [0, 0])"
  have ptd: "apart (?pt + of_nat (length ?d)) (length a + 2) q 100" by (rule apart_offset) (rule apart_mono [OF pq]; use lt in simp)
  then have "apart q 100 (?pt + of_nat (length ?d)) (length a + 2)" using apart_sym by blast
  then have "apart ?s (100 - length pre) (?pt + of_nat (length ?d)) (length a + 2)" by (intro apart_offset) (use lt in simp)
  then have a2: "apart (?pt + of_nat (length ?d)) (length a) ?s (Suc (length a))" by (subst apart_sym, elim apart_mono) (use lt in simp_all)
  have e2: "strcat_libc ?pt ?s m1 = Some m2"
    unfolding m2_def by (rule strcat_libc_eq [OF d1 c_string_tail [OF q1] a2])
  have t2: "c_string m2 ?pt ?t" unfolding m2_def by (rule write_tail [where r = "[]"]) (use d1 z lt in simp_all)
  have q2: "c_string m2 q (pre @ a)" unfolding m2_def by (rule c_string_write_other [OF q1]) (rule apart_mono [OF ptd]; use lt in simp)
  define m3 where "m3 = write_bytes m2 ?s (?t @ [0, 0])"
  have "apart ?s (100 - length pre) ?pt 100" by (rule apart_offset) (use ap(1) lt in simp)
  then have a3: "apart ?s (length ?t) ?pt (Suc (length ?t))" by (elim apart_mono) (use lt in simp_all)
  have e3: "strcpy_libc ?s ?pt m2 = Some m3" unfolding m3_def by (rule strcpy_libc_eq [OF t2 a3])
  have q3: "c_string m3 q (pre @ ?t)" unfolding m3_def by (rule write_tail [OF q2]) (use z lt in simp_all)
  define m4 where "m4 = m3(?s + of_nat (length ?t) + 1 := 0, ?s + of_nat (length ?t) + 2 := 0)"
  have e4: "strlen_libc ?s m3 = Some (m4, int (length ?t))"
    unfolding m4_def by (rule strlen_libc_eq [OF c_string_tail [OF q3]]) (use lt in simp)
  have e: "?s + of_nat (length ?t) = q + of_nat (length (pre @ ?t))" by (simp add: add.assoc)
  have q4: "c_string m4 q (pre @ ?t)"
    unfolding m4_def e using c_string_behind [of _ q "pre @ ?t" 1] c_string_behind [of _ q "pre @ ?t" 2] q3 lt by simp
  have ns: "no_slash m4 ?s (int (length ?t)) \<longleftrightarrow> adds_slash (pre @ ?t)" by (rule no_slash_eq [OF q4 four]) (simp add: add.assoc)
  have "c_string (write_bytes m4 (q + of_nat (length (pre @ ?t))) ([47] @ 0 # [])) q ((pre @ ?t) @ [47])"
    by (rule write_tail [where r = "[]"]) (use q4 lt in simp_all)
  then have q5: "c_string (m4(?s + of_int (int (length ?t)) := 47, ?s + of_int (int (length ?t)) + 1 := 0)) q (pre @ ?t @ [47])"
    by (simp add: add.assoc)
  show ?thesis
  proof (cases "adds_slash (pre @ ?t)")
    case True
    with e1 e2 e3 e4 ns q5 show ?thesis by (simp add: addParent_def with_parent_def)
  next
    case False
    with e1 e2 e3 e4 ns q4 show ?thesis by (simp add: addParent_def with_parent_def)
  qed
qed

section \<open>What a command line does\<close>

text \<open>
  The shell, on lists: \<open>line_action cwd w\<close> is what it does with the line \<open>w\<close> in the directory \<open>cwd\<close>. A line that
  starts with a dot and a slash, the shell itself apart, is \<open>Script\<close>.
\<close>

datatype action =
    Nothing
  | Script
  | Show "u8 list"
  | Assign "u8 list"
  | Change "u8 list"
  | Run "u8 list" "u8 list"
  | Leave
  | Wipe
  | Reject "u8 list"

definition line_action :: "u8 list \<Rightarrow> u8 list \<Rightarrow> action" where
  "line_action cwd w =
     (if prefix (bytes ''./'') w \<and> \<not> prefix (bytes ''./sbush'') w then Script
      else if w = bytes ''pwd'' then Show cwd
      else if prefix (bytes ''exp'') w then (if prefix (bytes ''ort '') (drop 3 w) then Assign (drop 7 w) else Nothing)
      else if prefix (bytes ''cd '') w then Change (drop 3 w)
      else if prefix (bytes ''sleep '') w then Run (bytes ''bin/sleep'') (drop 6 w)
      else if prefix (bytes ''ls'') w then
        (let k = if prefix [32] (drop 2 w) then 3 else 2 in Run (bytes ''bin/ls'') (with_parent (take k w) cwd (drop k w)))
      else if prefix (bytes ''ps'') w then Run (bytes ''bin/ps'') w
      else if prefix (bytes ''kill'') w \<and> prefix (bytes ''-9'') (drop 5 w) then Run (bytes ''bin/kill'') (drop 7 w)
      else if prefix (bytes ''./sbush'') w then Run (bytes ''bin/sbush'') (drop 7 w)
      else if prefix (bytes ''echo '') w then Run (bytes ''bin/echo'') (drop 5 w)
      else if prefix (bytes ''cat'') w then Run (bytes ''bin/cat'') (with_parent (take 4 w) cwd (drop 4 w))
      else if prefix (bytes ''exit'') w then Leave
      else if w = bytes ''clear'' then Wipe
      else Reject w)"

text \<open>
  A call that does an action, in the parent of the process that \<open>fork\<close> made when it returned \<open>p \<noteq> 0\<close>, and in
  that process when it returned 0.
\<close>

fun performs :: "action \<Rightarrow> u64 \<Rightarrow> ucall \<times> mem \<Rightarrow> bool" where
  "performs (Show d) p (c, m) = (\<exists>a. c = Printf (Lit [37, 115, 10]) [Ptr a] \<and> c_string m a d)"
| "performs (Assign b) p (c, m) = (\<exists>a. c = SetEchoValue a \<and> c_string m a b)"
| "performs (Change d) p (c, m) = (\<exists>a. c = Chdir a \<and> c_string m a d)"
| "performs (Run name arg) p (c, m) = (if p = 0 then \<exists>a. c = Execvpe name a \<and> c_string m a arg else c = WaitPid p)"
| "performs Leave p (c, m) = (c = Exit)"
| "performs Wipe p (c, m) = (c = Clear)"
| "performs (Reject w) p (c, m) = (\<exists>a. c = Printf (Lit (bytes ''-sbush : %s: command not found'' @ [10])) [Ptr a] \<and> c_string m a w)"
| "performs Nothing p x = False"
| "performs Script p x = False"

definition ends_with :: "action \<Rightarrow> u64 \<Rightarrow> (ucall \<times> mem) list \<Rightarrow> bool" where
  "ends_with a p t \<longleftrightarrow> (if t = [] then a = Nothing else performs a p (last t))"

text \<open>The answer of the environment to a call, whatever its state.\<close>

definition answers :: "'s env \<Rightarrow> ucall \<Rightarrow> (mem \<Rightarrow> mem \<times> u64) \<Rightarrow> bool" where
  "answers h c f \<longleftrightarrow> (\<forall>s m. snd (h s c m) = f m)"

lemma trace_answers: "answers h c f \<Longrightarrow> trace h (Do c m k) s = (c, m) # trace h (k (f m)) (fst (h s c m))"
  by (simp add: answers_def)

lemma trace_do_call [simp]: "trace h (do_call c m) s = [(c, m)]"
  by (simp add: do_call_def split_beta)

lemma ends_call: "performs a p (c, m) \<Longrightarrow> ends_with a p (trace h (do_call c m) s)"
  by (simp add: ends_with_def)

lemma ends_Do:
  assumes "answers h c f" "\<And>s. ends_with a p (trace h (k (f m)) s)" "a \<noteq> Nothing"
  shows "ends_with a p (trace h (Do c m k) s)"
  using assms(2) [of "fst (h s c m)"] assms(3) unfolding trace_answers [OF assms(1)] ends_with_def by (simp split: if_splits)

lemma ends_if:
  "(c \<Longrightarrow> ends_with a p (trace h x s)) \<Longrightarrow> (\<not> c \<Longrightarrow> ends_with b p (trace h y s)) \<Longrightarrow>
     ends_with (if c then a else b) p (trace h (if c then x else y) s)"
  by simp

lemma ends_fork:
  assumes "answers h Fork (\<lambda>m. (m, p))" "\<And>s. p = 0 \<Longrightarrow> ends_with (Run name arg) p (trace h (child m) s)"
  shows "ends_with (Run name arg) p (trace h (fork_run m child) s)"
  unfolding fork_run_def
proof (rule ends_Do [OF assms(1)])
  fix s show "ends_with (Run name arg) p (trace h (case (m, p) of (m, q) \<Rightarrow> if q \<noteq> 0 then do_call (WaitPid q) m else child m) s)"
  proof (cases "p = 0")
    case True
    with assms(2) show ?thesis by simp
  next
    case False
    then show ?thesis by (simp add: ends_with_def)
  qed
qed simp

text \<open>The arrays of the shell do not overlap.\<close>

definition layout :: "arrays \<Rightarrow> bool" where
  "layout v \<longleftrightarrow> apart (str v) 100 (temp v) 100 \<and> apart (str v) 100 (parent_temp v) 100 \<and> apart (temp v) 100 (parent_temp v) 100 \<and>
     apart (str v) 100 (lit_pwd v) 4 \<and> apart (str v) 100 (lit_clear v) 6 \<and> apart (temp v) 100 (lit_pwd v) 4 \<and> apart (temp v) 100 (lit_clear v) 6"

lemma string_at: "c_string m p w \<Longrightarrow> k \<le> length w \<Longrightarrow> c_string m (p + of_nat k) (drop k w)"
  using c_string_tail [of m p "take k w" "drop k w"] by (simp add: min.absorb2)

text \<open>A program that gets a path.\<close>

lemma path_copied:
  assumes lay: "layout v" and s: "c_string m (str v) (pre @ a)" and t: "c_string m (temp v) cwd"
    and len: "7 \<le> length cwd" "length pre + length a + length cwd + 3 \<le> 100" "4 \<le> length (pre @ drop 7 cwd @ a)"
  shows "\<exists>m' m''. addParent v (temp v) (str v + of_nat (length pre)) m = Some m' \<and>
    strcpy_libc (str v) (str v + of_nat (length pre)) m' = Some m'' \<and> c_string m'' (str v) (with_parent pre cwd a)"
proof -
  have ap: "apart (str v) 100 (parent_temp v) 100" "apart (temp v) 100 (parent_temp v) 100" using lay by (simp_all add: layout_def)
  obtain m' where m': "addParent v (temp v) (str v + of_nat (length pre)) m = Some m'" "c_string m' (str v) (pre @ with_parent pre cwd a)"
    using addParent_eq [OF s t len ap] by blast
  have "length (with_parent pre cwd a) \<le> length cwd + length a + 1" by (simp add: with_parent_def Let_def) linarith
  then have b: "length ([] :: u8 list) + length pre + length (with_parent pre cwd a) < 2 ^ 62" using len(2) by simp
  have "c_string m' (str v + of_nat (length ([] :: u8 list)) + of_nat (length pre)) (with_parent pre cwd a)"
    using c_string_tail [OF m'(2)] by simp
  from move_tail [of m' "str v" "[]", OF _ this b] m' show ?thesis by auto
qed

lemma zero_free:
  "0 \<notin> set (bytes ''./'')" "0 \<notin> set (bytes ''exp'')" "0 \<notin> set (bytes ''ort '')" "0 \<notin> set (bytes ''cd '')" "0 \<notin> set (bytes ''sleep '')"
  "0 \<notin> set (bytes ''ls'')" "0 \<notin> set (bytes ''ps'')" "0 \<notin> set (bytes ''kill'')" "0 \<notin> set (bytes ''-9'')" "0 \<notin> set (bytes ''./sbush'')"
  "0 \<notin> set (bytes ''echo '')" "0 \<notin> set (bytes ''cat'')" "0 \<notin> set (bytes ''cat '')" "0 \<notin> set (bytes ''exit'')"
  by (simp_all add: bytes_def)

lemma prefix_length: "prefix c w \<Longrightarrow> length c \<le> length w"
  by (rule prefix_length_le)

lemma ends_skip: "\<not> c \<Longrightarrow> ends_with a p (trace h y s) \<Longrightarrow> ends_with a p (trace h (if c then x else y) s)"
  by simp

lemma kill_eq:
  assumes w: "c_string m s w" "m (s + of_nat (length w) + 1) = 0"
  shows "starts m s (bytes ''kill'') \<and> starts m (s + 5) (bytes ''-9'') \<longleftrightarrow> prefix (bytes ''kill'') w \<and> prefix (bytes ''-9'') (drop 5 w)"
proof (cases "prefix (bytes ''kill'') w")
  case True
  have l: "4 \<le> length w" using prefix_length [OF True] by (simp add: bytes_def)
  show ?thesis
  proof (cases "length w = 4")
    case True
    with w(2) have "m (s + 5) = 0" by (simp add: add.assoc)
    with True show ?thesis by (simp add: bytes_def)
  next
    case False
    with l have "5 \<le> length w" by simp
    from starts_at [OF w(1) this zero_free(9)] starts_eq [OF w(1) zero_free(8)] show ?thesis by simp
  qed
qed (use starts_eq [OF w(1) zero_free(8)] in simp)

text \<open>\<^verbatim>\<open>ls\<close>, with and without a space.\<close>

lemma ls_copied:
  assumes lay: "layout v" and s: "c_string m (str v) w" and t: "c_string m (temp v) cwd" and p: "prefix (bytes ''ls'') w"
    and len: "7 \<le> length cwd" "length w + length cwd + 3 \<le> 100" "11 \<le> length w + length cwd"
  shows "ends_with (let k = if prefix [32] (drop 2 w) then 3 else 2 in Run (bytes ''bin/ls'') (with_parent (take k w) cwd (drop k w))) 0
    (trace h (run_ls v (str v) (temp v) m) st)"
proof -
  let ?k = "if prefix [32] (drop 2 w) then 3 else 2 :: nat"
  have l2: "2 \<le> length w" using prefix_length [OF p] by (simp add: bytes_def)
  have sp: "m (str v + 2) = 32 \<longleftrightarrow> prefix [32] (drop 2 w)"
    using starts_at [OF s l2, of "[32]"] by simp
  have k: "?k \<le> length w" using l2 by (cases "drop 2 w") (auto simp: not_less_eq_eq [symmetric] dest: arg_cong [of _ _ length])
  have "c_string m (str v) (take ?k w @ drop ?k w)" using s by simp
  moreover have "length (take ?k w) + length (drop ?k w) + length cwd + 3 \<le> 100" "4 \<le> length (take ?k w @ drop 7 cwd @ drop ?k w)"
    using k len by simp_all
  ultimately obtain m1 m2 where m: "addParent v (temp v) (str v + of_nat (length (take ?k w))) m = Some m1"
      "strcpy_libc (str v) (str v + of_nat (length (take ?k w))) m1 = Some m2" "c_string m2 (str v) (with_parent (take ?k w) cwd (drop ?k w))"
    using path_copied [OF lay _ t len(1), of "take ?k w" "drop ?k w"] by blast
  show ?thesis
  proof (cases "prefix [32] (drop 2 w)")
    case True
    with m sp k show ?thesis
      by (simp add: run_ls_def run_path_def ends_with_def min.absorb2 Let_def)
  next
    case False
    define r where "r = with_parent (take 2 w) cwd (drop 2 w)"
    have r: "c_string m2 (str v) r" using m(3) False by (simp add: r_def)
    have "length r \<le> length cwd + length w + 1" by (simp add: r_def with_parent_def Let_def) linarith
    then have lr: "length r < 2 ^ 31" using len(2) by simp
    define m3 where "m3 = m2(str v + of_nat (length r) + 1 := 0, str v + of_nat (length r) + 2 := 0)"
    have e: "strlen_libc (str v) m2 = Some (m3, int (length r))" unfolding m3_def by (rule strlen_libc_eq [OF r lr])
    have m3: "c_string m3 (str v) r"
      unfolding m3_def using c_string_behind [of _ "str v" r 1] c_string_behind [of _ "str v" r 2] r lr by simp
    then have "c_string (if length r = 0 then m3(str v := 0) else m3) (str v) r" by simp
    with m False sp k e show ?thesis
      by (simp add: run_ls_def ends_with_def min.absorb2 Let_def flip: r_def)
  qed
qed

lemma command_performs:
  assumes lay: "layout v" and w: "c_string m (str v) w" "m (str v + of_nat (length w) + 1) = 0"
    and lits: "c_string m (lit_pwd v) (bytes ''pwd'')" "c_string m (lit_clear v) (bytes ''clear'')"
    and len: "7 \<le> length cwd" "length w + length cwd + 3 \<le> 100" "0 \<notin> set cwd"
    and env: "answers h (Cwd2 (temp v)) (\<lambda>m. (write_bytes m (temp v) (cwd @ [0, 0]), 0))" "answers h Fork (\<lambda>m. (m, p))"
    and ok: "w \<noteq> bytes ''cat''" "prefix (bytes ''ls'') w \<Longrightarrow> 11 \<le> length w + length cwd" "line_action cwd w \<noteq> Script"
  shows "ends_with (line_action cwd w) p (trace h (sbush_command n v slen m) st)"
proof -
  let ?s = "str v" and ?m = "write_bytes m (temp v) (cwd @ [0, 0])"
  note st = starts_eq [OF w(1)]
  have lw: "length w \<le> 90" "length (cwd @ [0, 0]) \<le> 100" using len by simp_all
  have ts: "apart (temp v) 100 ?s 100" using lay apart_sym by (auto simp: layout_def)
  have cw: "c_string ?m (temp v) cwd" by (rule c_string_write [OF len(3), of "[0]"]) (use lw in simp)
  have sw: "c_string ?m ?s w" by (rule c_string_write_other [OF w(1)]) (rule apart_mono [OF ts]; use lw in simp)
  have at: "starts m (?s + of_nat k) c \<longleftrightarrow> prefix c (drop k w)" if "k \<le> length w" "0 \<notin> set c" for k c
    using starts_at [OF w(1)] that by simp
  have down: "\<exists>m'. strcpy_libc q (?s + of_nat k) m1 = Some m' \<and> c_string m' q (drop k w)"
    if "k \<le> length w" "c_string m1 ?s w" "q = ?s \<or> apart q 100 ?s 100" for k m1 q
  proof -
    have s: "c_string m1 (?s + of_nat k) (drop k w)" by (rule string_at [OF that(2,1)])
    have "strcpy_libc q (?s + of_nat k) m1 = Some (write_bytes m1 q (drop k w @ [0, 0]))"
    proof (cases "q = ?s")
      case True
      with strcpy_down [OF s] lw that(1) show ?thesis by simp
    next
      case False
      with that(3) have "apart ?s (k + (100 - k)) q 100" using apart_sym lw that(1) by simp
      then have "apart (?s + of_nat k) (100 - k) q 100" by (rule apart_offset)
      then have "apart q (length (drop k w)) (?s + of_nat k) (Suc (length (drop k w)))"
        using apart_mono [of "?s + of_nat k" "100 - k" q 100 "Suc (length (drop k w))" "length (drop k w)"] lw that(1) by (simp add: apart_sym [of q])
      from strcpy_libc_eq [OF s this] show ?thesis .
    qed
    moreover have "c_string (write_bytes m1 q (drop k w @ [0, 0])) q (drop k w)"
      by (rule c_string_write [where t = "[0]"]) (use s lw in \<open>simp_all add: c_string_iff\<close>)
    ultimately show ?thesis by blast
  qed
  have run: "ends_with (Run name (drop k w)) p (trace h (fork_run m (do_call (Execvpe name (?s + of_nat k)))) st)" if "k \<le> length w" for k name st
    by (rule ends_fork [OF env(2)]) (use string_at [OF w(1) that] in \<open>simp add: ends_with_def\<close>)
  have path: "ends_with (Run name (with_parent (take k w) cwd (drop k w))) 0 (trace h (run_path v name ?s (temp v) (?s + of_nat k) ?m) st)"
    if "k \<le> length w" "4 \<le> length w + (length cwd - 7)" for k name st
  proof -
    have "c_string ?m ?s (take k w @ drop k w)" using sw by simp
    from path_copied [OF lay this cw len(1)] that len(2) obtain m1 m2 where
        "addParent v (temp v) (?s + of_nat (length (take k w))) ?m = Some m1" "strcpy_libc ?s (?s + of_nat (length (take k w))) m1 = Some m2"
        "c_string m2 ?s (with_parent (take k w) cwd (drop k w))"
      by auto
    with that(1) show ?thesis by (simp add: run_path_def ends_with_def min.absorb2)
  qed
  have nscript: "prefix (bytes ''./sbush'') w" if "prefix (bytes ''./'') w" using ok(3) that by (auto simp: line_action_def split: if_splits)
  note kill = kill_eq [OF w]
  have cmp: "strcmp_libc m ?s (lit_pwd v) = Some (if w = bytes ''pwd'' then 0 else 1)" "strcmp_libc m ?s (lit_clear v) = Some (if w = bytes ''clear'' then 0 else 1)"
    using strcmp_libc_eq w(1) lits by blast+
  have Show: "ends_with (Show cwd) p (trace h (Do (Cwd2 (temp v)) m (\<lambda>(m, _). do_call (Printf (Lit [37, 115, 10]) [Ptr (temp v)]) m)) st)"
    by (rule ends_Do [OF env(1)]) (use cw in \<open>auto simp: ends_with_def\<close>)
  have "\<not> (prefix (bytes ''./'') w \<and> \<not> prefix (bytes ''./sbush'') w)" using nscript by blast
  then have la: "line_action cwd w =
      (if w = bytes ''pwd'' then Show cwd
       else if prefix (bytes ''exp'') w then (if prefix (bytes ''ort '') (drop 3 w) then Assign (drop 7 w) else Nothing)
       else if prefix (bytes ''cd '') w then Change (drop 3 w)
       else if prefix (bytes ''sleep '') w then Run (bytes ''bin/sleep'') (drop 6 w)
       else if prefix (bytes ''ls'') w then
         (let k = if prefix [32] (drop 2 w) then 3 else 2 in Run (bytes ''bin/ls'') (with_parent (take k w) cwd (drop k w)))
       else if prefix (bytes ''ps'') w then Run (bytes ''bin/ps'') w
       else if prefix (bytes ''kill'') w \<and> prefix (bytes ''-9'') (drop 5 w) then Run (bytes ''bin/kill'') (drop 7 w)
       else if prefix (bytes ''./sbush'') w then Run (bytes ''bin/sbush'') (drop 7 w)
       else if prefix (bytes ''echo '') w then Run (bytes ''bin/echo'') (drop 5 w)
       else if prefix (bytes ''cat'') w then Run (bytes ''bin/cat'') (with_parent (take 4 w) cwd (drop 4 w))
       else if prefix (bytes ''exit'') w then Leave
       else if w = bytes ''clear'' then Wipe
       else Reject w)"
    unfolding line_action_def by (simp only: if_False)
  have zero: "((if b then 0 else 1) = (0 :: cint)) = b" for b by simp
  show ?thesis
    unfolding la sbush_command_def Let_def cmp lift_simps zero kill st [OF zero_free(2)] st [OF zero_free(4)] st [OF zero_free(5)] st [OF zero_free(6)]
      st [OF zero_free(7)] st [OF zero_free(10)] st [OF zero_free(1)] st [OF zero_free(11)] st [OF zero_free(12)] st [OF zero_free(14)]
  proof (intro ends_if, goal_cases)
    case 1
    show ?case by (rule Show)
  next
    case 2
    then have l3: "3 \<le> length w" using prefix_length [OF 2(2)] by (simp add: bytes_def)
    have o: "starts m (?s + 3) (bytes ''ort '') \<longleftrightarrow> prefix (bytes ''ort '') (drop 3 w)" using at [OF l3 zero_free(3)] by simp
    show ?case
    proof (cases "prefix (bytes ''ort '') (drop 3 w)")
      case True
      then have "7 \<le> length w" using prefix_length [OF True] by (simp add: bytes_def)
      from down [OF this w(1), of ?s] obtain m' where "strcpy_libc ?s (?s + 7) m = Some m'" "c_string m' ?s (drop 7 w)" by auto
      with True o show ?thesis by (simp add: ends_with_def)
    next
      case False
      with o show ?thesis by (simp add: ends_with_def)
    qed
  next
    case 3
    have l3: "3 \<le> length w" using prefix_length [OF 3(3)] by (simp add: bytes_def)
    have "c_string (write_bytes m (temp v) (replicate 100 0)) ?s w"
      by (rule c_string_write_other [OF w(1)]) (rule apart_mono [OF ts]; use lw in simp)
    from down [OF l3 this, of "temp v"] ts obtain m' where
      "strcpy_libc (temp v) (?s + 3) (write_bytes m (temp v) (replicate 100 0)) = Some m'" "c_string m' (temp v) (drop 3 w)" by auto
    then show ?case by (simp add: ends_with_def)
  next
    case 4
    have "6 \<le> length w" using prefix_length [OF 4(4)] by (simp add: bytes_def)
    from run [OF this] show ?case by simp
  next
    case 5
    have l: "11 \<le> length w + length cwd" by (rule ok(2) [OF 5(5)])
    show ?case
    proof (rule ends_Do [OF env(1)])
      fix st
      have "ends_with (let k = if prefix [32] (drop 2 w) then 3 else 2 in Run (bytes ''bin/ls'') (with_parent (take k w) cwd (drop k w))) 0
        (trace h (run_ls v ?s (temp v) ?m) st)" for st
        by (rule ls_copied [OF lay sw cw 5(5) len(1,2) l])
      then show "ends_with (Run (bytes ''bin/ls'') (with_parent (take (if prefix [32] (drop 2 w) then 3 else 2) w) cwd
          (drop (if prefix [32] (drop 2 w) then 3 else 2) w))) p
        (trace h (case (?m, 0) of (m, uu_) \<Rightarrow> fork_run m (run_ls v ?s (temp v))) st)"
        unfolding Let_def prod.case by (intro ends_fork [OF env(2)]) simp
    qed simp
  next
    case 6
    from run [of 0] show ?case by simp
  next
    case 7
    then have "7 \<le> length w" using prefix_length [of "bytes ''-9''" "drop 5 w"] by (simp add: bytes_def)
    from run [OF this] show ?case by simp
  next
    case 8
    have l7: "7 \<le> length w" using prefix_length [OF 8(8)] by (simp add: bytes_def)
    have l31: "length w < 2 ^ 31" using lw by simp
    define m' where "m' = m(?s + of_nat (length w) + 1 := 0, ?s + of_nat (length w) + 2 := 0)"
    have e: "strlen_libc ?s m = Some (m', int (length w))" unfolding m'_def by (rule strlen_libc_eq [OF w(1) l31])
    have m': "c_string m' ?s w" unfolding m'_def using c_string_behind [of _ ?s w 1] c_string_behind [of _ ?s w 2] w(1) lw by simp
    have "w ! 2 = 115" using 8(8) by (auto simp: bytes_def prefix_def)
    then have n: "m' (?s + 2) \<noteq> 32" using c_string_at [OF m', of 2] l7 by simp
    have c: "c_string m' (?s + 7) (drop 7 w)" using string_at [OF m' l7] by simp
    show ?case unfolding e lift_simps prod.case
      by (rule ends_fork [OF env(2)]) (use n c in \<open>simp add: ends_with_def\<close>)
  next
    case 9
    have n: "\<not> (prefix (bytes ''./'') w \<and> starts m (?s + of_int (slen - 3)) (bytes ''.sh''))" using nscript 9(8) by blast
    show ?case
    proof (intro ends_skip [OF n] ends_if, goal_cases)
      case 1
      have "5 \<le> length w" using prefix_length [OF 1] by (simp add: bytes_def)
      from run [OF this] show ?case by simp
    next
      case 2
      have "3 \<le> length w" using prefix_length [OF 2(2)] by (simp add: bytes_def)
      moreover have "length w \<noteq> 3" using 2(2) ok(1) by (auto simp: bytes_def prefix_def)
      ultimately have l4: "4 \<le> length w" by simp
      show ?case
      proof (rule ends_Do [OF env(1)])
        fix st
        have "ends_with (Run (bytes ''bin/cat'') (with_parent (take 4 w) cwd (drop 4 w))) 0
          (trace h (run_path v (bytes ''bin/cat'') ?s (temp v) (?s + 4) ?m) st)" for st
          using path [of 4] l4 by simp
        then show "ends_with (Run (bytes ''bin/cat'') (with_parent (take 4 w) cwd (drop 4 w))) p
          (trace h (case (?m, 0) of (m, uu_) \<Rightarrow> fork_run m (run_path v (bytes ''bin/cat'') ?s (temp v) (?s + 4))) st)"
          unfolding prod.case by (intro ends_fork [OF env(2)]) simp
      qed simp
    next
      case 3
      show ?case by (rule ends_call) simp
    next
      case 4
      show ?case by (rule ends_call) simp
    next
      case 5
      show ?case by (rule ends_call) (use w(1) in simp)
    qed
  qed
qed

text \<open>C38: The shell does with a line what the line says. In one turn it shows the prompt and reads a line \<open>w\<close>; then it makes
  no call, when \<open>w\<close> is a broken \<open>export\<close>, and otherwise its last call does the action of the line: the
  directory and the variable a built-in command names are the ones in the line, and of a command that is a program,
  after \<open>fork\<close>, the parent waits for the child and the child becomes the program, with the rest of
  the line, or the path made of it and the current directory, as its argument.\<close>

theorem sbush_performs:
  assumes "layout v" "c_string m (lit_pwd v) (bytes ''pwd'')" "c_string m (lit_clear v) (bytes ''clear'')"
    and "w \<noteq> []" "0 \<notin> set w" "7 \<le> length cwd" "length w + length cwd + 3 \<le> 100" "0 \<notin> set cwd"
    and "answers h Getcwd (\<lambda>m. (m, g))" "answers h (Scanf [37, 115] (str v)) (\<lambda>m. (write_bytes m (str v) (w @ [0, 0]), 0))"
    and "answers h (Cwd2 (temp v)) (\<lambda>m. (write_bytes m (temp v) (cwd @ [0, 0]), 0))" "answers h Fork (\<lambda>m. (m, p))"
    and "squeeze w \<noteq> bytes ''cat''" "prefix (bytes ''ls'') (squeeze w) \<longrightarrow> 11 \<le> length (squeeze w) + length cwd"
    and "line_action cwd (squeeze w) \<noteq> Script"
  shows "\<exists>m0 m1 calls. trace h (sbush_turn n v m) s = (Getcwd, m0) # (Scanf [37, 115] (str v), m1) # calls \<and>
    ends_with (line_action cwd (squeeze w)) p calls"
proof -
  note lay = assms(1)
  let ?s = "str v"
  define m0 where "m0 = m(?s := 0, temp v := 0)"
  define m1 where "m1 = write_bytes m0 ?s (w @ [0, 0])"
  define m2 where "m2 = m1(?s + of_nat (length w) + 1 := 0, ?s + of_nat (length w) + 2 := 0)"
  have lw: "length w \<le> 90" using assms(6,7) by simp
  have l31: "length w < 2 ^ 31" using lw by simp
  have w1: "c_string m1 ?s w" unfolding m1_def by (rule c_string_write [OF assms(5), of "[0]"]) (use lw in simp)
  have len: "strlen_libc ?s m1 = Some (m2, int (length w))" unfolding m2_def by (rule strlen_libc_eq [OF w1 l31])
  have w2: "c_string m2 ?s w"
    unfolding m2_def using c_string_behind [of _ ?s w 1] c_string_behind [of _ ?s w 2] w1 lw by simp
  have z2: "m2 (?s + of_nat (length w) + 1) = 0" by (simp add: m2_def)
  obtain m3 where m3: "removespace ?s m2 = Some m3" "c_string m3 ?s (squeeze w)" "same_out ?s (length w + 2) m2 m3"
      "m3 (?s + of_nat (length (squeeze w)) + 1) = 0" "length (squeeze w) \<le> length w"
    using removespace_eq [OF w2 l31 z2] by blast
  have "same_out ?s 100 m0 m1" unfolding m1_def by (rule same_out_write) (use lw in simp)
  moreover have "same_out ?s 100 m1 m2"
    unfolding m2_def by (rule same_out_trans; rule same_out_upd [of _ _ "length w + 1"] same_out_upd [of _ _ "length w + 2"]) (use lw in simp_all)
  moreover have "same_out ?s 100 m2 m3" using same_out_mono [OF m3(3)] lw by simp
  ultimately have so: "same_out ?s 100 m0 m3" using same_out_trans by blast
  have lit: "c_string m3 q t" if "c_string m q t" "apart ?s 100 q (Suc (length t))" "apart (temp v) 100 q (Suc (length t))" for q t
  proof -
    have "c_string m0 q t"
      unfolding m0_def using that(1) apart_head [OF that(2)] apart_head [OF that(3)] by (simp add: c_string_upd)
    then show ?thesis using same_out_string [OF so that(2)] by blast
  qed
  have lits: "c_string m3 (lit_pwd v) (bytes ''pwd'')" "c_string m3 (lit_clear v) (bytes ''clear'')"
    using lit [OF assms(2)] lit [OF assms(3)] lay by (simp_all add: layout_def bytes_def eval_nat_numeral)
  have "length (squeeze w) + length cwd + 3 \<le> 100" using m3(5) assms(7) by simp
  then have "ends_with (line_action cwd (squeeze w)) p (trace h (sbush_command n v (int (length w)) m3) s')" for s'
    using command_performs [OF lay m3(2,4) lits assms(6) _ assms(8,11,12,13)] assms(14,15) by blast
  moreover have "trace h (sbush_turn n v m) s = (Getcwd, m0) # (Scanf [37, 115] ?s, m0) #
      trace h (sbush_command n v (int (length w)) m3) (fst (h (fst (h s Getcwd m0)) (Scanf [37, 115] ?s) m0))"
    unfolding sbush_turn_def trace_answers [OF assms(9)] prod.case trace_answers [OF assms(10)] m0_def [symmetric] m1_def [symmetric] len lift_simps
    using m3(1) assms(4) by simp
  ultimately show ?thesis by blast
qed

text \<open>A line with two spaces, typed in the root; this is the child.\<close>

definition demo_arrays :: arrays where
  "demo_arrays = \<lparr>str = 1000, temp = 2000, parent_temp = 3000, sbang_temp3 = 4000, sbang_temp4 = 5000, binary_str = 6000, binary_temp = 7000,
     lit_pwd = 8000, lit_clear = 9000\<rparr>"

definition demo_literals :: mem where
  "demo_literals = write_bytes (write_bytes (\<lambda>_. 0) 8000 (bytes ''pwd'')) 9000 (bytes ''clear'')"

fun demo_env :: "u8 list \<Rightarrow> u8 list \<Rightarrow> u64 \<Rightarrow> unit env" where
  "demo_env w text p s (Scanf f a) m = (s, write_bytes m a (w @ [0, 0]), 0)"
| "demo_env w text p s (Cwd2 a) m = (s, write_bytes m a (bytes ''rootfs/'' @ [0, 0]), 0)"
| "demo_env w text p s (Read f a n) m = (s, write_bytes m a (text @ [0]), 0)"
| "demo_env w text p s Fork m = (s, m, p)"
| "demo_env w text p s c m = (s, m, 0)"

theorem sbush_performs_witness:
  "\<exists>m0 m1 calls. trace (demo_env (bytes ''echo  hi'') [] 0) (sbush_turn 0 demo_arrays demo_literals) () =
      (Getcwd, m0) # (Scanf [37, 115] 1000, m1) # calls \<and> ends_with (Run (bytes ''bin/echo'') (bytes ''hi'')) 0 calls"
proof -
  have sq: "squeeze (bytes ''echo  hi'') = bytes ''echo hi''" by (simp add: squeeze_def bytes_def)
  have act: "line_action (bytes ''rootfs/'') (bytes ''echo hi'') = Run (bytes ''bin/echo'') (bytes ''hi'')"
    by (simp add: line_action_def bytes_def)
  have str: "str demo_arrays = 1000" by (simp add: demo_arrays_def)
  have "\<exists>m0 m1 calls. trace (demo_env (bytes ''echo  hi'') [] 0) (sbush_turn 0 demo_arrays demo_literals) () =
      (Getcwd, m0) # (Scanf [37, 115] (str demo_arrays), m1) # calls \<and>
      ends_with (line_action (bytes ''rootfs/'') (squeeze (bytes ''echo  hi''))) 0 calls"
    by (rule sbush_performs [where g = 0])
      (simp_all add: layout_def demo_arrays_def demo_literals_def bytes_def answers_def squeeze_def line_action_def apart_below)
  then show ?thesis unfolding sq act str .
qed

section \<open>Scripts\<close>

text \<open>The calls of the parent for one line of a script.\<close>

definition line_calls :: "arrays \<Rightarrow> u64 \<Rightarrow> u8 list \<Rightarrow> ucall list" where
  "line_calls v p l =
     (if prefix (bytes ''sleep '') l then [Fork, WaitPid p]
      else if prefix (bytes ''cat '') l then [Cwd2 (binary_temp v), Fork, WaitPid p]
      else if prefix (bytes ''echo '') l then [Fork, WaitPid p]
      else if prefix (bytes ''ls'') l then [Cwd2 (binary_temp v), Fork, WaitPid p]
      else if prefix (bytes ''kill'') l \<and> prefix (bytes ''-9'') (drop 5 l) then [Fork, WaitPid p]
      else if prefix (bytes ''ps'') l then [Fork, WaitPid p]
      else [])"

text \<open>A part of a trace: its calls, and how it ends, with the bytes at \<open>q\<close> kept.\<close>

definition calls_to :: "'s env \<Rightarrow> prog \<Rightarrow> u64 \<Rightarrow> mem \<Rightarrow> ucall list \<Rightarrow> bool" where
  "calls_to h x q m cs \<longleftrightarrow> (\<forall>s. map fst (trace h x s) = cs \<and>
     (\<exists>s' m' r. final h x s = Some (s', m', r) \<and> (\<forall>i<100. m' (q + of_nat i) = m (q + of_nat i))))"

lemma calls_to_Finish: "(\<And>i. i < 100 \<Longrightarrow> m' (q + of_nat i) = m (q + of_nat i)) \<Longrightarrow> calls_to h (Finish m' r) q m []"
  by (simp add: calls_to_def)

lemma calls_to_Do: "answers h c f \<Longrightarrow> calls_to h (k (f m1)) q m cs \<Longrightarrow> calls_to h (Do c m1 k) q m (c # cs)"
  by (simp add: calls_to_def answers_def)

lemma calls_to_fork:
  assumes "answers h Fork (\<lambda>m. (m, p))" "answers h (WaitPid p) (\<lambda>m. (m, r))" "p \<noteq> 0" "\<And>i. i < 100 \<Longrightarrow> m1 (q + of_nat i) = m (q + of_nat i)"
  shows "calls_to h (fork_run m1 child) q m [Fork, WaitPid p]"
proof -
  have "calls_to h (do_call (WaitPid p) m1) q m [WaitPid p]"
    unfolding do_call_def by (rule calls_to_Do [OF assms(2)]) (use assms(4) in \<open>simp add: calls_to_Finish\<close>)
  then show ?thesis unfolding fork_run_def by (intro calls_to_Do [OF assms(1)]) (use assms(3) in simp)
qed

lemma calls_to_if: "(c \<Longrightarrow> calls_to h x q m cs) \<Longrightarrow> (\<not> c \<Longrightarrow> calls_to h y q m ds) \<Longrightarrow> calls_to h (if c then x else y) q m (if c then cs else ds)"
  by simp

lemma calls_to_seq_0:
  assumes "calls_to h x q m cs"
  shows "calls_to h (seq x (\<lambda>(m, _). Finish m 0)) q m cs" "\<exists>s' m'. final h (seq x (\<lambda>(m, _). Finish m 0)) s = Some (s', m', 0) \<and>
    (\<forall>i<100. m' (q + of_nat i) = m (q + of_nat i))"
proof -
  have e: "\<exists>s' m' r. final h x s = Some (s', m', r) \<and> (\<forall>i<100. m' (q + of_nat i) = m (q + of_nat i))" for s
    using assms by (simp add: calls_to_def)
  then have f: "\<exists>s' m'. final h (seq x (\<lambda>(m, _). Finish m 0)) s = Some (s', m', 0) \<and> (\<forall>i<100. m' (q + of_nat i) = m (q + of_nat i))" for s
  proof -
    from e [of s] obtain s' m' r where "final h x s = Some (s', m', r)" "\<forall>i<100. m' (q + of_nat i) = m (q + of_nat i)" by blast
    then show ?thesis by (simp add: final_seq)
  qed
  then show "\<exists>s' m'. final h (seq x (\<lambda>(m, _). Finish m 0)) s = Some (s', m', 0) \<and> (\<forall>i<100. m' (q + of_nat i) = m (q + of_nat i))" .
  have "map fst (trace h (seq x (\<lambda>(m, _). Finish m 0)) s) = cs" for s
  proof -
    from e [of s] obtain s' m' r where "final h x s = Some (s', m', r)" by blast
    with assms show ?thesis by (simp add: trace_seq calls_to_def)
  qed
  with f show "calls_to h (seq x (\<lambda>(m, _). Finish m 0)) q m cs" unfolding calls_to_def by blast
qed

text \<open>The arrays of the functions that run a script.\<close>

definition script_layout :: "arrays \<Rightarrow> u64 \<Rightarrow> bool" where
  "script_layout v s \<longleftrightarrow> apart (sbang_temp3 v) 100 s 100 \<and> apart (sbang_temp4 v) 100 (sbang_temp3 v) 100 \<and>
     apart (binary_str v) 100 (sbang_temp3 v) 100 \<and> apart (binary_temp v) 100 (sbang_temp3 v) 100 \<and>
     apart (binary_str v) 100 (sbang_temp4 v) 100 \<and> apart (binary_temp v) 100 (sbang_temp4 v) 100 \<and> apart (binary_temp v) 100 (binary_str v) 100"

lemma same_out_keep: "same_out p n m m' \<Longrightarrow> n \<le> 100 \<Longrightarrow> apart p 100 q 100 \<Longrightarrow> i < 100 \<Longrightarrow> m' (q + of_nat i) = m (q + of_nat i)"
  using same_out_at [of p 100 m m' q 100 i] same_out_mono by blast

lemma binary_command_calls:
  assumes b: "c_string m b l" "m (b + of_nat (length l) + 1) = 0" and q: "apart t 100 q 100" "length cwd + 2 \<le> 100" and p: "p \<noteq> 0"
    and t: "t = binary_temp v"
    and env: "answers h (Cwd2 t) (\<lambda>m. (write_bytes m t (cwd @ [0, 0]), 0))" "answers h Fork (\<lambda>m. (m, p))" "answers h (WaitPid p) (\<lambda>m. (m, r))"
  shows "calls_to h (binary_command v b t m) q m (line_calls v p l)"
proof -
  note st = starts_eq [OF b(1)]
  have kill: "starts m b (bytes ''kill'') \<and> starts m (b + 5) (bytes ''-9'') \<longleftrightarrow> prefix (bytes ''kill'') l \<and> prefix (bytes ''-9'') (drop 5 l)"
    by (rule kill_eq [OF b])
  have run: "calls_to h (fork_run m child) q m [Fork, WaitPid p]" for child
    by (rule calls_to_fork [OF env(2,3) p refl])
  have "same_out t 100 m (write_bytes m t (cwd @ [0, 0]))" by (rule same_out_write) (use q(2) in simp)
  then have keep: "write_bytes m t (cwd @ [0, 0]) (q + of_nat i) = m (q + of_nat i)" if "i < 100" for i
    using same_out_keep [OF _ order.refl q(1) that] by blast
  have path: "calls_to h (Do (Cwd2 t) m (\<lambda>(m, _). fork_run m child)) q m [Cwd2 (binary_temp v), Fork, WaitPid p]" for child
  proof -
    have "calls_to h (fork_run (write_bytes m t (cwd @ [0, 0])) child) q m [Fork, WaitPid p]"
      by (rule calls_to_fork [OF env(2,3) p]) (rule keep)
    then show ?thesis unfolding t [symmetric] by (intro calls_to_Do [OF env(1)]) simp
  qed
  have none: "calls_to h (Finish m 0) q m []" by (rule calls_to_Finish) simp
  show ?thesis
    unfolding binary_command_def line_calls_def kill st [OF zero_free(5)] st [OF zero_free(13)] st [OF zero_free(11)] st [OF zero_free(6)] st [OF zero_free(7)]
    by (intro calls_to_if run path none)
qed

lemma checking_calls:
  assumes lay: "script_layout v s0" and s: "c_string m (sbang_temp4 v) l" "length l \<le> 90" and cwd: "length cwd + 2 \<le> 100" and p: "p \<noteq> 0"
    and nul: "m (sbang_temp4 v + of_nat (length l) + 1) = 0"
    and env: "answers h (Cwd2 (binary_temp v)) (\<lambda>m. (write_bytes m (binary_temp v) (cwd @ [0, 0]), 0))" "answers h Fork (\<lambda>m. (m, p))"
      "answers h (WaitPid p) (\<lambda>m. (m, r))"
  shows "map fst (trace h (checkingForBinary v (sbang_temp4 v) m) st) = line_calls v p l \<and>
    (\<exists>s' m'. final h (checkingForBinary v (sbang_temp4 v) m) st = Some (s', m', 0) \<and>
      (\<forall>i<100. m' (sbang_temp3 v + of_nat i) = m (sbang_temp3 v + of_nat i)))"
proof -
  let ?b = "binary_str v" and ?t = "binary_temp v" and ?s = "sbang_temp4 v" and ?q = "sbang_temp3 v"
  have ap: "apart ?b 100 ?q 100" "apart ?t 100 ?q 100" "apart ?s 100 ?q 100" "apart ?b 100 ?s 100" "apart ?t 100 ?s 100" "apart ?t 100 ?b 100"
    using lay by (simp_all add: script_layout_def)
  define m0 where "m0 = m(?b := 0, ?t := 0)"
  define m1 where "m1 = write_bytes m0 ?b (l @ [0, 0])"
  have o0: "same_out ?b 100 m (m(?b := 0))" "same_out ?t 100 (m(?b := 0)) m0"
    unfolding m0_def by (rule same_out_upd [where i = 0]; simp)+
  have o1: "same_out ?b 100 m0 m1" unfolding m1_def by (rule same_out_write) (use s(2) in simp)
  have keep1: "m1 (x + of_nat i) = m (x + of_nat i)" if "apart ?b 100 x 100" "apart ?t 100 x 100" "i < 100" for x i
    using same_out_at [OF o0(1) that(1,3)] same_out_at [OF o0(2) that(2,3)] same_out_at [OF o1 that(1,3)] by simp
  have keep0: "m0 (?s + of_nat i) = m (?s + of_nat i)" if "i < 100" for i
    using same_out_at [OF o0(1) ap(4) that] same_out_at [OF o0(2) ap(5) that] by simp
  have "c_string m0 ?s l" using c_string_cong [of l m0 ?s m] keep0 s by simp
  moreover have "apart ?b (length l) ?s (Suc (length l))" by (rule apart_mono [OF ap(4)]) (use s(2) in simp_all)
  ultimately have e1: "strcpy_libc ?b ?s m0 = Some m1" unfolding m1_def by (rule strcpy_libc_eq)
  have z: "0 \<notin> set l" using s(1) by (simp add: c_string_iff)
  have b1: "c_string m1 ?b l" unfolding m1_def by (rule c_string_write [OF z, of "[0]"]) (use s(2) in simp)
  have "length l + 1 < length (l @ [0, 0 :: u8])" "length (l @ [0, 0 :: u8]) \<le> 2 ^ 64" using s(2) by simp_all
  from write_bytes_at [OF this, of m0 ?b] have n1: "m1 (?b + of_nat (length l) + 1) = 0" unfolding m1_def by (simp add: nth_append ac_simps)
  have s1: "c_string m1 ?s l" using c_string_cong [of l m1 ?s m] keep1 [OF ap(4,5)] s by simp
  have "m1 (?s + of_nat (length l) + 1) = 0" using keep1 [OF ap(4,5), of "length l + 1"] nul s(2) by (simp add: ac_simps)
  then obtain m2 where m2: "removespace ?s m1 = Some m2" "same_out ?s (length l + 2) m1 m2"
    using removespace_eq [OF s1] s(2) by auto
  have o2: "same_out ?s 100 m1 m2" using same_out_mono [OF m2(2)] s(2) by simp
  have sb: "apart ?s 100 ?b 100" using ap(4) apart_sym by blast
  have b2: "c_string m2 ?b l" using c_string_cong [of l m2 ?b m1] same_out_at [OF o2 sb] b1 s(2) by simp
  have n2: "m2 (?b + of_nat (length l) + 1) = 0" using same_out_at [OF o2 sb, of "length l + 1"] n1 s(2) by (simp add: ac_simps)
  have k2: "m2 (?q + of_nat i) = m (?q + of_nat i)" if "i < 100" for i
    using same_out_at [OF o2 ap(3) that] keep1 [OF ap(1,2) that] by simp
  have c: "calls_to h (binary_command v ?b ?t m2) ?q m2 (line_calls v p l)"
    by (rule binary_command_calls [OF b2 n2 ap(2) cwd p refl env])
  have e: "checkingForBinary v ?s m = seq (binary_command v ?b ?t m2) (\<lambda>(m, _). Finish m 0)"
    using e1 m2(1) by (simp add: checkingForBinary_def m0_def)
  have "map fst (trace h (checkingForBinary v ?s m) st) = line_calls v p l" using calls_to_seq_0(1) [OF c] by (simp add: e calls_to_def)
  with calls_to_seq_0(2) [OF c, of st] k2 show ?thesis by (simp add: e)
qed

text \<open>
  A script is its first line and the lines it runs, each with its newline. It has to fit into the arrays of 100
  bytes that \<open>executeSbang\<close> copies it to.
\<close>

definition script_text :: "u8 list \<Rightarrow> u8 list list \<Rightarrow> u8 list" where
  "script_text line1 ls = line1 @ 10 # concat (map (\<lambda>l. l @ [10]) ls)"

lemma skip_line_eq: "starts m p l \<Longrightarrow> 10 \<notin> set l \<Longrightarrow> m (p + of_nat (length l)) = 10 \<Longrightarrow> skip_line m p = Some (p + of_nat (length l))"
proof (induction l arbitrary: p)
  case Nil
  then show ?case by (subst skip_line.simps) simp
next
  case (Cons c l)
  then have "skip_line m (p + 1) = Some (p + 1 + of_nat (length l))" by (intro Cons.IH) (simp_all add: add.assoc)
  with Cons.prems show ?case by (subst skip_line.simps) (simp add: add.assoc)
qed

lemma sbang_loop_calls:
  assumes lay: "script_layout v s0" and cwd: "length cwd + 2 \<le> 100" and p: "p \<noteq> 0"
    and env: "answers h (Cwd2 (binary_temp v)) (\<lambda>m. (write_bytes m (binary_temp v) (cwd @ [0, 0]), 0))" "answers h Fork (\<lambda>m. (m, p))"
      "answers h (WaitPid p) (\<lambda>m. (m, r))"
    and ls: "\<forall>l\<in>set ls. 10 \<notin> set l" "c_string m (sbang_temp3 v + of_nat k) (concat (map (\<lambda>l. l @ [10]) ls))"
      "k + length (concat (map (\<lambda>l. l @ [10]) ls)) \<le> 90" "length ls < n"
  shows "map fst (trace h (sbang_loop n v (sbang_temp3 v + of_nat k) m) st) = concat (map (line_calls v p) ls)"
  using ls
proof (induction ls arbitrary: n m k st)
  case Nil
  then obtain n' where "n = Suc n'" by (cases n) auto
  with Nil show ?case by simp
next
  case (Cons l ls)
  let ?q = "sbang_temp3 v + of_nat k" and ?t = "sbang_temp4 v" and ?rest = "concat (map (\<lambda>l. l @ [10]) ls)"
  obtain n' where n: "n = Suc n'" "length ls < n'" using Cons.prems(4) by (cases n) auto
  have str: "c_string m ?q (l @ 10 # ?rest)" using Cons.prems(2) by simp
  have len: "k + length l + 1 + length ?rest \<le> 90" using Cons.prems(3) by simp
  have l: "starts m ?q l" "0 \<notin> set l" "m (?q + of_nat (length l)) = 10" using str by (auto simp: c_string_append)
  have nz: "m ?q \<noteq> 0" using str by (cases l) auto
  have skip: "skip_line m ?q = Some (?q + of_nat (length l))" by (rule skip_line_eq [OF l(1) _ l(3)]) (use Cons.prems(1) in simp)
  define m1 where "m1 = m(?q + of_nat (length l) := 0)"
  have same: "m1 (sbang_temp3 v + of_nat j) = m (sbang_temp3 v + of_nat j)" if "j < 100" "j \<noteq> k + length l" for j
    using offset_inj [of "k + length l" j "sbang_temp3 v"] that len by (auto simp: m1_def add.assoc)
  have "starts m1 ?q l = starts m ?q l"
  proof (rule starts_cong)
    fix i assume "i < length l"
    with same [of "k + i"] len show "m1 (?q + of_nat i) = m (?q + of_nat i)" by (simp add: add.assoc)
  qed
  with l have s1: "c_string m1 ?q l" using c_string_append [of m1 ?q l "[]"] by (simp add: m1_def)
  define m2 where "m2 = write_bytes m1 ?t (l @ [0, 0])"
  have ap: "apart ?t 100 (sbang_temp3 v) 100" "apart (sbang_temp3 v) 100 ?t 100" using lay apart_sym by (auto simp: script_layout_def)
  have "apart ?q (100 - k) ?t 100" by (rule apart_offset) (use ap(2) len in simp)
  then have "apart ?t (length l) ?q (Suc (length l))"
    using apart_mono [of ?q "100 - k" ?t 100 "Suc (length l)" "length l"] len by (simp add: apart_sym [of ?t])
  with s1 have e: "strcpy_libc ?t ?q m1 = Some m2" unfolding m2_def by (rule strcpy_libc_eq)
  have s2: "c_string m2 ?t l" unfolding m2_def by (rule c_string_write [OF l(2), of "[0]"]) (use len in simp)
  have "length l + 1 < length (l @ [0, 0 :: u8])" "length (l @ [0, 0 :: u8]) \<le> 2 ^ 64" using len by simp_all
  from write_bytes_at [OF this, of m1 ?t] have z2: "m2 (?t + of_nat (length l) + 1) = 0" unfolding m2_def by (simp add: nth_append ac_simps)
  have "same_out ?t 100 m1 m2" unfolding m2_def by (rule same_out_write) (use len in simp)
  then have keep2: "m2 (sbang_temp3 v + of_nat i) = m1 (sbang_temp3 v + of_nat i)" if "i < 100" for i
    using same_out_at [OF _ ap(1) that] by blast
  have "length l \<le> 90" using len by simp
  from checking_calls [OF lay s2 this cwd p z2 env, of st] obtain s' m' where c: "map fst (trace h (checkingForBinary v ?t m2) st) = line_calls v p l"
      "final h (checkingForBinary v ?t m2) st = Some (s', m', 0)" "\<forall>i<100. m' (sbang_temp3 v + of_nat i) = m2 (sbang_temp3 v + of_nat i)"
    by blast
  have q': "?q + of_nat (length l) + 1 = sbang_temp3 v + of_nat (k + length l + 1)" by (simp add: ac_simps)
  have "c_string m (sbang_temp3 v + of_nat (k + length l + 1)) ?rest"
    using c_string_tail [of m ?q "l @ [10]" ?rest] str by (simp add: ac_simps)
  moreover have "m' (sbang_temp3 v + of_nat (k + length l + 1) + of_nat i) = m (sbang_temp3 v + of_nat (k + length l + 1) + of_nat i)" if "i \<le> length ?rest" for i
  proof -
    have j: "k + length l + 1 + i < 100" using that len by simp
    have "m' (sbang_temp3 v + of_nat (k + length l + 1 + i)) = m (sbang_temp3 v + of_nat (k + length l + 1 + i))"
      using c(3) [rule_format, OF j] keep2 [OF j] same [OF j] by simp
    then show ?thesis by (simp add: ac_simps)
  qed
  ultimately have r: "c_string m' (sbang_temp3 v + of_nat (k + length l + 1)) ?rest" using c_string_cong by blast
  have "map fst (trace h (sbang_loop n' v (sbang_temp3 v + of_nat (k + length l + 1)) m') s') = concat (map (line_calls v p) ls)"
    by (rule Cons.IH [OF _ r _ n(2)]) (use Cons.prems(1) len in simp_all)
  then show ?case using nz skip e c(1,2) unfolding n(1) by (simp add: m1_def [symmetric] q' trace_seq del: of_nat_add)
qed



end
