(* ===== verification/Typing.thy ===== *)
theory Typing
  imports UserLib
begin

text \<open>
  The types the C structures promise and HOL's records do not: arrays keep their length, strings fit their
  arrays, and integers their width. Every system call keeps them. The proofs follow the code: \<open>ensures\<close> is a
  partial-correctness assertion on the \<open>option\<close> functions, with one rule for each construct.
\<close>

unbundle bit_operations_syntax

section \<open>Well-typed process blocks\<close>

definition pcb_typed :: "pcb \<Rightarrow> bool" where
  "pcb_typed p \<longleftrightarrow> in_i32 (pid p) \<and> in_i32 (ppid p) \<and> in_i32 (n_child p) \<and> 0 \<le> echo_count p \<and> echo_count p < 5 \<and>
     length (fd p) = 5 \<and> length (echo_var_key p) = 5 \<and> length (echo_var p) = 5 \<and>
     (\<forall>s \<in> set (echo_var_key p). fits 50 s) \<and> (\<forall>s \<in> set (echo_var p). fits 50 s) \<and> (\<forall>t \<in> set (fd p). fits 100 (t_name t)) \<and>
     fits 30 (p_name p) \<and> fits 50 (curr_dir p) \<and> fits 50 (temp_curr_dir p)"

definition typed :: "kernel \<Rightarrow> bool" where
  "typed st \<longleftrightarrow> (\<forall>q. pcb_typed (pcbs st q))"

definition machine_typed :: "machine \<Rightarrow> bool" where
  "machine_typed m \<longleftrightarrow> typed (kern m) \<and> in_i32 (read_size m)"

lemma typedD: "typed st \<Longrightarrow> pcb_typed (pcbs st q)"
  by (simp add: typed_def)

lemma typed_cong: "pcbs st' = pcbs st \<Longrightarrow> typed st' \<longleftrightarrow> typed st"
  by (simp add: typed_def)

lemma typed_more: "paging.more st' = paging.more st \<Longrightarrow> typed st' \<longleftrightarrow> typed st"
  by (rule typed_cong) (rule same_objs)

lemma null_pcb_typed: "pcb_typed null_pcb"
  by (auto simp: pcb_typed_def null_pcb_def null_tarfile_def fits_def in_i32_def)

named_theorems typed_simps \<open>which steps keep the types\<close>

lemma typed_fields [typed_simps]:
  "typed (st\<lparr>free_map := a\<rparr>) = typed st" "typed (st\<lparr>pm := b\<rparr>) = typed st" "typed (st\<lparr>reg_cr3 := c\<rparr>) = typed st"
  "typed (st\<lparr>g_cr3 := c\<rparr>) = typed st" "typed (st\<lparr>g_pml4 := c\<rparr>) = typed st" "typed (st\<lparr>g_pt := c\<rparr>) = typed st" "typed (st\<lparr>virt_addr := c\<rparr>) = typed st"
  "typed (st\<lparr>vmas := d\<rparr>) = typed st" "typed (st\<lparr>mms := e\<rparr>) = typed st" "typed (st\<lparr>processID := c\<rparr>) = typed st"
  "typed (st\<lparr>first_process := c\<rparr>) = typed st" "typed (st\<lparr>curr_process := c\<rparr>) = typed st" "typed (st\<lparr>next_process := c\<rparr>) = typed st"
  "typed (st\<lparr>stopped_process := c\<rparr>) = typed st" "typed (st\<lparr>forked_process := c\<rparr>) = typed st" "typed (st\<lparr>zombie := c\<rparr>) = typed st"
  "typed (st\<lparr>tss_rsp0 := c\<rparr>) = typed st" "typed (st\<lparr>out := f\<rparr>) = typed st" "typed (print s st) = typed st"
  "typed (upd_vma v g st) = typed st" "typed (upd_mm x h st) = typed st" "typed (set_CR3 c st) = typed st" "typed (set_tss_rsp c st) = typed st"
  by (simp_all add: typed_def print_def upd_vma_def upd_mm_def set_CR3_def set_tss_rsp_def)

lemma typed_upd_pcb [typed_simps]: "typed st \<Longrightarrow> typed (upd_pcb q f st) \<longleftrightarrow> pcb_typed (f (pcbs st q))"
  by (auto simp: typed_def)

lemma pcb_typed_fields [typed_simps]:
  assumes "pcb_typed p"
  shows "pcb_typed (p\<lparr>pid := i\<rparr>) = in_i32 i" "pcb_typed (p\<lparr>ppid := i\<rparr>) = in_i32 i" "pcb_typed (p\<lparr>n_child := i\<rparr>) = in_i32 i"
    "pcb_typed (p\<lparr>init_kernel := w\<rparr>)" "pcb_typed (p\<lparr>user_stack := w\<rparr>)" "pcb_typed (p\<lparr>rsp := w\<rparr>)" "pcb_typed (p\<lparr>kern_rsp := w\<rparr>)"
    "pcb_typed (p\<lparr>fd_count := w\<rparr>)" "pcb_typed (p\<lparr>rip := w\<rparr>)" "pcb_typed (p\<lparr>cr3 := w\<rparr>)" "pcb_typed (p\<lparr>state := s\<rparr>)"
    "pcb_typed (p\<lparr>next_proc := w\<rparr>)" "pcb_typed (p\<lparr>mm := w\<rparr>)" "pcb_typed (p\<lparr>p_name := b\<rparr>) = fits 30 b"
    "pcb_typed (p\<lparr>curr_dir := b\<rparr>) = fits 50 b" "pcb_typed (p\<lparr>temp_curr_dir := b\<rparr>) = fits 50 b"
    "pcb_typed (p\<lparr>echo_var := e\<rparr>) \<longleftrightarrow> length e = 5 \<and> (\<forall>s \<in> set e. fits 50 s)"
    "pcb_typed (p\<lparr>echo_var_key := e\<rparr>) \<longleftrightarrow> length e = 5 \<and> (\<forall>s \<in> set e. fits 50 s)"
    "pcb_typed (p\<lparr>echo_count := i\<rparr>) \<longleftrightarrow> 0 \<le> i \<and> i < 5"
    "pcb_typed (p\<lparr>fd := f\<rparr>) \<longleftrightarrow> length f = 5 \<and> (\<forall>t \<in> set f. fits 100 (t_name t))"
  using assms by (simp_all add: pcb_typed_def)

lemma pcb_typedD:
  assumes "pcb_typed p"
  shows "in_i32 (pid p)" "in_i32 (ppid p)" "length (fd p) = 5" "length (echo_var p) = 5" "length (echo_var_key p) = 5"
    "\<forall>s \<in> set (echo_var p). fits 50 s" "\<forall>s \<in> set (echo_var_key p). fits 50 s" "\<forall>t \<in> set (fd p). fits 100 (t_name t)"
    "fits 30 (p_name p)" "fits 50 (curr_dir p)" "fits 50 (temp_curr_dir p)" "0 \<le> echo_count p" "echo_count p < 5"
  using assms by (simp_all add: pcb_typed_def)

lemmas kernel_typedD = typedD [THEN pcb_typedD(1)] typedD [THEN pcb_typedD(2)] typedD [THEN pcb_typedD(3)] typedD [THEN pcb_typedD(4)]
  typedD [THEN pcb_typedD(5)] typedD [THEN pcb_typedD(6)] typedD [THEN pcb_typedD(7)] typedD [THEN pcb_typedD(8)] typedD [THEN pcb_typedD(9)]
  typedD [THEN pcb_typedD(10)] typedD [THEN pcb_typedD(11)] typedD [THEN pcb_typedD(12)] typedD [THEN pcb_typedD(13)]

lemma i32_typed [typed_simps]: "in_i32 (i32 x)" "in_i32 0"
  by (rule in_i32_i32) (simp add: in_i32_def)

section \<open>Rules\<close>

definition ensures :: "('a \<Rightarrow> bool) \<Rightarrow> 'a option \<Rightarrow> bool" where
  "ensures P r \<longleftrightarrow> (\<forall>x. r = Some x \<longrightarrow> P x)"

lemma ensuresI: "(\<And>x. r = Some x \<Longrightarrow> P x) \<Longrightarrow> ensures P r"
  by (simp add: ensures_def)

lemma ensuresD: "ensures P r \<Longrightarrow> r = Some x \<Longrightarrow> P x"
  by (simp add: ensures_def)

lemma ensures_Some: "P x \<Longrightarrow> ensures P (Some x)"
  by (simp add: ensures_def)

lemma ensures_None: "ensures P None"
  by (simp add: ensures_def)

lemma ensures_if: "(c \<Longrightarrow> ensures P a) \<Longrightarrow> (\<not> c \<Longrightarrow> ensures P b) \<Longrightarrow> ensures P (if c then a else b)"
  by simp

lemma ensures_let_st: "typed e \<Longrightarrow> (\<And>st. typed st \<Longrightarrow> ensures P (f st)) \<Longrightarrow> ensures P (let st = e in f st)"
  by simp

lemma ensures_let: "(\<And>x. ensures P (f x)) \<Longrightarrow> ensures P (let x = e in f x)"
  by simp

lemma ensures_let_eq: "(\<And>x. x = e \<Longrightarrow> ensures P (f x)) \<Longrightarrow> ensures P (let x = e in f x)"
  by simp

lemma ensures_let_pair: "typed (fst e) \<Longrightarrow> (\<And>st x. typed st \<Longrightarrow> ensures P (f st x)) \<Longrightarrow> ensures P (let (st, x) = e in f st x)"
  by (simp add: split_beta)

lemma ensures_bind_st: "ensures typed e \<Longrightarrow> (\<And>st. typed st \<Longrightarrow> ensures P (f st)) \<Longrightarrow> ensures P (Option.bind e f)"
  by (cases e) (auto simp: ensures_def)

lemma ensures_bind: "(\<And>x. ensures P (f x)) \<Longrightarrow> ensures P (Option.bind e f)"
  by (cases e) (auto simp: ensures_def)

lemma ensures_bind_eq: "(\<And>x. e = Some x \<Longrightarrow> ensures P (f x)) \<Longrightarrow> ensures P (Option.bind e f)"
  by (cases e) (auto simp: ensures_def)

lemma ensures_bind_pair: "ensures (\<lambda>(st, _). typed st) e \<Longrightarrow> (\<And>st x. typed st \<Longrightarrow> ensures P (f st x)) \<Longrightarrow> ensures P (Option.bind e (\<lambda>(st, x). f st x))"
  by (cases e) (auto simp: ensures_def)

lemma ensures_option: "(\<And>x. ensures P (f x)) \<Longrightarrow> ensures P a \<Longrightarrow> ensures P (case e of None \<Rightarrow> a | Some x \<Rightarrow> f x)"
  by (cases e) simp_all

lemma ensures_map_fst: "ensures (\<lambda>(st, _). typed st) e \<Longrightarrow> ensures typed (map_option fst e)"
  by (cases e) (auto simp: ensures_def)

lemma ensures_case: "(\<And>a b. ensures P (f a b)) \<Longrightarrow> ensures P (case x of (a, b) \<Rightarrow> f a b)"
  by (cases x) simp

lemmas ensures_rules = ensures_Some ensures_None ensures_if ensures_let_st ensures_let_pair ensures_let ensures_bind_st ensures_bind_pair ensures_bind ensures_option
  ensures_map_fst ensures_case

section \<open>The memory manager\<close>

lemma allocate_typed [typed_simps]: "typed (fst (allocate_virt_page st)) = typed st"
  by (rule typed_more) (metis allocate_virt_page_more prod.collapse)

lemma kmalloc_typed [typed_simps]: "typed (fst (kmalloc n st)) = typed st"
  by (rule typed_more) (metis kmalloc_more prod.collapse)

lemma page_ops_typed [typed_simps]:
  "typed (memset_page a st) = typed st" "typed (memcpy_page a b st) = typed st" "typed (wr a v st) = typed st"
  "typed (map_phys_to_virt_addr va phys st) = typed st" "typed (map_phys_to_user_virt_addr va phys r st) = typed st"
  by (rule typed_more, simp)+

lemma allocate_more: "paging.more (fst (allocate_virt_page st)) = paging.more st"
  by (metis allocate_virt_page_more prod.collapse)

lemma create_user_address_space_typed [typed_simps]: "typed (fst (create_user_address_space st)) = typed st"
proof (rule typed_more)
  show "paging.more (fst (create_user_address_space st)) = paging.more st"
    unfolding create_user_address_space_def split_beta Let_def fst_conv wr_more memset_page_more map_phys_to_virt_addr_more
    by (simp add: allocate_more)
qed

lemma for_range_more: "(\<And>i st. paging.more (f i st) = paging.more st) \<Longrightarrow> paging.more (for_range f n i st) = paging.more st"
  by (induction n arbitrary: i st) simp_all

lemma copy_pte_more: "paging.more (copy_pte c i st) = paging.more st"
  by (simp add: copy_pte_def Let_def)

lemma copy_pde_more: "paging.more (copy_pde pd c i st) = paging.more st"
  by (simp add: copy_pde_def split_beta Let_def for_range_more copy_pte_more allocate_more)

lemma copy_pdpte_more: "paging.more (copy_pdpte a b i st) = paging.more st"
  by (simp add: copy_pdpte_def split_beta Let_def for_range_more copy_pde_more allocate_more)

lemma copy_pml4e_more: "paging.more (copy_pml4e a i st) = paging.more st"
  by (simp add: copy_pml4e_def split_beta Let_def for_range_more copy_pdpte_more allocate_more)

lemma copy_tables_typed [typed_simps]: "typed (copy_parent_tables a st) = typed st" "typed (for_range (copy_cell x y) n i st) = typed st"
  by (rule typed_more; simp add: copy_parent_tables_def Let_def for_range_more copy_pml4e_more copy_cell_def)+

lemma free_page_typed [typed_simps]: "typed (free_page va r st) = typed st"
  by (rule typed_cong) (rule only_memD [OF free_page_only_mem])

lemma sb_typed: "typed st \<Longrightarrow> ensures typed (sb a b st)"
  by (auto simp: ensures_def sb_def typed_simps)

lemma memset0_typed: "typed st \<Longrightarrow> ensures typed (memset0 a n st)"
  by (induction n arbitrary: a st) (simp_all add: ensures_Some ensures_bind_st sb_typed)

lemma copy_mem_typed: "typed st \<Longrightarrow> ensures typed (copy_mem a b n st)"
proof (induction n arbitrary: a b st)
  case (Suc n)
  then show ?case unfolding copy_mem.simps by (intro ensures_bind [where e = "ld st a"] ensures_bind_st) (auto intro: sb_typed)
qed (simp add: ensures_Some)

lemma store_bytes_typed: "typed st \<Longrightarrow> ensures typed (store_bytes a bs st)"
  by (induction bs arbitrary: a st) (auto simp: ensures_Some intro!: ensures_bind_st sb_typed)

lemma memcpy_from_user_typed: "typed st \<Longrightarrow> ensures typed (memcpy_from_user a b st)"
  by (auto simp: memcpy_from_user_def typed_simps intro!: ensures_rules)

lemma new_objects_typed [typed_simps]:
  "typed st \<Longrightarrow> typed (fst (new_vma st))" "typed st \<Longrightarrow> typed (fst (new_mm st))" "typed st \<Longrightarrow> typed (fst (new_pcb st))"
proof -
  show "typed st \<Longrightarrow> typed (fst (new_vma st))" "typed st \<Longrightarrow> typed (fst (new_mm st))"
    by (simp_all add: new_vma_def new_mm_def split_beta typed_simps)
  have "fst (new_pcb st) = upd_pcb (snd (kmalloc 6000 st)) (\<lambda>_. null_pcb) (fst (kmalloc 6000 st))"
    by (simp add: new_pcb_def split_beta upd_pcb_def)
  then show "typed st \<Longrightarrow> typed (fst (new_pcb st))" by (simp add: typed_simps null_pcb_typed)
qed

lemma next_pid_typed:
  assumes "typed st"
  shows "typed (fst (get_next_processID st))" "in_i32 (snd (get_next_processID st))"
proof -
  have "typed (fst (pid_loop i st)) \<and> in_i32 (snd (pid_loop i st))" for i
    using assms
  proof (induction i st rule: pid_loop.induct)
    case (1 i st)
    then show ?case by (subst (1 2) pid_loop.simps) (auto simp: typed_simps in_i32_def)
  qed
  then show "typed (fst (get_next_processID st))" "in_i32 (snd (get_next_processID st))" by (simp_all add: get_next_processID_def)
qed

lemma ensures_next_pid:
  "typed st \<Longrightarrow> (\<And>st i. typed st \<Longrightarrow> in_i32 i \<Longrightarrow> ensures P (f st i)) \<Longrightarrow> ensures P (let (st, i) = get_next_processID st in f st i)"
  using next_pid_typed by (simp add: split_beta)

section \<open>Processes\<close>

lemma add_loop_typed: "typed st \<Longrightarrow> ensures (\<lambda>(st, _). typed st) (add_loop m v cur st)"
proof (rule ensuresI)
  fix y assume st: "typed st" and a: "add_loop m v cur st = Some y"
  have "typed st \<longrightarrow> (case y of (st, _) \<Rightarrow> typed st)"
    using _ a
  proof (rule add_loop.raw_induct [of "\<lambda>m v cur st y. typed st \<longrightarrow> (case y of (st, _) \<Rightarrow> typed st)"], goal_cases)
    case (1 loop m v cur st y)
    then have IH: "typed st \<Longrightarrow> ensures (\<lambda>(st, _). typed st) (loop m v cur st)" for m v cur st by (auto simp: ensures_def)
    show ?case
      by (rule impI, rule ensuresD [OF _ 1(2)]) (rule ensures_rules IH | (simp add: typed_simps link_after_def Let_def; fail))+
  qed
  with st show "case y of (st, _) \<Rightarrow> typed st" by simp
qed

lemma add_mmstruct_typed: "typed st \<Longrightarrow> ensures (\<lambda>(st, _). typed st) (add_mmstruct m v st)"
  unfolding add_mmstruct_def by (rule ensures_rules add_loop_typed | (simp add: typed_simps; fail))+

lemma area_loop_typed: "typed st \<Longrightarrow> ensures typed (area_loop v fault_addr st)"
proof (rule ensuresI)
  fix y assume st: "typed st" and a: "area_loop v fault_addr st = Some y"
  have "typed st \<longrightarrow> typed y"
    using _ a
  proof (rule area_loop.raw_induct [of "\<lambda>v fault_addr st y. typed st \<longrightarrow> typed y"], goal_cases)
    case (1 loop v fault_addr st y)
    then have IH: "typed st \<Longrightarrow> ensures typed (loop v fault_addr st)" for v fault_addr st by (auto simp: ensures_def)
    show ?case
      by (rule impI, rule ensuresD [OF _ 1(2)]) (rule ensures_rules IH | (simp add: typed_simps; fail))+
  qed
  with st show "typed y" by simp
qed

lemma free_range_typed: "typed st \<Longrightarrow> ensures typed (free_range physfree stop cr3_addr st)"
proof (rule ensuresI)
  fix y assume st: "typed st" and a: "free_range physfree stop cr3_addr st = Some y"
  have "typed st \<longrightarrow> typed y"
    using _ a
  proof (rule free_range.raw_induct [of "\<lambda>physfree stop cr3_addr st y. typed st \<longrightarrow> typed y"], goal_cases)
    case (1 loop physfree stop cr3_addr st y)
    then have IH: "typed st \<Longrightarrow> ensures typed (loop physfree stop cr3_addr st)" for physfree stop cr3_addr st by (auto simp: ensures_def)
    show ?case
      by (rule impI, rule ensuresD [OF _ 1(2)]) (rule ensures_rules IH | (simp add: typed_simps; fail))+
  qed
  with st show "typed y" by simp
qed

lemma free_vma_loop_typed: "typed st \<Longrightarrow> ensures typed (free_vma_loop cur cr3_addr st)"
proof (rule ensuresI)
  fix y assume st: "typed st" and a: "free_vma_loop cur cr3_addr st = Some y"
  have "typed st \<longrightarrow> typed y"
    using _ a
  proof (rule free_vma_loop.raw_induct [of "\<lambda>cur cr3_addr st y. typed st \<longrightarrow> typed y"], goal_cases)
    case (1 loop cur cr3_addr st y)
    then have IH: "typed st \<Longrightarrow> ensures typed (loop cur cr3_addr st)" for cur cr3_addr st by (auto simp: ensures_def)
    show ?case
      by (rule impI, rule ensuresD [OF _ 1(2)]) (rule free_range_typed ensures_rules IH | (simp add: typed_simps; fail))+
  qed
  with st show "typed y" by simp
qed

lemma free_vma_typed: "typed st \<Longrightarrow> ensures typed (free_vma m r st)"
  unfolding free_vma_def by (rule ensures_rules free_vma_loop_typed | (simp; fail))+

lemma release_list_typed: "typed st \<Longrightarrow> ensures typed (release_list p st)"
proof (rule ensuresI)
  fix y assume st: "typed st" and a: "release_list p st = Some y"
  have "typed st \<longrightarrow> typed y"
    using _ a
  proof (rule release_list.raw_induct [of "\<lambda>p st y. typed st \<longrightarrow> typed y"], goal_cases)
    case (1 loop p st y)
    then have IH: "typed st \<Longrightarrow> ensures typed (loop p st)" for p st by (auto simp: ensures_def)
    show ?case
      by (rule impI, rule ensuresD [OF _ 1(2)]) (rule free_vma_typed ensures_rules IH | (simp add: typed_simps; fail))+
  qed
  with st show "typed y" by simp
qed

lemma exit_to_typed: "typed st \<Longrightarrow> ensures typed (exit_to b sp p st)"
  unfolding exit_to_def user_switchBack_def user_switchTask_def
  by (rule ensures_rules | (simp add: typed_simps typedD Let_def; fail))+

lemma sys_exit_typed: "typed st \<Longrightarrow> ensures typed (sys_exit b sp st)"
  unfolding sys_exit_def by (rule ensures_rules release_list_typed exit_to_typed | (simp add: typed_simps typedD; fail))+

lemma pagefault_handler_typed: "typed st \<Longrightarrow> ensures typed (pagefault_handler b sp cr2 st)"
  unfolding pagefault_handler_def
  by (rule memcpy_from_user_typed area_loop_typed sys_exit_typed ensures_rules | (simp add: typed_simps; fail))+

lemma reparent_typed: "typed st \<Longrightarrow> ensures typed (reparent target victim pointer st)"
proof (rule ensuresI)
  fix y assume st: "typed st" and a: "reparent target victim pointer st = Some y"
  have "typed st \<longrightarrow> typed y"
    using _ a
  proof (rule reparent.raw_induct [of "\<lambda>target victim pointer st y. typed st \<longrightarrow> typed y"], goal_cases)
    case (1 loop target victim pointer st y)
    then have IH: "typed st \<Longrightarrow> ensures typed (loop target victim pointer st)" for target victim pointer st by (auto simp: ensures_def)
    show ?case
      by (rule impI, rule ensuresD [OF _ 1(2)]) (rule ensures_rules IH | (simp add: typed_simps typedD in_i32_def; fail))+
  qed
  with st show "typed y" by simp
qed

lemma kill_typed: "typed st \<Longrightarrow> ensures typed (kill b sp target st)"
  unfolding kill_def by (rule sys_exit_typed reparent_typed ensures_rules | (simp add: typed_simps typedD; fail))+

lemma wait_typed: "typed st \<Longrightarrow> ensures (\<lambda>(st, _). typed st) (wait sp w st)"
  unfolding wait_def by (rule ensures_rules | (simp add: typed_simps typedD; fail))+

lemma pid_rows_typed: "typed st \<Longrightarrow> ensures typed (pid_rows p st)"
proof (rule ensuresI)
  fix y assume st: "typed st" and a: "pid_rows p st = Some y"
  have "typed st \<longrightarrow> typed y"
    using _ a
  proof (rule pid_rows.raw_induct [of "\<lambda>p st y. typed st \<longrightarrow> typed y"], goal_cases)
    case (1 loop p st y)
    then have IH: "typed st \<Longrightarrow> ensures typed (loop p st)" for p st by (auto simp: ensures_def)
    show ?case
      by (rule impI, rule ensuresD [OF _ 1(2)]) (rule ensures_rules IH | (simp add: typed_simps; fail))+
  qed
  with st show "typed y" by simp
qed

lemma print_allPID_typed: "typed st \<Longrightarrow> ensures typed (print_allPID st)"
  unfolding print_allPID_def by (rule pid_rows_typed ensures_rules | (simp add: typed_simps; fail))+

section \<open>Programs\<close>

lemma map_segment_typed: "typed st \<Longrightarrow> ensures (\<lambda>(st, _). typed st) (map_segment phdr_start phdr_end cr3_addr st)"
proof (rule ensuresI)
  fix y assume st: "typed st" and a: "map_segment phdr_start phdr_end cr3_addr st = Some y"
  have "typed st \<longrightarrow> (case y of (st, _) \<Rightarrow> typed st)"
    using _ a
  proof (rule map_segment.raw_induct [of "\<lambda>phdr_start phdr_end cr3_addr st y. typed st \<longrightarrow> (case y of (st, _) \<Rightarrow> typed st)"], goal_cases)
    case (1 loop phdr_start phdr_end cr3_addr st y)
    then have IH: "typed st \<Longrightarrow> ensures (\<lambda>(st, _). typed st) (loop phdr_start phdr_end cr3_addr st)" for phdr_start phdr_end cr3_addr st by (auto simp: ensures_def)
    show ?case
      by (rule impI, rule ensuresD [OF _ 1(2)]) (rule ensures_rules IH | (simp add: typed_simps; fail))+
  qed
  with st show "case y of (st, _) \<Rightarrow> typed st" by simp
qed

lemma elf_check_header_typed: "typed st \<Longrightarrow> ensures (\<lambda>(st, _). typed st) (elf_check_header a st)"
  unfolding elf_check_header_def bad_magic_def by (rule ensures_rules | (simp add: typed_simps; fail))+

lemma load_segment_typed: "typed st \<Longrightarrow> ensures (\<lambda>(st, _). typed st) (load_segment p e ph st)"
  unfolding load_segment_def
  by (rule add_mmstruct_typed map_segment_typed copy_mem_typed ensures_rules | (simp add: typed_simps; fail))+

lemma load_loop_typed: "typed st \<Longrightarrow> ensures (\<lambda>(st, _). typed st) (load_loop proc elf_hdr i st)"
proof (rule ensuresI)
  fix y assume st: "typed st" and a: "load_loop proc elf_hdr i st = Some y"
  have "typed st \<longrightarrow> (case y of (st, _) \<Rightarrow> typed st)"
    using _ a
  proof (rule load_loop.raw_induct [of "\<lambda>proc elf_hdr i st y. typed st \<longrightarrow> (case y of (st, _) \<Rightarrow> typed st)"], goal_cases)
    case (1 loop proc elf_hdr i st y)
    then have IH: "typed st \<Longrightarrow> ensures (\<lambda>(st, _). typed st) (loop proc elf_hdr i st)" for proc elf_hdr i st by (auto simp: ensures_def)
    show ?case
      by (rule impI, rule ensuresD [OF _ 1(2)]) (rule load_segment_typed ensures_rules IH | (simp add: typed_simps; fail))+
  qed
  with st show "case y of (st, _) \<Rightarrow> typed st" by simp
qed

lemma init_mmap_typed: "typed st \<Longrightarrow> ensures typed (init_mmap p st)"
  unfolding init_mmap_def by (rule ensures_rules | (simp add: typed_simps; fail))+

lemma load_binaries_typed: "typed st \<Longrightarrow> ensures (\<lambda>(st, _). typed st) (load_binaries p e st)"
  unfolding load_binaries_def
  by (rule elf_check_header_typed load_loop_typed add_mmstruct_typed init_mmap_typed ensures_rules | (simp add: typed_simps typedD; fail))+

lemma make_stack_typed: "typed st \<Longrightarrow> ensures typed (make_stack p st)"
  unfolding make_stack_def by (rule memset0_typed ensures_rules | (simp add: typed_simps typedD; fail))+

lemma copy_areas_typed: "typed st \<Longrightarrow> ensures typed (copy_areas parent_vma first child_pcb st)"
proof (rule ensuresI)
  fix y assume st: "typed st" and a: "copy_areas parent_vma first child_pcb st = Some y"
  have "typed st \<longrightarrow> typed y"
    using _ a
  proof (rule copy_areas.raw_induct [of "\<lambda>parent_vma first child_pcb st y. typed st \<longrightarrow> typed y"], goal_cases)
    case (1 loop parent_vma first child_pcb st y)
    then have IH: "typed st \<Longrightarrow> ensures typed (loop parent_vma first child_pcb st)" for parent_vma first child_pcb st by (auto simp: ensures_def)
    show ?case
      by (rule impI, rule ensuresD [OF _ 1(2)]) (rule add_mmstruct_typed ensures_rules IH | (simp add: typed_simps Let_def split_beta; fail))+
  qed
  with st show "typed y" by simp
qed

lemma copy_parent_structure_typed: "typed st \<Longrightarrow> ensures (\<lambda>(st, _). typed st) (copy_parent_structure p st)"
  unfolding copy_parent_structure_def
  by (rule copy_areas_typed ensures_next_pid ensures_rules | (simp add: typed_simps typedD kernel_typedD; fail))+

lemma fork_child_typed: "typed st \<Longrightarrow> ensures (\<lambda>(st, _). typed st) (fork_child st)"
  unfolding fork_child_def by (rule copy_parent_structure_typed ensures_rules | (simp add: typed_simps typedD; fail))+

lemma cut_ampersand_typed: "typed st \<Longrightarrow> ensures typed (cut_ampersand a n st)"
  unfolding cut_ampersand_def by (rule sb_typed ensures_rules | (simp add: typed_simps; fail))+

lemma retire_typed: "typed st \<Longrightarrow> ensures typed (retire st)"
  unfolding retire_def by (rule ensures_rules | (simp add: typed_simps typedD; fail))+

lemma execve_switch_typed [typed_simps]: "typed st \<Longrightarrow> typed (fst (execve_switch_to_ring3 p st))"
  by (simp add: execve_switch_to_ring3_def Let_def typed_simps typedD)

lemma execve_typed: "typed st \<Longrightarrow> ensures (\<lambda>(st, _). typed st) (execve junk f a st)"
  unfolding execve_def
  by (rule sb_typed cut_ampersand_typed make_stack_typed load_binaries_typed retire_typed store_bytes_typed ensures_rules
      | (simp add: typed_simps typedD kernel_typedD; fail))+

section \<open>Files and the environment\<close>

lemma list_loop_typed: "typed st \<Longrightarrow> ensures typed (list_loop d i st)"
proof (induction d i st rule: list_loop.induct)
  case (1 d i st)
  show ?case
    by (subst list_loop.simps) (use 1 in \<open>auto simp: typed_simps intro!: ensures_rules\<close>)
qed

lemma slot_typed:
  assumes "typed st" "i < 5 \<Longrightarrow> fits 100 (t_name (f (pcbs st q)))"
  shows "typed (upd_pcb q (\<lambda>p. p\<lparr>fd := (fd p)[i := f p]\<rparr>) st)"
proof (cases "i < 5")
  case True
  have "set ((fd (pcbs st q))[i := f (pcbs st q)]) \<subseteq> insert (f (pcbs st q)) (set (fd (pcbs st q)))" by (rule set_update_subset_insert)
  with assms True show ?thesis by (auto simp: typed_simps typedD kernel_typedD)
next
  case False
  with assms(1) have "(fd (pcbs st q))[i := f (pcbs st q)] = fd (pcbs st q)" by (intro list_update_beyond) (simp add: kernel_typedD)
  with assms(1) show ?thesis by (simp add: typed_simps typedD kernel_typedD)
qed

lemma slot_fits: "typed st \<Longrightarrow> i < 5 \<Longrightarrow> fits 100 (t_name (fd (pcbs st q) ! i))"
  using kernel_typedD(3,8) [of st q] nth_mem [of i "fd (pcbs st q)"] by simp

lemma open_file_typed: "typed st \<Longrightarrow> ensures (\<lambda>(st, _). typed st) (open_file s st)"
  unfolding open_file_def
  by (rule ensures_let_eq [where e = "(fd p ! i)\<lparr>t_name := n, inode := a, p_inode := b, t_size := c, read_addr := d\<rparr>" for p i n a b c d]
      slot_typed ensures_rules | (simp add: typed_simps typedD kernel_typedD; fail))+

lemma read_step_typed: "typed st \<Longrightarrow> ensures (\<lambda>(st, _). typed st) (read_step d n st)"
  unfolding read_step_def
  by (rule slot_typed ensures_rules | (simp add: typed_simps slot_fits; fail))+

lemma fits_update: "\<forall>s \<in> set ss. fits 50 s \<Longrightarrow> fits 50 x \<Longrightarrow> \<forall>s \<in> set (ss[i := x]). fits 50 s"
  using set_update_subset_insert [of ss i x] by blast

lemma setEnv_pcb_typed: "pcb_typed p \<Longrightarrow> ensures pcb_typed (setEnv_pcb k v p)"
proof (cases "find_key k (echo_var_key p)")
  case (Some i)
  moreover assume p: "pcb_typed p"
  ultimately show ?thesis
    using pcb_typedD [OF p] fits_update [of "echo_var p" v i] by (auto simp: setEnv_pcb_def typed_simps ensures_def split: if_splits)
next
  case None
  assume p: "pcb_typed p"
  let ?i = "nat (echo_count p)"
  have "pcb_typed (p\<lparr>echo_var_key := (echo_var_key p)[?i := k]\<rparr>)" if "fits 50 k"
    using pcb_typedD [OF p] fits_update [OF _ that] by (simp add: p typed_simps)
  then have "pcb_typed (p\<lparr>echo_var_key := (echo_var_key p)[?i := k], echo_var := (echo_var p)[?i := v]\<rparr>)" if "fits 50 k" "fits 50 v"
    using pcb_typedD [OF p] fits_update [OF _ that(2)] that(1) by (simp add: typed_simps)
  then have "pcb_typed (p\<lparr>echo_var_key := (echo_var_key p)[?i := k], echo_var := (echo_var p)[?i := v], echo_count := c\<rparr>)"
    if "fits 50 k" "fits 50 v" "0 \<le> c" "c < 5" for c
    using that by (simp add: typed_simps)
  note new = this
  show ?thesis
  proof (rule ensuresI)
    fix q assume "setEnv_pcb k v p = Some q"
    then have "q = p\<lparr>echo_var_key := (echo_var_key p)[?i := k], echo_var := (echo_var p)[?i := v],
        echo_count := if echo_count p + 1 = 5 then 0 else echo_count p + 1\<rparr>" and "fits 50 k" "fits 50 v"
      unfolding setEnv_pcb_def None Let_def by (simp_all split: if_splits)
    with new pcb_typedD(12,13) [OF p] show "pcb_typed q" by simp
  qed
qed

lemma setEnv_typed: "typed st \<Longrightarrow> ensures typed (setEnv s st)"
  unfolding setEnv_def
  by (rule ensures_bind_eq [where e = "setEnv_pcb k v p" for k v p] ensures_rules
      | (simp add: typed_simps ensuresD [OF setEnv_pcb_typed [OF typedD]]; fail))+

lemma printEnv_typed: "typed st \<Longrightarrow> ensures typed (printEnv s st)"
  unfolding printEnv_def by (rule ensures_rules | (simp add: typed_simps; fail))+

lemma changedir_typed: "typed st \<Longrightarrow> ensures (\<lambda>(st, _). typed st) (changedir s st)"
  by (rule ensuresI) (auto elim!: changedir_cases simp: typed_simps typedD)

lemma cut_fits: "fits n s \<Longrightarrow> fits n (fst (cut s c))"
  by (erule fits_mono [OF _ length_cut]) simp

lemma fits_ROOT: "fits 50 ROOT"
  by (simp add: fits_def)

lemma chdir_name_typed: "pcb_typed p \<Longrightarrow> ensures (\<lambda>(p, _). pcb_typed p) (chdir_name dir p)"
  unfolding chdir_name_def split_beta Let_def
  by (intro ensures_Some ensures_if ensures_bind) (simp_all add: typed_simps cut_fits fits_ROOT pcb_typedD)

lemma ensures_bind_dir:
  "ensures (\<lambda>(p, _). pcb_typed p) e \<Longrightarrow> (\<And>p n b. pcb_typed p \<Longrightarrow> ensures P (f p n b)) \<Longrightarrow> ensures P (Option.bind e (\<lambda>(p, n, b). f p n b))"
  by (cases e) (auto simp: ensures_def)

lemma chdir_typed: "typed st \<Longrightarrow> ensures typed (chdir s st)"
  unfolding chdir_def
  by (rule chdir_name_typed changedir_typed ensures_bind_dir ensures_rules | (simp add: typed_simps typedD; fail))+

lemma mmap_step_typed: "typed st \<Longrightarrow> ensures (\<lambda>(st, _). typed st) (mmap_step n st)"
  unfolding mmap_step_def by (rule ensures_rules | (simp add: typed_simps; fail))+

lemma read_dir_typed: "typed st \<Longrightarrow> ensures typed (read_dir d st)"
  unfolding read_dir_def by (rule list_loop_typed)

section \<open>System calls\<close>

lemma sb_fault_typed: "typed st \<Longrightarrow> ensures typed (sb_fault c a b st)"
  unfolding sb_fault_def by (rule sb_typed pagefault_handler_typed ensures_rules | (simp; fail))+

lemma store_f_typed: "typed st \<Longrightarrow> ensures typed (store_f c a bs st)"
  by (induction bs arbitrary: a st) (auto simp: ensures_Some intro!: ensures_bind_st sb_fault_typed)

lemma copy_f_typed: "typed st \<Longrightarrow> ensures typed (copy_f c a b n st)"
proof (induction n arbitrary: a b st)
  case (Suc n)
  then show ?case unfolding copy_f.simps by (intro ensures_bind [where e = "ld st a"] ensures_bind_st) (auto intro: sb_fault_typed)
qed (simp add: ensures_Some)

lemma create_kernel_thread_typed: "typed st \<Longrightarrow> ensures typed (create_kernel_thread f st)"
  unfolding create_kernel_thread_def
  by (rule ensures_next_pid ensures_rules | (simp add: typed_simps typedD in_i32_def fits_def bytes_def; fail))+

lemma env_slot_typed:
  "typed st \<Longrightarrow> fits 50 x \<Longrightarrow> typed (upd_pcb q (\<lambda>p. p\<lparr>echo_var_key := (echo_var_key p)[i := x]\<rparr>) st)"
  "typed st \<Longrightarrow> fits 50 x \<Longrightarrow> typed (upd_pcb q (\<lambda>p. p\<lparr>echo_var := (echo_var p)[i := x]\<rparr>) st)"
  by (simp_all add: typed_simps typedD kernel_typedD(4,5)) (intro fits_update kernel_typedD(6,7); assumption)+

lemma create_user_process_typed: "typed st \<Longrightarrow> ensures (\<lambda>(st, _). typed st) (create_user_process s st)"
  unfolding create_user_process_def
  by (rule env_slot_typed make_stack_typed load_binaries_typed ensures_next_pid ensures_rules
    | (simp add: typed_simps typedD fits_ROOT; fail) | (simp add: typed_simps typedD in_i32_def fits_def bytes_def; fail))+

lemma schedule_sbush_typed: "typed st \<Longrightarrow> ensures (\<lambda>(st, _). typed st) (schedule_sbush sp st)"
  unfolding schedule_sbush_def switch_to_ring3_def
  by (rule create_user_process_typed ensures_rules | (simp add: typed_simps typedD; fail))+

lemma machine_typed_simps [typed_simps]:
  "machine_typed (set_kern st m) \<longleftrightarrow> typed st \<and> in_i32 (read_size m)" "machine_typed (set_con s m) = machine_typed m"
  "machine_typed (m\<lparr>kbd := k\<rparr>) = machine_typed m" "machine_typed (m\<lparr>tic := i\<rparr>) = machine_typed m" "machine_typed (m\<lparr>sec := i\<rparr>) = machine_typed m"
  "machine_typed (m\<lparr>read_size := i\<rparr>) \<longleftrightarrow> typed (kern m) \<and> in_i32 i"
  by (simp_all add: machine_typed_def set_kern_def set_con_def show_out_def typed_simps)

lemma ensures_bind_val: "ensures (\<lambda>(st, _). typed st) e \<Longrightarrow> (\<And>st x. typed st \<Longrightarrow> ensures P (f (st, x))) \<Longrightarrow> ensures P (Option.bind e f)"
  by (cases e) (auto simp: ensures_def)

lemma syscall_typed:
  assumes "machine_typed m"
  shows "ensures (\<lambda>(m, _). machine_typed m) (syscall_handler c m)"
proof -
  have m: "typed (kern m)" "in_i32 (read_size m)" using assms by (simp_all add: machine_typed_def)
  show ?thesis
    unfolding syscall_handler_def
    by (rule ensures_let_eq)
      (rule store_f_typed copy_f_typed open_file_typed read_step_typed chdir_typed mmap_step_typed fork_child_typed wait_typed execve_typed
        print_allPID_typed sys_exit_typed kill_typed setEnv_typed printEnv_typed read_dir_typed ensures_rules
      | (simp add: m assms typed_simps to_int_def getcwd_def; fail))+
qed

section \<open>Runs of the machine\<close>

text \<open>
  What moves the machine: a system call, a page fault, a key (Ctrl and C end the process) and a tick of the clock, in any order. A call that leaves the
  process for another one is a step like any other.
\<close>

inductive machine_step :: "machine \<Rightarrow> machine \<Rightarrow> bool" where
  call: "syscall_handler c m = Some (m', r) \<Longrightarrow> machine_step m m'"
| fault: "pagefault_handler entry sp cr2 (kern m) = Some st \<Longrightarrow> machine_step m (set_kern st m)"
| key: "kb_handler status scancode (kbd m) = Some (k, False) \<Longrightarrow> machine_step m (m\<lparr>kbd := k\<rparr>)"
| key_exit: "kb_handler status scancode (kbd m) = Some (k, True) \<Longrightarrow> sys_exit entry sp (kern m) = Some st \<Longrightarrow>
    machine_step m (set_kern st (m\<lparr>kbd := k\<rparr>))"
| tick: "timer_handler \<lparr>t_con = con (kbd m), timer_tic = tic m, current_sec = sec m\<rparr> = t \<Longrightarrow>
    machine_step m (set_con (t_con t) (m\<lparr>tic := timer_tic t, sec := current_sec t\<rparr>))"

lemma step_typed: "machine_step m m' \<Longrightarrow> machine_typed m \<Longrightarrow> machine_typed m'"
proof (induction rule: machine_step.induct)
  case (call c m m' r)
  from ensuresD [OF syscall_typed [OF call(2)] call(1)] show ?case by simp
next
  case (fault entry sp cr2 m st)
  then have "typed (kern m)" "in_i32 (read_size m)" by (simp_all add: machine_typed_def)
  with ensuresD [OF pagefault_handler_typed fault(1)] show ?case by (simp add: typed_simps)
next
  case (key_exit status scancode m k entry sp st)
  then have "typed (kern m)" "in_i32 (read_size m)" by (simp_all add: machine_typed_def)
  with ensuresD [OF sys_exit_typed key_exit(2)] show ?case by (simp add: typed_simps)
qed (simp_all add: typed_simps)

lemma run_typed: "machine_step\<^sup>*\<^sup>* m m' \<Longrightarrow> machine_typed m \<Longrightarrow> machine_typed m'"
  by (induction rule: rtranclp_induct) (auto intro: step_typed)



end
