(* ===== verification/Fork.thy ===== *)
theory Fork
  imports Exec PagingSpec
begin

text \<open>
  What \<open>copy_parent_tables\<close> of \<^verbatim>\<open>sys/paging.c\<close> gives a forked process: every user page is
  shared, by an entry without the writable bit and with the mark the page-fault handler copies at.
  The four nested loops of the code are instances of one copy of a table of any level.
\<close>

unbundle bit_operations_syntax

section \<open>The loops as one recursion\<close>

definition copy_ent ::
  "(u64 \<Rightarrow> u64 \<Rightarrow> 'a paging_scheme \<Rightarrow> 'a paging_scheme) \<Rightarrow> u64 \<Rightarrow> u64 \<Rightarrow> u64 \<Rightarrow> 'a paging_scheme \<Rightarrow> 'a paging_scheme" where
  "copy_ent F t d i st =
     (let e = rd st (slot (kaddr t) i)
      in if present e then
           (let (st, a) = allocate_virt_page st
            in F (remove_flag e) a (wr (slot (kaddr d) i) (a OR 7) st))
         else st)"

fun copy_tab :: "nat \<Rightarrow> u64 \<Rightarrow> u64 \<Rightarrow> 'a paging_scheme \<Rightarrow> 'a paging_scheme" where
  "copy_tab 0 t d st = for_range (copy_pte (kaddr d)) 512 0 (st\<lparr>g_pt := kaddr t\<rparr>)"
| "copy_tab (Suc l) t d st = for_range (copy_ent (copy_tab l) t d) 512 0 st"

lemma g_pt_first: "s\<lparr>g_pt := x, free_map := m, pm := p\<rparr> = s\<lparr>free_map := m, pm := p, g_pt := x\<rparr>"
  by (cases s) simp

lemma copy_pde_ent: "copy_pde (kaddr t) (kaddr d) = copy_ent (copy_tab 0) t d"
  by (intro ext) (simp add: g_pt_first copy_pde_def copy_ent_def Let_def rd_def wr_def allocate_virt_page_def)

lemma copy_pdpte_ent: "copy_pdpte (kaddr t) (kaddr d) = copy_ent (copy_tab (Suc 0)) t d"
  by (intro ext) (simp add: copy_pdpte_def copy_ent_def Let_def copy_pde_ent split: prod.splits)

lemma copy_pml4e_ent:
  "g_pml4 st = kaddr r \<Longrightarrow> copy_pml4e (kaddr d) i st = copy_ent (copy_tab (Suc (Suc 0))) r d i st"
  by (simp add: copy_pml4e_def copy_ent_def Let_def copy_pdpte_ent split: prod.splits)

lemma for_range_inv:
  assumes step: "\<And>k s. k < n \<Longrightarrow> P k s \<Longrightarrow> P (Suc k) (f (of_nat k) s)" and "P 0 st"
  shows "P n (for_range f n 0 st)"
proof -
  have "P (k + m) (for_range f m (of_nat k) s)" if "P k s" "k + m \<le> n" for k m s
    using that
  proof (induction m arbitrary: k s)
    case (Suc m)
    from Suc.prems have "P (Suc k) (f (of_nat k) s)" by (intro step) simp_all
    from Suc.IH [OF this] Suc.prems(2) show ?case by (simp add: add.commute)
  qed simp
  from this [of 0 st n] assms(2) show ?thesis by simp
qed

lemma for_range_cong:
  assumes "P st" and "\<And>i s. P s \<Longrightarrow> f i s = g i s" and "\<And>i s. P s \<Longrightarrow> P (g i s)"
  shows "for_range f n i st = for_range g n i st"
  using assms(1) by (induction n arbitrary: i st) (simp_all add: assms(2,3))

lemma for_range_keeps: "(\<And>i s. h (f i s) = h s) \<Longrightarrow> h (for_range f n i st) = h st"
  by (induction n arbitrary: i st) simp_all

lemma copy_pte_globals [simp]:
  "g_pml4 (copy_pte d i st) = g_pml4 st" "reg_cr3 (copy_pte d i st) = reg_cr3 st"
  "g_pt (copy_pte d i st) = g_pt st" "free_map (copy_pte d i st) = free_map st"
  by (simp_all add: copy_pte_def Let_def wr_def)

lemma copy_ent_globals:
  assumes "\<And>t d s. g_pml4 (F t d s) = g_pml4 s \<and> reg_cr3 (F t d s) = reg_cr3 s"
  shows "g_pml4 (copy_ent F t d i st) = g_pml4 st" "reg_cr3 (copy_ent F t d i st) = reg_cr3 st"
  by (simp_all add: copy_ent_def Let_def assms wr_def split: prod.splits)
    (simp_all add: allocate_virt_page_def Let_def)

lemma copy_tab_globals: "g_pml4 (copy_tab l t d st) = g_pml4 st \<and> reg_cr3 (copy_tab l t d st) = reg_cr3 st"
proof (induction l arbitrary: t d st)
  case 0
  show ?case by (simp add: for_range_keeps)
next
  case (Suc l)
  show ?case by (simp add: for_range_keeps copy_ent_globals Suc)
qed

declare copy_tab.simps [simp del]

lemma copy_parent_tables_eq:
  "copy_parent_tables c st =
     (let s = for_range (copy_ent (copy_tab (Suc (Suc 0))) (reg_cr3 st) c) 511 0 (st\<lparr>g_pml4 := kaddr (reg_cr3 st)\<rparr>)
      in wr (slot (kaddr c) 511) (rd s (slot (kaddr (reg_cr3 st)) 511)) s)"
proof -
  let ?s = "st\<lparr>g_pml4 := kaddr (reg_cr3 st)\<rparr>"
  have "for_range (copy_pml4e (kaddr c)) 511 0 ?s = for_range (copy_ent (copy_tab (Suc (Suc 0))) (reg_cr3 st) c) 511 0 ?s"
    by (rule for_range_cong [where P = "\<lambda>s. g_pml4 s = kaddr (reg_cr3 st)"])
      (simp_all add: copy_pml4e_ent copy_ent_globals copy_tab_globals)
  moreover have "g_pml4 (for_range (copy_ent (copy_tab (Suc (Suc 0))) (reg_cr3 st) c) 511 0 ?s) = kaddr (reg_cr3 st)"
    by (simp add: for_range_keeps copy_ent_globals copy_tab_globals)
  ultimately show ?thesis by (simp add: copy_parent_tables_def Let_def)
qed

section \<open>The tables below a table\<close>

fun below :: "(u64 \<Rightarrow> u64) \<Rightarrow> nat \<Rightarrow> u64 \<Rightarrow> u64 set" where
  "below f 0 t = {t}"
| "below f (Suc l) t = insert t (\<Union>i \<in> {i. i < 512 \<and> present (f (slot t i))}. below f l (remove_flag (f (slot t i))))"

lemma below_level:
  assumes wf: "wf_tables f r L"
  shows "L t = Some (Suc l) \<Longrightarrow> x \<in> below f l t \<Longrightarrow> x = t \<or> (\<exists>k. L x = Some k \<and> k < Suc l)"
proof (induction l arbitrary: t)
  case (Suc l)
  from Suc.prems(2) show ?case
  proof (simp, elim disjE exE conjE)
    fix i assume i: "i < 512" "present (f (slot t i))" "x \<in> below f l (remove_flag (f (slot t i)))"
    have c: "L (remove_flag (f (slot t i))) = Some (Suc l)"
      using wf_tables_child [OF wf] Suc.prems(1) i by simp
    from Suc.IH [OF c i(3)] c show ?thesis by (metis less_Suc_eq)
  qed simp
qed simp

lemma below_dom: "wf_tables f r L \<Longrightarrow> L t = Some (Suc l) \<Longrightarrow> below f l t \<subseteq> dom L"
  using below_level by blast

lemma below_disjoint:
  assumes wf: "wf_tables f r L"
  shows "L t = Some (Suc l) \<Longrightarrow> L t' = Some (Suc l) \<Longrightarrow> t \<noteq> t' \<Longrightarrow> below f l t \<inter> below f l t' = {}"
proof (induction l arbitrary: t t')
  case (Suc l)
  have child: "L (remove_flag (f (slot s i))) = Some (Suc l)"
    if "L s = Some (Suc (Suc l))" "i < 512" "present (f (slot s i))" for s i
    using wf_tables_child [OF wf that] .
  have up: "x \<noteq> s" if "L s' = Some (Suc (Suc l))" "L s = Some (Suc (Suc l))" "i < 512" "present (f (slot s' i))"
    "x \<in> below f l (remove_flag (f (slot s' i)))" for x s s' i
    using below_level [OF wf child [OF that(1,3,4)] that(5)] child [OF that(1,3,4)] that(2) by auto
  have "x \<notin> below f l (remove_flag (f (slot t' i')))"
    if "i < 512" "present (f (slot t i))" "i' < 512" "present (f (slot t' i'))"
      "x \<in> below f l (remove_flag (f (slot t i)))" for x i i'
  proof -
    have "remove_flag (f (slot t i)) \<noteq> remove_flag (f (slot t' i'))"
      using wf_tables_parent [OF wf Suc.prems(1,2) that(1,3,2,4)] Suc.prems(3) by blast
    from Suc.IH [OF child [OF Suc.prems(1) that(1,2)] child [OF Suc.prems(2) that(3,4)] this] that(5)
    show ?thesis by blast
  qed
  moreover have "t \<notin> below f l (remove_flag (f (slot t' i')))" if "i' < 512" "present (f (slot t' i'))" for i'
    using up [OF Suc.prems(2,1) that] by blast
  moreover have "t' \<notin> below f l (remove_flag (f (slot t i)))" if "i < 512" "present (f (slot t i))" for i
    using up [OF Suc.prems(1,2) that] by blast
  ultimately show ?case using Suc.prems(3) by auto
qed simp

lemma below_entry_at:
  assumes "\<And>x. remove_flag x \<in> below f l t \<Longrightarrow> g x = f x" and "page_aligned t" and "\<forall>i \<in> set is. i < 512" and "length is = Suc l"
    and wf: "wf_tables f r L" and "L t = Some (Suc l)"
  shows "entry_at g t is = entry_at f t is"
  using assms(1-4,6)
proof (induction l arbitrary: t "is")
  case 0
  then obtain i where "is = [i]" by (auto simp: length_Suc_conv)
  moreover from 0 this have "g (slot t i) = f (slot t i)" by (intro "0"(1)) (simp add: remove_flag_slot)
  ultimately show ?case by (simp add: entry_at_def)
next
  case (Suc l)
  then obtain i j js where "is": "is = i # j # js" by (auto simp: length_Suc_conv)
  with Suc.prems have i: "i < 512" by simp
  have eq: "g (slot t i) = f (slot t i)" using i Suc.prems(2) by (intro Suc.prems(1)) (simp add: remove_flag_slot)
  have "entry_at g (remove_flag (f (slot t i))) (j # js) = entry_at f (remove_flag (f (slot t i))) (j # js)"
    if p: "present (f (slot t i))"
  proof (rule Suc.IH)
    have c: "L (remove_flag (f (slot t i))) = Some (Suc l)" using wf_tables_child [OF wf Suc.prems(5) i p] .
    then show "L (remove_flag (f (slot t i))) = Some (Suc l)" "page_aligned (remove_flag (f (slot t i)))"
      using wf_tables_aligned [OF wf] by simp_all
    show "g x = f x" if "remove_flag x \<in> below f l (remove_flag (f (slot t i)))" for x
      using that i p by (intro Suc.prems(1)) auto
  qed (use Suc.prems "is" in simp_all)
  with eq "is" show ?case by (simp add: entry_at_step)
qed

section \<open>One table\<close>

text \<open>The entry of a shared page, and the tables of leaves among some tables.\<close>

definition share :: "u64 \<Rightarrow> u64" where
  "share e = remove_flag e OR (PT_PR OR PT_U OR push_bit 9 1)"

definition leaf_tabs :: "(u64 \<Rightarrow> nat option) \<Rightarrow> u64 set \<Rightarrow> u64 set" where
  "leaf_tabs L T = {x \<in> T. L x = Some 1}"

definition paths :: "nat \<Rightarrow> nat \<Rightarrow> u64 list \<Rightarrow> bool" where
  "paths l k is \<longleftrightarrow> length is = Suc l \<and> (\<forall>i \<in> set is. i < 512) \<and> unat (hd is) < k"

lemma present_share [simp]: "present (share e)"
  unfolding share_def by (rule present_or) (simp add: present_def)

text \<open>A frame for the copy with its first \<open>n\<close> slots cleared, and a pool of cleared frames, none of them a table.\<close>

definition copy_ready :: "(u64 \<Rightarrow> nat option) \<Rightarrow> nat \<Rightarrow> u64 \<Rightarrow> 'a paging_scheme \<Rightarrow> bool" where
  "copy_ready L n d s \<longleftrightarrow> page_aligned d \<and> unat d < 2 ^ 26 \<and> L d = None \<and> d \<notin> avail s \<and>
     (\<forall>i. unat i < n \<longrightarrow> pm s (slot d i) = 0) \<and> (\<forall>a \<in> avail s. L a = None \<and> (\<forall>i < 512. pm s (slot a i) = 0))"

text \<open>
  The contract of copying the entries of \<open>t\<close> below index \<open>k\<close> into \<open>d\<close>, with at most \<open>n\<close> new tables:
  every path through them leads, in both trees, to the shared form of the leaf it had, whatever later
  becomes of the memory outside the tables involved.
\<close>

definition copied ::
  "(u64 \<Rightarrow> u64) \<Rightarrow> (u64 \<Rightarrow> nat option) \<Rightarrow> u64 set \<Rightarrow> nat \<Rightarrow> nat \<Rightarrow> nat \<Rightarrow> u64 \<Rightarrow> u64 \<Rightarrow>
   'a paging_scheme \<Rightarrow> 'a paging_scheme \<Rightarrow> bool" where
  "copied f L T n l k t d s s' \<longleftrightarrow>
     avail s' \<subseteq> avail s \<and> card (avail s) \<le> card (avail s') + n \<and>
     (\<forall>x. remove_flag x \<notin> leaf_tabs L T \<and> remove_flag x \<noteq> d \<and> remove_flag x \<notin> avail s - avail s' \<longrightarrow> pm s' x = pm s x) \<and>
     (\<forall>g is. paths l k is \<and> (\<forall>j. unat j < k \<longrightarrow> g (slot d j) = pm s' (slot d j)) \<and>
        (\<forall>x. remove_flag x \<in> avail s - avail s' \<longrightarrow> g x = pm s' x) \<longrightarrow>
        entry_at g d is = map_option share (entry_at f t is)) \<and>
     (\<forall>g is. paths l k is \<and> (\<forall>x. remove_flag x \<in> insert t T \<longrightarrow> g x = pm s' x) \<longrightarrow>
        entry_at g t is = map_option share (entry_at f t is))"

lemma copiedD:
  assumes "copied f L T n l k t d s s'"
  shows copied_pool: "avail s' \<subseteq> avail s" and copied_card: "card (avail s) \<le> card (avail s') + n"
    and copied_frame: "remove_flag x \<notin> leaf_tabs L T \<Longrightarrow> remove_flag x \<noteq> d \<Longrightarrow> remove_flag x \<notin> avail s - avail s' \<Longrightarrow> pm s' x = pm s x"
    and copied_child: "paths l k is \<Longrightarrow> (\<And>j. unat j < k \<Longrightarrow> g (slot d j) = pm s' (slot d j)) \<Longrightarrow>
      (\<And>x. remove_flag x \<in> avail s - avail s' \<Longrightarrow> g x = pm s' x) \<Longrightarrow> entry_at g d is = map_option share (entry_at f t is)"
    and copied_parent: "paths l k is \<Longrightarrow> (\<And>x. remove_flag x \<in> insert t T \<Longrightarrow> g x = pm s' x) \<Longrightarrow>
      entry_at g t is = map_option share (entry_at f t is)"
  using assms unfolding copied_def by blast+

lemma copiedI:
  assumes "avail s' \<subseteq> avail s" "card (avail s) \<le> card (avail s') + n"
    and "\<And>x. remove_flag x \<notin> leaf_tabs L T \<Longrightarrow> remove_flag x \<noteq> d \<Longrightarrow> remove_flag x \<notin> avail s - avail s' \<Longrightarrow> pm s' x = pm s x"
    and "\<And>g is. paths l k is \<Longrightarrow> \<forall>j. unat j < k \<longrightarrow> g (slot d j) = pm s' (slot d j) \<Longrightarrow>
      \<forall>x. remove_flag x \<in> avail s - avail s' \<longrightarrow> g x = pm s' x \<Longrightarrow> entry_at g d is = map_option share (entry_at f t is)"
    and "\<And>g is. paths l k is \<Longrightarrow> \<forall>x. remove_flag x \<in> insert t T \<longrightarrow> g x = pm s' x \<Longrightarrow>
      entry_at g t is = map_option share (entry_at f t is)"
  shows "copied f L T n l k t d s s'"
  unfolding copied_def using assms by blast

text \<open>The innermost loop: the entries below \<open>k\<close> are shared, in both tables.\<close>

definition shared_below :: "(u64 \<Rightarrow> u64) \<Rightarrow> u64 \<Rightarrow> u64 \<Rightarrow> nat \<Rightarrow> 'a paging_scheme \<Rightarrow> 'a paging_scheme \<Rightarrow> bool" where
  "shared_below f t d k s0 s \<longleftrightarrow> free_map s = free_map s0 \<and> g_pt s = kaddr t \<and>
     (\<forall>j < 512. pm s (slot t j) = (if unat j < k \<and> present (f (slot t j)) then share (f (slot t j)) else f (slot t j))) \<and>
     (\<forall>j < 512. pm s (slot d j) = (if unat j < k \<and> present (f (slot t j)) then share (f (slot t j)) else 0)) \<and>
     (\<forall>x. remove_flag x \<noteq> t \<and> remove_flag x \<noteq> d \<longrightarrow> pm s x = pm s0 x)"

lemma unat_index: "k < 512 \<Longrightarrow> unat (of_nat k :: u64) = k" "k < 512 \<Longrightarrow> (of_nat k :: u64) < 512"
  by (simp_all add: unat_of_nat64 word_less_nat_alt)

lemma index_less: "unat (j :: u64) < 512 \<longleftrightarrow> j < 512"
  by (simp add: word_less_nat_alt)

lemma index_cases: "unat (j :: u64) < Suc k \<longleftrightarrow> unat j < k \<or> j = of_nat k" if "k < 512"
  using unat_index(1) [OF that] by (auto simp: less_Suc_eq word_unat_eq_iff)

lemma copy_pte_step:
  assumes t: "page_aligned t" "unat t < 2 ^ 26" and d: "page_aligned d" "unat d < 2 ^ 26" "t \<noteq> d" and k: "k < 512"
    and inv: "shared_below f t d k s0 s"
  shows "shared_below f t d (Suc k) s0 (copy_pte (kaddr d) (of_nat k) s)"
proof -
  let ?i = "of_nat k :: u64"
  note i = unat_index [OF k]
  have e: "pm s (slot t ?i) = f (slot t ?i)" using inv i by (simp add: shared_below_def)
  have eq: "copy_pte (kaddr d) ?i s =
    (if present (f (slot t ?i)) then s\<lparr>pm := (pm s)(slot t ?i := share (f (slot t ?i)), slot d ?i := share (f (slot t ?i)))\<rparr> else s)"
    using t d inv e by (simp add: copy_pte_def Let_def rd_def wr_def shared_below_def addr_simps share_def)
  have "slot t j = slot t ?i \<longleftrightarrow> j = ?i" "slot d j = slot d ?i \<longleftrightarrow> j = ?i" "slot t j \<noteq> slot d ?i" "slot d j \<noteq> slot t ?i"
    if "j < 512" for j
    using slot_inj [OF t(1) that t(1) i(2)] slot_inj [OF d(1) that d(1) i(2)] slot_inj [OF t(1) that d(1) i(2)]
      slot_inj [OF d(1) that t(1) i(2)] d(3) by auto
  moreover have "x \<noteq> slot t ?i" "x \<noteq> slot d ?i" if "remove_flag x \<noteq> t" "remove_flag x \<noteq> d" for x
    using that remove_flag_slot [OF t(1) i(2)] remove_flag_slot [OF d(1) i(2)] by auto
  ultimately show ?thesis
    using inv unfolding eq shared_below_def by (auto simp: index_cases [OF k])
qed

lemma copy_tab_leaf:
  assumes wf: "wf_tables f r L" and t: "L t = Some 1" and ready: "copy_ready L 512 d s"
    and same: "\<And>x. remove_flag x = t \<Longrightarrow> pm s x = f x"
  shows "copied f L {t} 0 0 512 t d s (copy_tab 0 t d s)"
proof -
  let ?s = "copy_tab 0 t d s"
  have al: "page_aligned t" "unat t < 2 ^ 26" using wf_tables_aligned [OF wf t] wf_tables_low [OF wf t] .
  have d: "page_aligned d" "unat d < 2 ^ 26" "t \<noteq> d" "d \<notin> avail s" using ready t by (auto simp: copy_ready_def)
  have "shared_below f t d 0 s (s\<lparr>g_pt := kaddr t\<rparr>)"
    using ready same remove_flag_slot [OF al(1)] by (simp add: shared_below_def copy_ready_def index_less)
  then have inv: "shared_below f t d 512 s ?s"
    unfolding copy_tab.simps
    by (intro for_range_inv [where P = "\<lambda>k. shared_below f t d k s"] copy_pte_step [OF al d(1-3)])
  then have pool: "avail ?s = avail s" by (intro avail_cong) (simp add: shared_below_def)
  note less = index_less
  have at: "entry_at g u [i] = map_option share (entry_at f t [i])"
    if "i < 512" "g (slot u i) = (if present (f (slot t i)) then share (f (slot t i)) else v)" "\<not> present (f (slot t i)) \<Longrightarrow> \<not> present v" for g u i v
    using that by (simp add: entry_at_def)
  have path: "\<exists>i. is = [i] \<and> i < 512" if "paths 0 512 is" for "is"
    using that by (auto simp: paths_def length_Suc_conv)
  show ?thesis
  proof (rule copiedI)
    show "pm ?s x = pm s x" if "remove_flag x \<notin> leaf_tabs L {t}" "remove_flag x \<noteq> d" for x
      using inv that t by (auto simp: shared_below_def leaf_tabs_def)
    show "entry_at g d is = map_option share (entry_at f t is)"
      if p: "paths 0 512 is" and "\<forall>j. unat j < 512 \<longrightarrow> g (slot d j) = pm ?s (slot d j)" for g "is"
      using path [OF p] that(2) inv by (auto simp: shared_below_def less intro!: at [where v = 0])
    show "entry_at g t is = map_option share (entry_at f t is)"
      if p: "paths 0 512 is" and g: "\<forall>x. remove_flag x \<in> insert t {t} \<longrightarrow> g x = pm ?s x" for g "is"
    proof -
      obtain i where i: "is = [i]" "i < 512" using path [OF p] by blast
      have "g (slot t i) = pm ?s (slot t i)" using g remove_flag_slot [OF al(1) i(2)] by simp
      with i inv show ?thesis
        unfolding i(1) by (intro at [where v = "f (slot t i)"]) (simp_all add: shared_below_def less)
    qed
  qed (simp_all add: pool)
qed

section \<open>A table of tables\<close>

text \<open>The tables below the entries of \<open>t\<close> before the one of index \<open>k\<close>.\<close>

definition below_upto :: "(u64 \<Rightarrow> u64) \<Rightarrow> nat \<Rightarrow> u64 \<Rightarrow> nat \<Rightarrow> u64 set" where
  "below_upto f l t k = (\<Union>i \<in> {i. unat i < k \<and> i < 512 \<and> present (f (slot t i))}. below f l (remove_flag (f (slot t i))))"

lemma below_Suc: "below f (Suc l) t = insert t (below_upto f l t 512)"
  by (auto simp: below_upto_def word_less_nat_alt)

lemma finite_below [simp]: "finite (below f l t)"
  by (induction l arbitrary: t) simp_all

lemma finite_below_upto [simp]: "finite (below_upto f l t k)"
  by (simp add: below_upto_def)

lemma below_self [simp]: "t \<in> below f l t"
  by (cases l) simp_all

declare below.simps(2) [simp del]

lemma below_upto_Suc:
  assumes wf: "wf_tables f r L" and t: "L t = Some (Suc (Suc l))" and k: "k < 512"
  defines "i \<equiv> of_nat k :: u64"
  shows "\<not> present (f (slot t i)) \<Longrightarrow> below_upto f l t (Suc k) = below_upto f l t k"
    and "present (f (slot t i)) \<Longrightarrow> below_upto f l t (Suc k) = below_upto f l t k \<union> below f l (remove_flag (f (slot t i)))"
    and "present (f (slot t i)) \<Longrightarrow> below_upto f l t k \<inter> below f l (remove_flag (f (slot t i))) = {}"
    and "t \<notin> below_upto f l t 512"
proof -
  have i: "unat i = k" "i < 512" unfolding i_def using unat_index [OF k] by simp_all
  show "\<not> present (f (slot t i)) \<Longrightarrow> below_upto f l t (Suc k) = below_upto f l t k"
    "present (f (slot t i)) \<Longrightarrow> below_upto f l t (Suc k) = below_upto f l t k \<union> below f l (remove_flag (f (slot t i)))"
    using i unfolding below_upto_def index_cases [OF k] i_def [symmetric] by auto
  have child: "L (remove_flag (f (slot t j))) = Some (Suc l)" if "j < 512" "present (f (slot t j))" for j
    using wf_tables_child [OF wf t that] .
  show "below_upto f l t k \<inter> below f l (remove_flag (f (slot t i))) = {}" if p: "present (f (slot t i))"
  proof -
    have "below f l (remove_flag (f (slot t j))) \<inter> below f l (remove_flag (f (slot t i))) = {}"
      if "unat j < k" "j < 512" "present (f (slot t j))" for j
    proof (rule below_disjoint [OF wf child [OF that(2,3)] child [OF i(2) p]])
      show "remove_flag (f (slot t j)) \<noteq> remove_flag (f (slot t i))"
        using wf_tables_parent [OF wf t t that(2) i(2) that(3) p] that(1) i(1) by auto
    qed
    then show ?thesis unfolding below_upto_def by blast
  qed
  have "t \<notin> below f l (remove_flag (f (slot t j)))" if "j < 512" "present (f (slot t j))" for j
    using below_level [OF wf child [OF that], of t] child [OF that] t by auto
  then show "t \<notin> below_upto f l t 512" unfolding below_upto_def by blast
qed

lemma below_upto_mono: "k \<le> n \<Longrightarrow> below_upto f l t k \<subseteq> below_upto f l t n"
  unfolding below_upto_def by (rule UN_mono) (auto dest: less_le_trans)

lemma below_upto_dom: "wf_tables f r L \<Longrightarrow> L t = Some (Suc (Suc l)) \<Longrightarrow> below_upto f l t k \<subseteq> dom L"
  using below_dom [of f r L t "Suc l"] unfolding below_upto_def below.simps(2) by auto

lemma paths_Suc:
  assumes "paths (Suc l) k is"
  obtains i j js where "is = i # j # js" "unat i < k" "i < 512" "paths l 512 (j # js)"
proof -
  obtain i j js where "is": "is = i # j # js" using assms by (auto simp: paths_def length_Suc_conv)
  have "j < 512 \<Longrightarrow> unat j < 512" by (simp add: word_less_nat_alt)
  with assms show thesis unfolding "is" by (intro that [OF "is"]) (simp_all add: paths_def)
qed

text \<open>A path through an entry of \<open>t\<close>, in a memory \<open>g\<close> where the entry is \<open>v\<close>.\<close>

lemma entry_at_via:
  assumes "g (slot u i) = v" "present v \<longleftrightarrow> present (f (slot t i))"
    and "present v \<Longrightarrow> entry_at g (remove_flag v) (j # js) = map_option share (entry_at f (remove_flag (f (slot t i))) (j # js))"
  shows "entry_at g u (i # j # js) = map_option share (entry_at f t (i # j # js))"
  using assms by (simp add: entry_at_step)

text \<open>One step of the loop over an upper table.\<close>

definition loop_inv ::
  "(u64 \<Rightarrow> u64) \<Rightarrow> (u64 \<Rightarrow> nat option) \<Rightarrow> nat \<Rightarrow> nat \<Rightarrow> u64 \<Rightarrow> u64 \<Rightarrow> 'a paging_scheme \<Rightarrow> nat \<Rightarrow> 'a paging_scheme \<Rightarrow> bool" where
  "loop_inv f L l n t d s0 k s \<longleftrightarrow>
     copied f L (below_upto f l t k) (card (below_upto f l t k)) (Suc l) k t d s0 s \<and>
     (\<forall>i. k \<le> unat i \<and> unat i < n \<longrightarrow> pm s (slot d i) = 0)"

definition copies_tables :: "'a itself \<Rightarrow> (u64 \<Rightarrow> u64) \<Rightarrow> (u64 \<Rightarrow> nat option) \<Rightarrow> nat \<Rightarrow> bool" where
  "copies_tables (_ :: 'a itself) f L l \<longleftrightarrow>
     (\<forall>t d (s :: 'a paging_scheme). L t = Some (Suc l) \<and> copy_ready L 512 d s \<and> (\<forall>x. remove_flag x \<in> below f l t \<longrightarrow> pm s x = f x) \<and>
        card (below f l t) \<le> Suc (card (avail s)) \<longrightarrow>
        copied f L (below f l t) (card (below f l t) - 1) l 512 t d s (copy_tab l t d s))"

text \<open>The loop before the entry of index \<open>k\<close>, and what holds there.\<close>

definition copying ::
  "(u64 \<Rightarrow> u64) \<Rightarrow> u64 \<Rightarrow> (u64 \<Rightarrow> nat option) \<Rightarrow> nat \<Rightarrow> nat \<Rightarrow> u64 \<Rightarrow> u64 \<Rightarrow> 'a paging_scheme \<Rightarrow> nat \<Rightarrow> 'a paging_scheme \<Rightarrow> bool" where
  "copying f r L l n t d s0 k s \<longleftrightarrow>
     wf_tables f r L \<and> L t = Some (Suc (Suc l)) \<and> copy_ready L n d s0 \<and>
     (\<forall>x. remove_flag x \<in> below f (Suc l) t \<longrightarrow> pm s0 x = f x) \<and> n \<le> 512 \<and>
     card (below_upto f l t n) \<le> card (avail s0) \<and> k < n \<and> loop_inv f L l n t d s0 k s"

lemma copyingD:
  assumes "copying f r L l n t d s0 k s"
  shows copying_wf: "wf_tables f r L" and copying_t: "L t = Some (Suc (Suc l))"
    and copying_d: "page_aligned d" "unat d < 2 ^ 26" "L d = None" "d \<notin> avail s0" "d \<noteq> t"
    and copying_free: "a \<in> avail s0 \<Longrightarrow> L a = None"
    and copying_zero: "a \<in> avail s0 \<Longrightarrow> j < 512 \<Longrightarrow> pm s0 (slot a j) = 0"
    and copying_same: "remove_flag x \<in> below f (Suc l) t \<Longrightarrow> pm s0 x = f x"
    and copying_k: "k < n" "n \<le> 512" "k < 512" "unat (of_nat k :: u64) = k" "(of_nat k :: u64) < 512"
    and copying_card: "card (below_upto f l t n) \<le> card (avail s0)"
    and copying_copied: "copied f L (below_upto f l t k) (card (below_upto f l t k)) (Suc l) k t d s0 s"
    and copying_rest: "k \<le> unat j \<Longrightarrow> unat j < n \<Longrightarrow> pm s (slot d j) = 0"
  using assms unat_index [of k] by (auto simp: copying_def copy_ready_def loop_inv_def)

lemma copying_table:
  assumes c: "copying f r L l n t d s0 k s" and j: "j < 512"
  shows "pm s (slot t j) = f (slot t j)" and "rd s (slot (kaddr t) j) = f (slot t j)"
proof -
  note wf = copying_wf [OF c] and t = copying_t [OF c]
  have rf: "remove_flag (slot t j) = t" by (rule remove_flag_slot [OF wf_tables_aligned [OF wf t] j])
  have "pm s (slot t j) = pm s0 (slot t j)"
    using t copying_d(3) [OF c] copying_free [OF c]
    by (intro copied_frame [OF copying_copied [OF c]]) (auto simp: rf leaf_tabs_def)
  then show "pm s (slot t j) = f (slot t j)" using copying_same [OF c, of "slot t j"] rf by simp
  then show "rd s (slot (kaddr t) j) = f (slot t j)" using wf_tables_low [OF wf t] by (simp add: rd_def addr_simps)
qed

text \<open>An entry that is not present is passed over.\<close>

lemma loop_skip:
  assumes cp: "copying f r L l n t d s0 k s" and np: "\<not> present (f (slot t (of_nat k)))"
  shows "loop_inv f L l n t d s0 (Suc k) s"
proof -
  let ?D = "below_upto f l t k" and ?i = "of_nat k :: u64"
  note c = copying_copied [OF cp] and wf = copying_wf [OF cp] and t = copying_t [OF cp] and k = copying_k [OF cp]
  have D: "below_upto f l t (Suc k) = ?D" using below_upto_Suc(1) [OF wf t k(3)] np by simp
  have "copied f L ?D (card ?D) (Suc l) (Suc k) t d s0 s"
  proof (rule copiedI [OF copied_pool [OF c] copied_card [OF c] copied_frame [OF c]])
    fix g "is" assume p: "paths (Suc l) (Suc k) is"
    then obtain i' j js where "is": "is = i' # j # js" "unat i' < Suc k" by (rule paths_Suc)
    have old: "paths (Suc l) k is \<or> i' = ?i" using p "is" k(4) by (auto simp: paths_def less_Suc_eq word_unat_eq_iff)
    show "entry_at g d is = map_option share (entry_at f t is)"
      if g: "\<forall>j. unat j < Suc k \<longrightarrow> g (slot d j) = pm s (slot d j)" "\<forall>x. remove_flag x \<in> avail s0 - avail s \<longrightarrow> g x = pm s x"
    proof (cases "i' = ?i")
      case True
      with g(1) k copying_rest [OF cp, of ?i] np "is"(1) show ?thesis by (simp add: entry_at_step)
    qed (use old g in \<open>auto intro!: copied_child [OF c]\<close>)
    show "entry_at g t is = map_option share (entry_at f t is)"
      if g: "\<forall>x. remove_flag x \<in> insert t ?D \<longrightarrow> g x = pm s x"
    proof (cases "i' = ?i")
      case True
      have "g (slot t ?i) = pm s (slot t ?i)"
        using g remove_flag_slot [OF wf_tables_aligned [OF wf t] k(5)] by simp
      with True copying_table(1) [OF cp k(5)] np "is"(1) show ?thesis by (simp add: entry_at_step)
    qed (use old g in \<open>auto intro!: copied_parent [OF c]\<close>)
  qed
  with copying_rest [OF cp] show ?thesis by (simp add: loop_inv_def D)
qed

lemma copying_room:
  assumes cp: "copying f r L l n t d s0 k s" and p: "present (f (slot t (of_nat k)))"
  defines "e \<equiv> remove_flag (f (slot t (of_nat k)))"
  shows "L e = Some (Suc l)" and "below_upto f l t (Suc k) = below_upto f l t k \<union> below f l e"
    and "below_upto f l t k \<inter> below f l e = {}"
    and "card (below_upto f l t (Suc k)) = card (below_upto f l t k) + card (below f l e)"
    and "1 \<le> card (below f l e)" and "card (below f l e) \<le> card (avail s)"
proof -
  note wf = copying_wf [OF cp] and t = copying_t [OF cp] and k = copying_k [OF cp]
  show "L e = Some (Suc l)" unfolding e_def by (rule wf_tables_child [OF wf t k(5) p])
  show D: "below_upto f l t (Suc k) = below_upto f l t k \<union> below f l e" and disj: "below_upto f l t k \<inter> below f l e = {}"
    unfolding e_def by (rule below_upto_Suc(2,3) [OF wf t k(3) p])+
  show card: "card (below_upto f l t (Suc k)) = card (below_upto f l t k) + card (below f l e)"
    unfolding D by (rule card_Un_disjoint) (simp_all add: disj)
  show "1 \<le> card (below f l e)" by (metis One_nat_def Suc_leI below_self card_gt_0_iff empty_iff finite_below)
  have "card (below_upto f l t (Suc k)) \<le> card (below_upto f l t n)"
    using k(1) by (intro card_mono below_upto_mono) simp_all
  with card copying_card [OF cp] copied_card [OF copying_copied [OF cp]]
  show "card (below f l e) \<le> card (avail s)" by linarith
qed

text \<open>A present entry: the state \<open>s2\<close> after the frame \<open>a\<close> has been taken for the child's table.\<close>

definition taken ::
  "(u64 \<Rightarrow> u64) \<Rightarrow> u64 \<Rightarrow> (u64 \<Rightarrow> nat option) \<Rightarrow> nat \<Rightarrow> nat \<Rightarrow> u64 \<Rightarrow> u64 \<Rightarrow> 'a paging_scheme \<Rightarrow> nat \<Rightarrow> 'a paging_scheme \<Rightarrow>
   u64 \<Rightarrow> u64 \<Rightarrow> 'a paging_scheme \<Rightarrow> bool" where
  "taken f r L l n t d s0 k s e a s2 \<longleftrightarrow>
     copying f r L l n t d s0 k s \<and> present (f (slot t (of_nat k))) \<and> e = remove_flag (f (slot t (of_nat k))) \<and>
     a \<in> avail s \<and> avail s2 = avail s - {a} \<and> pm s2 = (pm s)(slot d (of_nat k) := a OR 7)"

lemma loop_take:
  assumes cp: "copying f r L l n t d s0 k s" and p: "present (f (slot t (of_nat k)))"
  defines "e \<equiv> remove_flag (f (slot t (of_nat k)))"
  obtains a s2 where "taken f r L l n t d s0 k s e a s2" and "copy_ent F t d (of_nat k) s = F e a s2"
proof -
  let ?i = "of_nat k :: u64"
  note k = copying_k [OF cp]
  have "avail s \<noteq> {}" using copying_room(5,6) [OF cp p] by auto
  obtain s1 a where alloc: "allocate_virt_page s = (s1, a)" by fastforce
  note s1 = allocate_virt_page_avail [OF \<open>avail s \<noteq> {}\<close> alloc]
  define s2 where "s2 = wr (slot (kaddr d) ?i) (a OR 7) s1"
  have pm1: "pm s1 = pm s" by (subst s1(4)) simp
  have "taken f r L l n t d s0 k s e a s2"
    using cp p s1(1) copying_d(2) [OF cp] by (simp add: taken_def s2_def wr_def addr_simps pm1 s1(3) e_def)
  moreover have "copy_ent F t d ?i s = F e a s2"
    using p by (simp add: copy_ent_def copying_table(2) [OF cp k(5)] alloc s2_def e_def)
  ultimately show thesis by (rule that)
qed

lemma takenD:
  assumes tk: "taken f r L l n t d s0 k s e a s2"
  shows taken_copying: "copying f r L l n t d s0 k s" and taken_present: "present (f (slot t (of_nat k)))"
    and taken_e: "e = remove_flag (f (slot t (of_nat k)))"
    and taken_a: "a \<in> avail s" "a \<in> avail s0" "page_aligned a" "unat a < 2 ^ 26" "L a = None" "a \<noteq> d"
    and taken_avail: "avail s2 = avail s - {a}" and taken_pm: "pm s2 = (pm s)(slot d (of_nat k) := a OR 7)"
    and taken_pool: "avail s \<subseteq> avail s0"
    and taken_below: "y \<in> below f l e \<Longrightarrow>
      y \<in> below f (Suc l) t \<and> L y \<noteq> None \<and> y \<noteq> d \<and> y \<notin> avail s0 \<and> y \<notin> below_upto f l t k \<and> y \<noteq> a \<and> y \<noteq> t"
    and taken_slot: "remove_flag x \<noteq> d \<Longrightarrow> x \<noteq> slot d (of_nat k)"
proof -
  show cp: "copying f r L l n t d s0 k s" and p: "present (f (slot t (of_nat k)))"
    and e: "e = remove_flag (f (slot t (of_nat k)))" and av: "avail s2 = avail s - {a}" "pm s2 = (pm s)(slot d (of_nat k) := a OR 7)"
    using tk by (simp_all add: taken_def)
  show sub: "avail s \<subseteq> avail s0" by (rule copied_pool [OF copying_copied [OF cp]])
  show a: "a \<in> avail s" "a \<in> avail s0" "page_aligned a" "unat a < 2 ^ 26" "L a = None" "a \<noteq> d"
    using tk sub copying_free [OF cp] copying_d(4) [OF cp] by (auto simp: taken_def avail_def)
  show "x \<noteq> slot d (of_nat k)" if "remove_flag x \<noteq> d" for x
    using that remove_flag_slot [OF copying_d(1) [OF cp] copying_k(5) [OF cp]] by auto
  note room = copying_room [OF cp p, folded e]
  have "t \<notin> below f l e"
    using below_upto_Suc(4) [OF copying_wf [OF cp] copying_t [OF cp] copying_k(3) [OF cp]]
      below_upto_mono [of "Suc k" 512 f l t] copying_k(3) [OF cp] room(2) by auto
  moreover have "below f l e \<subseteq> below_upto f l t 512"
    using below_upto_mono [of "Suc k" 512 f l t] copying_k(3) [OF cp] room(2) by auto
  ultimately show "y \<in> below f (Suc l) t \<and> L y \<noteq> None \<and> y \<noteq> d \<and> y \<notin> avail s0 \<and> y \<notin> below_upto f l t k \<and> y \<noteq> a \<and> y \<noteq> t"
    if "y \<in> below f l e"
    using that below_dom [OF copying_wf [OF cp] room(1)] room(3) copying_d(3) [OF cp] copying_free [OF cp] a(2)
    unfolding below_Suc by auto
qed

text \<open>The contract of copying the table below applies.\<close>

lemma taken_ready:
  assumes tk: "taken f r L l n t d s0 k s e a s2"
  shows "copy_ready L 512 a s2"
proof -
  note cp = taken_copying [OF tk] and a = taken_a [OF tk]
  have "pm s2 (slot b j) = 0" if "b \<in> avail s" "j < 512" for b j
  proof -
    have b: "b \<in> avail s0" "b \<noteq> d" using that taken_pool [OF tk] copying_d(4) [OF cp] by auto
    have rf: "remove_flag (slot b j) = b" by (rule remove_flag_slot [OF avail_page_aligned [OF that(1)] that(2)])
    have "pm s (slot b j) = pm s0 (slot b j)"
      using that b copying_free [OF cp] by (intro copied_frame [OF copying_copied [OF cp]]) (auto simp: rf leaf_tabs_def)
    with taken_slot [OF tk, of "slot b j"] b rf copying_zero [OF cp b(1) that(2)] show ?thesis
      by (simp add: taken_pm [OF tk])
  qed
  with a taken_pool [OF tk] copying_free [OF cp] show ?thesis
    by (auto simp: copy_ready_def taken_avail [OF tk] index_less)
qed

lemma taken_same:
  assumes tk: "taken f r L l n t d s0 k s e a s2" and x: "remove_flag x \<in> below f l e"
  shows "pm s2 x = f x"
proof -
  note cp = taken_copying [OF tk] and B = taken_below [OF tk x]
  have "pm s x = pm s0 x" using B by (intro copied_frame [OF copying_copied [OF cp]]) (auto simp: leaf_tabs_def)
  with copying_same [OF cp, of x] B taken_slot [OF tk, of x] show ?thesis by (simp add: taken_pm [OF tk])
qed

lemma taken_copied:
  assumes tk: "taken f r L l n t d s0 k (s :: 'a paging_scheme) e a s2" and ih: "copies_tables TYPE('a) f L l"
  shows "copied f L (below f l e) (card (below f l e) - 1) l 512 e a s2 (copy_tab l e a s2)"
proof -
  note room = copying_room [OF taken_copying [OF tk] taken_present [OF tk], folded taken_e [OF tk]]
  have "card (avail s) = Suc (card (avail s2))"
    using taken_a(1) [OF tk] unfolding taken_avail [OF tk] by (metis card.remove finite_avail)
  with room ih taken_ready [OF tk] taken_same [OF tk] show ?thesis unfolding copies_tables_def by auto
qed

text \<open>What the copy of the table below leaves alone.\<close>

lemma taken_frame:
  assumes tk: "taken f r L l n t d s0 k s e a s2" and c2: "copied f L (below f l e) m l 512 e a s2 s'"
  shows "remove_flag x \<notin> leaf_tabs L (below f l e) \<Longrightarrow> remove_flag x \<noteq> a \<Longrightarrow> x \<noteq> slot d (of_nat k) \<Longrightarrow>
      remove_flag x \<notin> avail s - avail s' \<Longrightarrow> pm s' x = pm s x"
    and "j < 512 \<Longrightarrow> pm s' (slot d j) = (if j = of_nat k then a OR 7 else pm s (slot d j))"
    and "avail s' \<subseteq> avail s" and "a \<notin> avail s'"
proof -
  note cp = taken_copying [OF tk] and av = taken_avail [OF tk] and a = taken_a [OF tk]
  show "pm s' x = pm s x" if "remove_flag x \<notin> leaf_tabs L (below f l e)" "remove_flag x \<noteq> a" "x \<noteq> slot d (of_nat k)"
    "remove_flag x \<notin> avail s - avail s'"
  proof -
    have "pm s' x = pm s2 x" using that av by (intro copied_frame [OF c2]) auto
    with that(3) show ?thesis by (simp add: taken_pm [OF tk])
  qed
  show "avail s' \<subseteq> avail s" "a \<notin> avail s'" using copied_pool [OF c2] av by auto
  assume j: "j < 512"
  note d = copying_d [OF cp]
  have "pm s' (slot d j) = pm s2 (slot d j)"
    using remove_flag_slot [OF d(1) j] d(3,4) a(6) taken_pool [OF tk] av
    by (intro copied_frame [OF c2]) (auto simp: leaf_tabs_def)
  then show "pm s' (slot d j) = (if j = of_nat k then a OR 7 else pm s (slot d j))"
    using slot_inj [OF d(1) j d(1) copying_k(5) [OF cp]] by (simp add: taken_pm [OF tk])
qed

text \<open>The paths through the entry, and those through the entries before it, in both trees.\<close>

lemma old_path:
  assumes "paths (Suc l) (Suc k) (i # is)" "i \<noteq> of_nat k" "k < 512"
  shows "paths (Suc l) k (i # is)"
  using assms unat_index [of k] by (auto simp: paths_def less_Suc_eq word_unat_eq_iff)

lemma taken_child:
  assumes tk: "taken f r L l n t d s0 k s e a s2" and c2: "copied f L (below f l e) m l 512 e a s2 s'"
    and ps: "paths (Suc l) (Suc k) is"
    and g: "\<forall>j. unat j < Suc k \<longrightarrow> g (slot d j) = pm s' (slot d j)" "\<forall>x. remove_flag x \<in> avail s0 - avail s' \<longrightarrow> g x = pm s' x"
  shows "entry_at g d is = map_option share (entry_at f t is)"
proof -
  note cp = taken_copying [OF tk] and a = taken_a [OF tk] and k = copying_k [OF cp]
  note fr = taken_frame [OF tk c2] and pool = taken_pool [OF tk] and c = copying_copied [OF cp]
  obtain i j js where "is": "is = i # j # js" "unat i < Suc k" "i < 512" "paths l 512 (j # js)" using ps by (rule paths_Suc)
  show ?thesis
  proof (cases "i = of_nat k")
    case True
    have via: "entry_at g a (j # js) = map_option share (entry_at f e (j # js))"
    proof (rule copied_child [OF c2 "is"(4)])
      show "g (slot a i) = pm s' (slot a i)" if "unat i < 512" for i
        using that g(2) a(2) fr(4) remove_flag_slot [OF a(3), of i] by (simp add: index_less)
    qed (use g(2) pool taken_avail [OF tk] in auto)
    have "remove_flag (a OR 7) = a" "present (a OR 7)"
      using remove_flag_or [OF a(3), of 7] present_or [of 7 a] by (simp_all add: present_def)
    moreover have "g (slot d i) = a OR 7" using g(1) "is"(2) True fr(2) [OF "is"(3)] by simp
    ultimately show ?thesis unfolding "is"(1)
      by (intro entry_at_via [where v = "a OR 7"])
        (use taken_present [OF tk] taken_e [OF tk] True via in simp_all)
  next
    case False
    show ?thesis
    proof (rule copied_child [OF c])
      show "paths (Suc l) k is" using old_path ps False k(3) "is"(1) by blast
      show "g (slot d j) = pm s (slot d j)" if "unat j < k" for j
        using that g(1) k fr(2) [of j] by (auto simp: word_less_nat_alt)
      show "g x = pm s x" if x: "remove_flag x \<in> avail s0 - avail s" for x
      proof -
        have "x \<noteq> slot d (of_nat k)" using x copying_d(4) [OF cp] by (intro taken_slot [OF tk]) auto
        then have "pm s' x = pm s x"
          using x copying_free [OF cp] a(1) fr(3) by (intro fr(1)) (auto simp: leaf_tabs_def)
        then show ?thesis using g(2) x fr(3) by auto
      qed
    qed
  qed
qed

lemma taken_parent:
  assumes tk: "taken f r L l n t d s0 k s e a s2" and c2: "copied f L (below f l e) m l 512 e a s2 s'"
    and ps: "paths (Suc l) (Suc k) is"
    and g: "\<forall>x. remove_flag x \<in> insert t (below_upto f l t k \<union> below f l e) \<longrightarrow> g x = pm s' x"
  shows "entry_at g t is = map_option share (entry_at f t is)"
proof -
  note cp = taken_copying [OF tk] and a = taken_a [OF tk] and k = copying_k [OF cp] and fr = taken_frame [OF tk c2]
  note wf = copying_wf [OF cp] and t = copying_t [OF cp] and c = copying_copied [OF cp]
  obtain i j js where "is": "is = i # j # js" "unat i < Suc k" "i < 512" "paths l 512 (j # js)" using ps by (rule paths_Suc)
  have keep: "pm s' x = pm s x" if x: "remove_flag x \<in> insert t (below_upto f l t k)" for x
  proof -
    have "L (remove_flag x) \<noteq> None" using x t below_upto_dom [OF wf t, of k] by auto
    moreover have "remove_flag x \<notin> below f l e" using x taken_below [OF tk] by auto
    ultimately show ?thesis
      using copying_d(3) [OF cp] copying_free [OF cp] a(5) taken_pool [OF tk]
      by (intro fr(1) taken_slot [OF tk]) (auto simp: leaf_tabs_def)
  qed
  show ?thesis
  proof (cases "i = of_nat k")
    case True
    have via: "entry_at g e (j # js) = map_option share (entry_at f e (j # js))"
      by (rule copied_parent [OF c2 "is"(4)]) (use g below_self [of e f l] in auto)
    have "remove_flag (slot t i) = t" by (rule remove_flag_slot [OF wf_tables_aligned [OF wf t] "is"(3)])
    then have "g (slot t i) = f (slot t i)" using g keep [of "slot t i"] copying_table(1) [OF cp "is"(3)] by simp
    then show ?thesis unfolding "is"(1)
      by (rule entry_at_via) (use via taken_e [OF tk] True in simp_all)
  next
    case False
    then have "paths (Suc l) k is" using old_path ps k(3) "is"(1) by blast
    then show ?thesis by (rule copied_parent [OF c]) (use g keep in auto)
  qed
qed

lemma taken_inv:
  assumes tk: "taken f r L l n t d s0 k s e a s2" and c2: "copied f L (below f l e) (card (below f l e) - 1) l 512 e a s2 s'"
  shows "loop_inv f L l n t d s0 (Suc k) s'"
proof -
  note cp = taken_copying [OF tk] and a = taken_a [OF tk] and k = copying_k [OF cp] and fr = taken_frame [OF tk c2]
  note room = copying_room [OF cp taken_present [OF tk], folded taken_e [OF tk]] and c = copying_copied [OF cp]
  let ?T = "below_upto f l t k \<union> below f l e"
  have card_s: "card (avail s) = Suc (card (avail s2))"
    using a(1) unfolding taken_avail [OF tk] by (metis card.remove finite_avail)
  have "copied f L ?T (card ?T) (Suc l) (Suc k) t d s0 s'"
  proof (rule copiedI)
    show "avail s' \<subseteq> avail s0" using fr(3) taken_pool [OF tk] by blast
    show "card (avail s0) \<le> card (avail s') + card ?T"
      using copied_card [OF c] copied_card [OF c2] card_s room(4,5) unfolding room(2) by linarith
    show "pm s' x = pm s0 x" if x: "remove_flag x \<notin> leaf_tabs L ?T" "remove_flag x \<noteq> d" "remove_flag x \<notin> avail s0 - avail s'" for x
    proof -
      have "pm s' x = pm s x"
        using x a(2) fr(4) taken_pool [OF tk] by (intro fr(1) taken_slot [OF tk]) (auto simp: leaf_tabs_def)
      also have "\<dots> = pm s0 x" using x fr(3) by (intro copied_frame [OF c]) (auto simp: leaf_tabs_def)
      finally show ?thesis .
    qed
  qed (rule taken_child [OF tk c2] taken_parent [OF tk c2]; assumption)+
  moreover have "pm s' (slot d j) = 0" if "Suc k \<le> unat j" "unat j < n" for j
    using that fr(2) [of j] copying_rest [OF cp, of j] k by (auto simp: word_less_nat_alt)
  ultimately show ?thesis unfolding loop_inv_def room(2) by blast
qed

lemma loop_step:
  assumes cp: "copying f r L l n t d s0 k (s :: 'a paging_scheme)" and ih: "copies_tables TYPE('a) f L l"
  shows "loop_inv f L l n t d s0 (Suc k) (copy_ent (copy_tab l) t d (of_nat k) s)"
proof (cases "present (f (slot t (of_nat k)))")
  case True
  then obtain a s2 where "taken f r L l n t d s0 k s (remove_flag (f (slot t (of_nat k)))) a s2"
    and "copy_ent (copy_tab l) t d (of_nat k) s = copy_tab l (remove_flag (f (slot t (of_nat k)))) a s2"
    by (rule loop_take [OF cp])
  then show ?thesis using taken_inv taken_copied [OF _ ih] by metis
next
  case False
  with loop_skip [OF cp] copying_table(2) [OF cp copying_k(5) [OF cp]] show ?thesis by (simp add: copy_ent_def)
qed

lemma copy_loop:
  assumes wf: "wf_tables f r L" and t: "L t = Some (Suc (Suc l))" and ih: "copies_tables TYPE('a) f L l"
    and ready: "copy_ready L n d s0" and same: "\<And>x. remove_flag x \<in> below f (Suc l) t \<Longrightarrow> pm s0 x = f x"
    and n: "n \<le> 512" "card (below_upto f l t n) \<le> card (avail s0)"
  shows "loop_inv f L l n t d s0 n (for_range (copy_ent (copy_tab l) t d) n 0 (s0 :: 'a paging_scheme))"
proof (rule for_range_inv [where P = "loop_inv f L l n t d s0"])
  show "loop_inv f L l n t d s0 0 s0"
    using ready by (auto simp: loop_inv_def copy_ready_def paths_def intro!: copiedI)
  show "loop_inv f L l n t d s0 (Suc k) (copy_ent (copy_tab l) t d (of_nat k) s)"
    if "k < n" "loop_inv f L l n t d s0 k s" for k s
    by (rule loop_step [OF _ ih]) (use assms that in \<open>auto simp: copying_def\<close>)
qed

lemma copies_tables_all: "wf_tables f r L \<Longrightarrow> copies_tables TYPE('a) f L l"
proof (induction l)
  case 0
  then show ?case using copy_tab_leaf [OF "0"] by (simp add: copies_tables_def) blast
next
  case (Suc l)
  note wf = Suc.prems
  show ?case
    unfolding copies_tables_def
  proof (intro allI impI, elim conjE)
    fix t d and s :: "'a paging_scheme"
    assume t: "L t = Some (Suc (Suc l))" and ready: "copy_ready L 512 d s"
      and same: "\<forall>x. remove_flag x \<in> below f (Suc l) t \<longrightarrow> pm s x = f x"
      and room: "card (below f (Suc l) t) \<le> Suc (card (avail s))"
    let ?D = "below_upto f l t 512"
    have card: "card (below f (Suc l) t) = Suc (card ?D)"
      using below_upto_Suc(4) [OF wf t, of 0] by (simp add: below_Suc)
    have leaf: "leaf_tabs L (below f (Suc l) t) = leaf_tabs L ?D" using t by (auto simp: leaf_tabs_def below_Suc)
    have "loop_inv f L l 512 t d s 512 (copy_tab (Suc l) t d s)"
      unfolding copy_tab.simps by (rule copy_loop [OF wf t Suc.IH [OF wf] ready]) (use same room card in auto)
    then show "copied f L (below f (Suc l) t) (card (below f (Suc l) t) - 1) (Suc l) 512 t d s (copy_tab (Suc l) t d s)"
      by (simp add: loop_inv_def copied_def card leaf) (simp add: below_Suc)
  qed
qed

section \<open>Fork shares the pages of a process\<close>

lemma table_inv_no_free: "table_inv f A r L \<Longrightarrow> L t = Some l \<Longrightarrow> t \<notin> A"
  unfolding table_inv_def by blast

lemma finite_levels: "wf_tables f r L \<Longrightarrow> finite (dom L)"
proof -
  assume wf: "wf_tables f r L"
  have "dom L \<subseteq> (\<lambda>n. of_nat n) ` {..<2 ^ 26}"
  proof
    fix t assume "t \<in> dom L"
    then have "unat t < 2 ^ 26" using wf_tables_low [OF wf] by blast
    then have "t = of_nat (unat t) \<and> unat t \<in> {..<2 ^ 26}" by simp
    then show "t \<in> (\<lambda>n. of_nat n) ` {..<2 ^ 26}" by blast
  qed
  then show "finite (dom L)" by (rule finite_subset) simp
qed

text \<open>The state after the loop over the root; the last entry is copied after it.\<close>

definition copied_root :: "u64 \<Rightarrow> 'a paging_scheme \<Rightarrow> 'a paging_scheme" where
  "copied_root c st = for_range (copy_ent (copy_tab 2) (reg_cr3 st) c) 511 0 (st\<lparr>g_pml4 := kaddr (reg_cr3 st)\<rparr>)"

lemma copied_root_cr3 [simp]: "reg_cr3 (copied_root c st) = reg_cr3 st"
  by (simp add: copied_root_def for_range_keeps copy_ent_globals copy_tab_globals)

lemma copy_parent_tables_root:
  assumes "unat (reg_cr3 st) < 2 ^ 26" "unat c < 2 ^ 26" and "s = copied_root c st"
  shows "copy_parent_tables c st = s\<lparr>pm := (pm s)(slot c 511 := pm s (slot (reg_cr3 st) 511))\<rparr>"
  using assms copy_parent_tables_eq [of c st, folded numeral_2_eq_2]
  by (simp add: copied_root_def [symmetric] rd_def wr_def addr_simps Let_def)

text \<open>A child's root, and enough cleared frames for its tables.\<close>

definition fork_ready :: "u64 \<Rightarrow> (u64 \<Rightarrow> nat option) \<Rightarrow> 'a paging_scheme \<Rightarrow> bool" where
  "fork_ready c L st \<longleftrightarrow> table_inv (pm st) (avail st) (reg_cr3 st) L \<and>
     page_aligned c \<and> unat c < 2 ^ 26 \<and> L c = None \<and> c \<notin> avail st \<and> (\<forall>i. unat i < 511 \<longrightarrow> pm st (slot c i) = 0) \<and>
     (\<forall>a \<in> avail st. \<forall>i < 512. pm st (slot a i) = 0) \<and> card (dom L) \<le> card (avail st)"

lemma fork_readyD:
  assumes "fork_ready c L st"
  shows fork_ready_inv: "table_inv (pm st) (avail st) (reg_cr3 st) L" and fork_ready_wf: "wf_tables (pm st) (reg_cr3 st) L"
    and fork_ready_root: "L (reg_cr3 st) = Some (Suc (Suc 2))"
    and fork_ready_child: "page_aligned c" "unat c < 2 ^ 26" "L c = None" "c \<notin> avail st"
    and fork_ready_room: "card (below_upto (pm st) 2 (reg_cr3 st) k) \<le> card (avail st)"
    and fork_ready_copy: "copy_ready L 511 c (st\<lparr>g_pml4 := x\<rparr>)"
proof -
  show inv: "table_inv (pm st) (avail st) (reg_cr3 st) L" and "page_aligned c" "unat c < 2 ^ 26" "L c = None" "c \<notin> avail st"
    using assms by (simp_all add: fork_ready_def)
  show wf: "wf_tables (pm st) (reg_cr3 st) L" using table_inv_wf [OF inv] .
  show r: "L (reg_cr3 st) = Some (Suc (Suc 2))" using wf_tables_root [OF wf] by simp
  show "card (below_upto (pm st) 2 (reg_cr3 st) k) \<le> card (avail st)"
    using assms card_mono [OF finite_levels [OF wf] below_upto_dom [OF wf r, of k]] by (simp add: fork_ready_def)
  show "copy_ready L 511 c (st\<lparr>g_pml4 := x\<rparr>)"
    using assms table_inv_free [OF inv] by (simp add: fork_ready_def copy_ready_def)
qed

lemma copied_root_copied:
  assumes ready: "fork_ready c L st"
  shows "copied (pm st) L (below_upto (pm st) 2 (reg_cr3 st) 511) (card (below_upto (pm st) 2 (reg_cr3 st) 511)) 3 511 (reg_cr3 st) c st (copied_root c st)"
proof -
  note fork_ready_wf [OF ready]
  then have "loop_inv (pm st) L 2 511 (reg_cr3 st) c (st\<lparr>g_pml4 := kaddr (reg_cr3 st)\<rparr>) 511 (copied_root c st)"
    unfolding copied_root_def using fork_ready_room [OF ready]
    by (intro copy_loop [OF _ fork_ready_root [OF ready] copies_tables_all fork_ready_copy [OF ready]]) simp_all
  then show ?thesis by (simp add: loop_inv_def copied_def eval_nat_numeral)
qed

lemma below_upto_leaf_slot:
  assumes wf: "wf_tables f r L" and "L t = Some (Suc (Suc l))" "i < 512"
  shows "remove_flag (slot t i) \<notin> leaf_tabs L T"
  using assms(2,3) remove_flag_slot [OF wf_tables_aligned [OF wf assms(2)]] by (simp add: leaf_tabs_def)

lemma translate_step:
  "translate f r va = (if present (f (slot r (get_index va 39)))
     then entry_at f (remove_flag (f (slot r (get_index va 39)))) [get_index va 30, get_index va 21, get_index va 12] else None)"
  by (simp add: translate_def indices_def entry_at_step)

lemma index_511: "j < 512 \<Longrightarrow> j \<noteq> 511 \<Longrightarrow> unat (j :: u64) < 511"
  by (simp add: word_less_nat_alt word_unat_eq_iff)

text \<open>The kernel half: the tables below the last entry are not below the others.\<close>

lemma kernel_half_same:
  assumes wf: "wf_tables f r L" and va: "get_index va 39 = 511"
    and same: "\<And>x. remove_flag x \<in> dom L \<Longrightarrow> remove_flag x \<notin> leaf_tabs L (below_upto f 2 r 511) \<Longrightarrow> g x = f x"
  shows "translate g r va = translate f r va"
proof -
  have r: "L r = Some (Suc (Suc 2))" using wf_tables_root [OF wf] by simp
  have "remove_flag (slot r 511) = r" using remove_flag_slot [OF wf_tables_aligned [OF wf r], of 511] by simp
  then have eq: "g (slot r 511) = f (slot r 511)" using r by (intro same) (auto simp: leaf_tabs_def)
  let ?e = "remove_flag (f (slot r 511))"
  have "entry_at g ?e [get_index va 30, get_index va 21, get_index va 12] = entry_at f ?e [get_index va 30, get_index va 21, get_index va 12]"
    if p: "present (f (slot r 511))"
  proof (rule below_entry_at [where l = 2, OF _ _ _ _ wf])
    show e: "L ?e = Some (Suc 2)" using wf_tables_child [OF wf r _ p] by simp
    then show "page_aligned ?e" using wf_tables_aligned [OF wf] by blast
    have "below_upto f 2 r 511 \<inter> below f 2 ?e = {}"
      using below_upto_Suc(3) [OF wf r, of 511] p by simp
    then show "g x = f x" if "remove_flag x \<in> below f 2 ?e" for x
      using that below_dom [OF wf e] by (intro same) (auto simp: leaf_tabs_def)
  qed simp_all
  with eq va show ?thesis by (simp add: translate_step)
qed

text \<open>What the copy means, path by path.\<close>

lemma copy_parent_tables_shares:
  assumes ready: "fork_ready c L st" and st': "st' = copy_parent_tables c st"
  shows "remove_flag x \<in> dom L \<Longrightarrow> remove_flag x \<notin> leaf_tabs L (below_upto (pm st) 2 (reg_cr3 st) 511) \<Longrightarrow> pm st' x = pm st x" (is "PROP ?keep")
    and "remove_flag x \<notin> dom L \<Longrightarrow> remove_flag x \<noteq> c \<Longrightarrow> remove_flag x \<notin> avail st \<Longrightarrow> pm st' x = pm st x" (is "PROP ?frame")
    and "get_index va 39 \<noteq> 511 \<Longrightarrow> translate (pm st') (reg_cr3 st) va = map_option share (translate (pm st) (reg_cr3 st) va)" (is "PROP ?parent")
    and "get_index va 39 \<noteq> 511 \<Longrightarrow> translate (pm st') c va = map_option share (translate (pm st) (reg_cr3 st) va)" (is "PROP ?child")
    and "get_index va 39 = 511 \<Longrightarrow> translate (pm st') c va = translate (pm st') (reg_cr3 st) va" (is "PROP ?kernel")
    and "get_index va 39 \<noteq> 511 \<Longrightarrow> (\<And>x. remove_flag x \<in> insert (reg_cr3 st) (below_upto (pm st) 2 (reg_cr3 st) 511) \<Longrightarrow> g x = pm st' x) \<Longrightarrow>
      translate g (reg_cr3 st) va = map_option share (translate (pm st) (reg_cr3 st) va)" (is "PROP ?later")
    and "table_inv (pm st') (avail st') (reg_cr3 st) L"
proof -
  let ?r = "reg_cr3 st" and ?D = "below_upto (pm st) 2 (reg_cr3 st) 511" and ?s = "copied_root c st"
  note wf = fork_ready_wf [OF ready] and r = fork_ready_root [OF ready] and child = fork_ready_child [OF ready]
  note cp = copied_root_copied [OF ready] and inv = fork_ready_inv [OF ready]
  have st'_eq: "st' = ?s\<lparr>pm := (pm ?s)(slot c 511 := pm ?s (slot ?r 511))\<rparr>"
    unfolding st' by (rule copy_parent_tables_root [OF wf_tables_low [OF wf r] child(2) refl])
  have rfc: "remove_flag (slot c j) = c" if "j < 512" for j using remove_flag_slot [OF child(1) that] .
  have other: "pm st' x = pm ?s x" if "x \<noteq> slot c 511" for x using that by (simp add: st'_eq)
  have D: "?D \<subseteq> dom L" using below_upto_dom [OF wf r] .
  have tabs: "pm st' x = pm ?s x" if "remove_flag x \<in> dom L" for x
    using that rfc [of 511] child(3) by (intro other) auto
  show keep: "pm st' x = pm st x" if "remove_flag x \<in> dom L" "remove_flag x \<notin> leaf_tabs L ?D" for x
    using that child(3) rfc [of 511] table_inv_no_free [OF inv]
    by (subst other) (auto intro!: copied_frame [OF cp])
  show "PROP ?frame"
    using rfc [of 511] D by (subst other) (auto intro!: copied_frame [OF cp] simp: leaf_tabs_def)
  have path: "paths 3 511 (indices va)" if "get_index va 39 \<noteq> 511" for va
    using that index_511 [OF get_index_less] indices_less [of va] by (simp add: paths_def indices_def)
  show later: "translate g ?r va = map_option share (translate (pm st) ?r va)"
    if "get_index va 39 \<noteq> 511" and g: "\<And>x. remove_flag x \<in> insert ?r ?D \<Longrightarrow> g x = pm st' x" for g va
    unfolding translate_def
  proof (rule copied_parent [OF cp path [OF that(1)]])
    fix x assume x: "remove_flag x \<in> insert ?r ?D"
    then have "remove_flag x \<in> dom L" using D r by auto
    then show "g x = pm ?s x" using g [OF x] tabs by simp
  qed
  show "PROP ?parent" by (rule later) simp_all
  show "PROP ?child"
    unfolding translate_def
  proof (rule copied_child [OF cp path])
    show "pm st' (slot c j) = pm ?s (slot c j)" if "unat j < 511" for j
      using that slot_inj [OF child(1) _ child(1), of j 511] by (intro other) (auto simp: word_less_nat_alt)
    show "pm st' x = pm ?s x" if "remove_flag x \<in> avail st - avail ?s" for x
      using that rfc [of 511] child(4) by (intro other) auto
  qed
  have "slot ?r 511 \<noteq> slot c 511"
    using slot_inj [OF wf_tables_aligned [OF wf r] _ child(1), of 511 511] r child(3) by auto
  then have "pm st' (slot c 511) = pm st' (slot ?r 511)" by (simp add: st'_eq)
  then show "PROP ?kernel" by (simp add: translate_step)
  have "wf_tables (pm st') ?r L"
  proof (rule wf_tables_cong [OF wf])
    show "pm st' (slot t i) = pm st (slot t i)" if "L t = Some (Suc (Suc l))" "i < 512" for t l i
      using that remove_flag_slot [OF wf_tables_aligned [OF wf that(1)] that(2)]
      by (intro keep below_upto_leaf_slot [OF wf that]) auto
  qed
  moreover have "avail st' \<subseteq> avail st" using copied_pool [OF cp] by (simp add: st'_eq)
  ultimately show "table_inv (pm st') (avail st') ?r L" using inv unfolding table_inv_def by blast
qed

text \<open>C27: After \<open>copy_parent_tables\<close> every page of the user half is mapped alike in the parent and in
  the child: to the frame the parent had, present, for the user, not writable and marked for copying;
  what was not mapped is mapped in neither. The kernel half is the parent's in both. The parent's tree
  stays well-formed, and no frame outside the tables and the free frames is written. The free frames
  must hold zeros, for the code does not clear the tables it allocates.\<close>

theorem fork_shares_pages:
  fixes st :: "'a paging_scheme"
  assumes "table_inv (pm st) (avail st) (reg_cr3 st) L"
    and "page_aligned c" "unat c < 2 ^ 26" "L c = None" "c \<notin> avail st" "\<forall>i. unat i < 511 \<longrightarrow> pm st (slot c i) = 0"
    and "\<forall>a \<in> avail st. \<forall>i < 512. pm st (slot a i) = 0" "card (dom L) \<le> card (avail st)"
    and "st' = copy_parent_tables c st"
  shows "(\<forall>va. translate (pm st') (reg_cr3 st) va =
       (if get_index va 39 = 511 then translate (pm st) (reg_cr3 st) va else map_option share (translate (pm st) (reg_cr3 st) va))) \<and>
    (\<forall>va. translate (pm st') c va = translate (pm st') (reg_cr3 st) va) \<and>
    table_inv (pm st') (avail st') (reg_cr3 st) L \<and> reg_cr3 st' = reg_cr3 st \<and>
    (\<forall>x. remove_flag x \<notin> dom L \<and> remove_flag x \<noteq> c \<and> remove_flag x \<notin> avail st \<longrightarrow> pm st' x = pm st x)"
proof -
  let ?r = "reg_cr3 st"
  have ready: "fork_ready c L st" using assms(1-8) by (simp add: fork_ready_def)
  note shares = copy_parent_tables_shares [OF ready assms(9)]
  have "translate (pm st') ?r va = translate (pm st) ?r va" if "get_index va 39 = 511" for va
    by (rule kernel_half_same [OF fork_ready_wf [OF ready] that shares(1)])
  moreover have "translate (pm st') c va = translate (pm st') ?r va" for va
    by (cases "get_index va 39 = 511") (simp_all only: shares(3-5) not_False_eq_True)
  moreover have "reg_cr3 st' = ?r"
    using copy_parent_tables_root [of st c, OF _ fork_ready_child(2) [OF ready] refl] wf_tables_low [OF fork_ready_wf [OF ready] fork_ready_root [OF ready]]
    by (simp add: assms(9))
  ultimately show ?thesis using shares(2,3,7) by simp
qed

text \<open>A process with one page, of frame 0xC000, at address 0, and a cleared frame 0xD000 for the root of its child.\<close>

definition demo_user_pm :: "u64 \<Rightarrow> u64" where
  "demo_user_pm x = (if x = 0x1000 then 0x2007 else if x = 0x2000 then 0x3007 else if x = 0x3000 then 0x4007
     else if x = 0x4000 then 0xC007 else 0)"

lemma demo_user_slot:
  assumes "page_aligned t" "i < 512"
  shows "demo_user_pm (slot t i) = (if i = 0 then demo_user_pm t else 0)"
proof -
  have t: "t = slot t 0" by (simp add: slot_def)
  have z: "page_aligned 0x1000" "page_aligned 0x2000" "page_aligned 0x3000" "page_aligned 0x4000"
    by (simp_all add: page_aligned_def)
  have "slot t i = u \<longleftrightarrow> i = 0 \<and> t = u" if "page_aligned u" for u
    using slot_inj [OF assms that, of 0] by (auto simp: slot_def)
  with z show ?thesis by (auto simp: demo_user_pm_def)
qed

lemma demo_levels_aligned: "demo_levels t = Some l \<Longrightarrow> page_aligned t"
  by (auto simp: demo_levels_def page_aligned_def split: if_splits)

lemma demo_user_flags [simp]:
  "remove_flag 0x2007 = 0x2000" "remove_flag 0x3007 = 0x3000" "remove_flag 0x4007 = 0x4000" "remove_flag 0xC007 = 0xC000"
  "present 0x2007" "present 0x3007" "present 0x4007" "present 0xC007"
  by (simp_all add: remove_flag_def present_def)

lemma demo_user_entry:
  assumes "demo_levels t = Some (Suc (Suc l))" "i < 512" "present (demo_user_pm (slot t i))"
  shows "i = 0 \<and> (t = 0x1000 \<and> demo_user_pm (slot t i) = 0x2007 \<or> t = 0x2000 \<and> demo_user_pm (slot t i) = 0x3007 \<or>
    t = 0x3000 \<and> demo_user_pm (slot t i) = 0x4007)"
  using assms demo_user_slot [OF demo_levels_aligned [OF assms(1)] assms(2)]
  by (auto simp: demo_user_pm_def demo_levels_def split: if_splits)

lemma demo_user_wf: "wf_tables demo_user_pm 0x1000 demo_levels"
proof (rule wf_tablesI)
  show "demo_levels 0x1000 = Some 4" by (simp add: demo_levels_def)
  show "page_aligned t \<and> unat t < 2 ^ 26" if "demo_levels t = Some l" for t l
    using that by (auto simp: demo_levels_def page_aligned_def split: if_splits)
  show "demo_levels (remove_flag (demo_user_pm (slot t i))) = Some (Suc l)"
    if "demo_levels t = Some (Suc (Suc l))" "i < 512" "present (demo_user_pm (slot t i))" for t l i
    using demo_user_entry [OF that] that(1) by (auto simp: demo_levels_def)
  show "t = t' \<and> i = i'"
    if t: "demo_levels t = Some (Suc (Suc l))" "i < 512" "present (demo_user_pm (slot t i))"
      and t': "demo_levels t' = Some (Suc (Suc l'))" "i' < 512" "present (demo_user_pm (slot t' i'))"
      and eq: "remove_flag (demo_user_pm (slot t i)) = remove_flag (demo_user_pm (slot t' i'))" for t l i t' l' i'
    using demo_user_entry [OF t] demo_user_entry [OF t'] eq by auto
qed

definition demo_user :: paging where
  "demo_user = demo\<lparr>pm := demo_user_pm\<rparr>"

lemma demo_user_simps [simp]: "pm demo_user = demo_user_pm" "reg_cr3 demo_user = 0x1000" "avail demo_user = avail demo"
  by (simp_all add: demo_user_def)

lemma demo_user_page: "translate demo_user_pm 0x1000 0 = Some 0xC007"
proof -
  have "get_index 0 k = 0" for k by (simp add: get_index_def)
  then show ?thesis
    by (simp add: translate_def indices_def entry_at_def demo_user_pm_def slot_def)
qed

theorem fork_shares_pages_witness:
  "translate (pm (copy_parent_tables 0xD000 demo_user)) 0x1000 0 = Some 0xC205 \<and>
   translate (pm (copy_parent_tables 0xD000 demo_user)) 0xD000 0 = Some 0xC205"
proof -
  have z: "page_aligned a \<Longrightarrow> i < 512 \<Longrightarrow> a \<notin> {0x1000, 0x2000, 0x3000, 0x4000} \<Longrightarrow> demo_user_pm (slot a i) = 0" for a i
    using demo_user_slot [of a i] by (auto simp: demo_user_pm_def)
  have al: "page_aligned 0xD000" by (simp add: page_aligned_def)
  have dom: "dom demo_levels = {0x1000, 0x2000, 0x3000, 0x4000}"
    by (auto simp: demo_levels_def dom_def split: if_splits)
  have "get_index 0 39 \<noteq> (511 :: u64)" by (simp add: get_index_def)
  moreover have "share 0xC007 = 0xC205" by (simp add: share_def)
  moreover have "table_inv (pm demo_user) (avail demo_user) (reg_cr3 demo_user) demo_levels"
    using demo_user_wf by (simp add: table_inv_def dom demo_avail)
  moreover have "\<forall>i. unat i < 511 \<longrightarrow> pm demo_user (slot 0xD000 i) = 0"
    using z [OF al] by (simp add: word_less_nat_alt)
  moreover have "\<forall>a \<in> avail demo_user. \<forall>i < 512. pm demo_user (slot a i) = 0"
    using z avail_page_aligned [of _ demo_user] by (auto simp: demo_avail)
  moreover have "card (dom demo_levels) \<le> card (avail demo_user)" by (simp add: demo_card dom)
  ultimately show ?thesis
    using fork_shares_pages [where st = demo_user and L = demo_levels and c = "0xD000"] al
    by (simp add: demo_levels_def demo_avail demo_user_page)
qed

end
