(* ===== verification/Bringup.thy ===== *)
theory Bringup
  imports Exec Boot Interrupts Keyboard
begin

text \<open>
  The start of the system, from \<^verbatim>\<open>boot\<close> and \<^verbatim>\<open>start\<close> of \<^verbatim>\<open>sys/main.c\<close> to the first program
  (\<open>initial_ret_function\<close> of \<^verbatim>\<open>sys/process.c\<close>), and the operations that nothing in the running
  kernel calls: the two kernel threads of an earlier stage, \<open>set_user_space\<close>, \<open>umalloc\<close>,
  \<open>delete_pagetable\<close>, \<open>checkCorrectParent\<close>. The lines \<^verbatim>\<open>start\<close> prints are left out.
\<close>

unbundle bit_operations_syntax

section \<open>From the loader to the first program\<close>

text \<open>
  The loader's data is a list of 32-bit words: records of a tag, a size and contents. The record tagged
  \<^verbatim>\<open>0x9001\<close> holds the memory map, entries of 20 packed bytes. The search takes a size as a number of words,
  the reading of the map as a number of bytes. The size is added in 32 bits; a search that goes round in
  a record does not end, and one past the data reads what is not modelled (\<open>None\<close>).
\<close>

partial_function (option) find_smap :: "u32 list \<Rightarrow> u32 list option" where
  "find_smap modulep =
     (if length modulep < 2 then None
      else if modulep ! 0 \<noteq> 0x9001 then find_smap (drop (unat (modulep ! 1 + 2)) modulep)
      else Some modulep)"

text \<open>The entries that start in the \<open>n\<close> bytes of the record.\<close>

fun smap_entries :: "nat \<Rightarrow> u32 list \<Rightarrow> (u64 \<times> u64 \<times> u32) list option" where
  "smap_entries 0 ws = Some []"
| "smap_entries (Suc n) (b0 # b1 # l0 # l1 # ty # ws) =
     map_option ((#) (ucast b0 OR push_bit 32 (ucast b1), ucast l0 OR push_bit 32 (ucast l1), ty)) (smap_entries (Suc n - 20) ws)"
| "smap_entries (Suc n) ws = None"

definition loader_map :: "u32 list \<Rightarrow> (u64 \<times> u64 \<times> u32) list option" where
  "loader_map modulep = do {
     modulep \<leftarrow> find_smap modulep;
     smap_entries (unat (modulep ! 1)) (drop 2 modulep)
   }"

text \<open>What the processor and the controllers are told: the descriptor table, the custom handlers, the writes to ports.\<close>

record devices =
  idt :: "u8 \<Rightarrow> idt_entry"
  idtp :: idt_ptr
  routines :: "u64 list"
  ports :: port_writes

text \<open>The addresses the linker gives the stubs, the handlers and the descriptor table.\<close>

record addresses =
  isr32 :: u64
  isr33 :: u64
  isr14 :: u64
  isr128 :: u64
  timer_at :: u64
  kb_at :: u64
  pagefault_at :: u64
  idt_at :: u64

definition kb_init :: "u64 \<Rightarrow> u64 list \<Rightarrow> (port_writes \<times> u64 list) option" where
  "kb_init kb_handler_addr rs = map_option (Pair [(0x21, 0xFC)]) (irq_set 33 kb_handler_addr rs)"

definition enable_page_fault :: "u64 \<Rightarrow> u64 list \<Rightarrow> u64 list option" where
  "enable_page_fault pagefault_handler_addr rs = irq_set 14 pagefault_handler_addr rs"

text \<open>The four calls both \<open>start\<close> and \<open>initial_ret_function\<close> make; \<open>inb\<close> is what the ports hold.\<close>

definition init_interrupts :: "(u16 \<Rightarrow> u8) \<Rightarrow> addresses \<Rightarrow> devices \<Rightarrow> devices option" where
  "init_interrupts inb a dev = do {
     let dev = dev\<lparr>idtp := init_idt (idt_at a)\<rparr>;
     let (w, entries) = init_picirr inb (isr32 a) (isr33 a) (isr14 a) (isr128 a) (idt dev);
     let dev = dev\<lparr>idt := entries, ports := ports dev @ w\<rparr>;
     (w, rs) \<leftarrow> init_timer 1000 (timer_at a) (routines dev);
     let dev = dev\<lparr>routines := rs, ports := ports dev @ w\<rparr>;
     (w, rs) \<leftarrow> kb_init (kb_at a) (routines dev);
     Some (dev\<lparr>routines := rs, ports := ports dev @ w\<rparr>)
   }"

text \<open>
  The first program is created, page faults are enabled and the program is entered; the loop behind is
  not reached.
\<close>

definition initial_ret_function ::
  "(u16 \<Rightarrow> u8) \<Rightarrow> addresses \<Rightarrow> u64 \<Rightarrow> devices \<Rightarrow> kernel \<Rightarrow> (devices \<times> kernel \<times> u64 \<times> u64) option" where
  "initial_ret_function inb a sp dev st = do {
     dev \<leftarrow> init_interrupts inb a dev;
     (st, user_process) \<leftarrow> create_user_process (bytes ''bin/init'') st;
     rs \<leftarrow> enable_page_fault (pagefault_at a) (routines dev);
     let dev = dev\<lparr>routines := rs\<rparr>;
     (st, entry) \<leftarrow> switch_to_ring3 sp user_process st;
     Some (dev, st, entry)
   }"

text \<open>
  \<open>start\<close> as a whole: memory, interrupts, the table of files from the archive at \<open>base\<close> of the memory \<open>m\<close>,
  the kernel thread and the first program. \<open>inb\<close> and \<open>inb'\<close> are the ports at the two set-ups.
\<close>

definition start_kernel ::
  "(u16 \<Rightarrow> u8) \<Rightarrow> (u16 \<Rightarrow> u8) \<Rightarrow> addresses \<Rightarrow> u64 \<Rightarrow> u64 \<Rightarrow> u64 \<Rightarrow> u64 \<Rightarrow> u32 list \<Rightarrow> u64 \<Rightarrow> u64 \<Rightarrow> u64 \<Rightarrow> mem \<Rightarrow>
   devices \<Rightarrow> kernel \<Rightarrow> (mem \<times> devices \<times> kernel \<times> u64 \<times> u64) option" where
  "start_kernel inb inb' a sp kernmem physbase physfree modulep nul base entry m dev st = do {
     smap \<leftarrow> loader_map modulep;
     st \<leftarrow> start kernmem physbase physfree smap st;
     dev \<leftarrow> init_interrupts inb a dev;
     (m, st) \<leftarrow> init_tarfs nul base m st;
     st \<leftarrow> create_kernel_thread entry st;
     (dev, st, e) \<leftarrow> initial_ret_function inb' a sp dev st;
     Some (m, dev, st, e)
   }"

text \<open>The first loop of \<open>boot\<close>: the colour byte of every cell of the screen becomes white.\<close>

definition white_screen :: "console \<Rightarrow> console" where
  "white_screen c = c\<lparr>video := (\<lambda>x. if 1 \<le> x \<and> x < 160 * 25 \<and> x mod 2 = 1 then 7 else video c x)\<rparr>"

section \<open>Operations without a caller\<close>

text \<open>The second kernel thread, and the switches of threads; the saved general registers are left out.\<close>

definition create_new_thread :: "u64 \<Rightarrow> kernel \<Rightarrow> kernel" where
  "create_new_thread test_function st =
     (let (st, child_pcb) = new_pcb st;
          st = st\<lparr>next_process := child_pcb\<rparr>;
          (st, i) = get_next_processID st;
          st = upd_pcb child_pcb (\<lambda>p. p\<lparr>pid := i\<rparr>) st;
          st = upd_pcb child_pcb (\<lambda>p. p\<lparr>ppid := 0\<rparr>) st;
          st = upd_pcb child_pcb (\<lambda>p. p\<lparr>cr3 := get_CR3_address st\<rparr>) st;
          st = upd_pcb child_pcb (\<lambda>p. p\<lparr>state := TASK_READY\<rparr>) st;
          st = upd_pcb child_pcb (\<lambda>p. p\<lparr>next_proc := curr_process st\<rparr>) st;
          st = upd_pcb child_pcb (\<lambda>p. p\<lparr>mm := 0\<rparr>) st;
          st = upd_pcb child_pcb (\<lambda>p. p\<lparr>rip := test_function\<rparr>) st;
          st = upd_pcb child_pcb (\<lambda>p. p\<lparr>init_kernel := child_pcb + PAGE_SIZE\<rparr>) st;
          st = upd_pcb child_pcb (\<lambda>p. p\<lparr>rsp := child_pcb + PAGE_SIZE\<rparr>) st;
          st = upd_pcb child_pcb (\<lambda>p. p\<lparr>rsp := rsp p - 8\<rparr>) st;
          st = wr (rsp (pcbs st child_pcb)) test_function st;
          st = upd_pcb (curr_process st) (\<lambda>p. p\<lparr>next_proc := child_pcb\<rparr>) st;
          st = upd_pcb child_pcb (\<lambda>p. p\<lparr>next_proc := curr_process st\<rparr>) st
      in st\<lparr>curr_process := child_pcb\<rparr>)"

text \<open>A switch keeps the stack pointer \<open>sp\<close> of the one thread; the result is that of the other.\<close>

definition switchTask :: "u64 \<Rightarrow> u64 \<Rightarrow> u64 \<Rightarrow> kernel \<Rightarrow> kernel \<times> u64" where
  "switchTask sp current next_thread st =
     (let st = upd_pcb current (\<lambda>p. p\<lparr>rsp := sp\<rparr>) st in (st, rsp (pcbs st next_thread)))"

definition switchBack :: "u64 \<Rightarrow> u64 \<Rightarrow> u64 \<Rightarrow> kernel \<Rightarrow> kernel \<times> u64" where
  "switchBack sp current next_thread st =
     (let st = upd_pcb current (\<lambda>p. p\<lparr>init_kernel := sp\<rparr>) st;
          sp = init_kernel (pcbs st next_thread)
      in (set_tss_rsp (init_kernel (pcbs st next_thread)) st, sp))"

definition scheduler :: "u64 \<Rightarrow> kernel \<Rightarrow> (kernel \<times> u64) option" where
  "scheduler sp st = do {
     n \<leftarrow> nxt (curr_process st) st;
     let st = st\<lparr>curr_process := n\<rparr>;
     n2 \<leftarrow> nxt (curr_process st) st;
     let st = st\<lparr>next_process := n2\<rparr>;
     Some (switchTask sp (curr_process st) (next_process st) st)
   }"

abbreviation (input) USER_VIRT_ADDR :: u64 where "USER_VIRT_ADDR \<equiv> 0x888ff000000"

definition set_user_space :: "u64 \<Rightarrow> u64 \<Rightarrow> kernel \<Rightarrow> kernel" where
  "set_user_space user_process offs st =
     (let user_page = 0x000000000FFFF000 AND rip (pcbs st user_process);
          user_virtual_addr = USER_VIRT_ADDR OR user_page;
          st = map_phys_to_virt_addr user_virtual_addr user_page st;
          st = map_phys_to_user_virt_addr user_virtual_addr user_page (cr3 (pcbs st user_process)) st
      in upd_pcb user_process (\<lambda>p. p\<lparr>rip := user_virtual_addr OR offs\<rparr>) st)"

text \<open>\<open>umalloc\<close> gives the address of the last page it maps.\<close>

fun umalloc_loop :: "u64 \<Rightarrow> nat \<Rightarrow> u64 \<Rightarrow> kernel \<Rightarrow> (kernel \<times> u64) option" where
  "umalloc_loop proc 0 user_page_virt st = Some (st, user_page_virt)"
| "umalloc_loop proc (Suc n) user_page_virt st = do {
     let (st, page_addr) = allocate_virt_page st;
     let user_page_virt = USER_VIRT_ADDR OR page_addr;
     let st = map_phys_to_user_virt_addr user_page_virt page_addr (cr3 (pcbs st proc)) st;
     st \<leftarrow> memset0 user_page_virt 4096 st;
     umalloc_loop proc n user_page_virt st
   }"

definition umalloc :: "u64 \<Rightarrow> cint \<Rightarrow> kernel \<Rightarrow> (kernel \<times> u64) option" where
  "umalloc proc sz st = umalloc_loop proc (nat (num_pages sz)) USER_VIRT_ADDR st"

text \<open>\<open>delete_pagetable\<close> gives back the pages that are not shared, in the tables of the user half.\<close>

definition deletable :: "u64 \<Rightarrow> bool" where
  "deletable e \<longleftrightarrow> e AND COW = 0 \<and> present e \<and> e < 0x989680"

definition del_pte :: "u64 \<Rightarrow> u64 \<Rightarrow> 'a paging_scheme \<Rightarrow> 'a paging_scheme" where
  "del_pte pt pt_index st =
     (let table_entry = rd st (slot pt pt_index)
      in if deletable table_entry then
           (let table_entry = remove_flag table_entry
            in if table_entry \<noteq> 0 then
                 (let st = st\<lparr>free_map := kset_bit (free_map st) (table_entry div PAGE_SIZE)\<rparr>;
                      st = wr (slot pt pt_index) 0 st
                  in memset_page (kaddr table_entry) st)
               else st)
         else st)"

definition del_in :: "(u64 \<Rightarrow> u64 \<Rightarrow> 'a paging_scheme \<Rightarrow> 'a paging_scheme) \<Rightarrow> nat \<Rightarrow> u64 \<Rightarrow> 'a paging_scheme \<Rightarrow> 'a paging_scheme" where
  "del_in f n t st = for_range (f t) n 0 st"

definition del_entry :: "(u64 \<Rightarrow> 'a paging_scheme \<Rightarrow> 'a paging_scheme) \<Rightarrow> u64 \<Rightarrow> u64 \<Rightarrow> 'a paging_scheme \<Rightarrow> 'a paging_scheme" where
  "del_entry below t i st =
     (let table_entry = rd st (slot t i)
      in if deletable table_entry then below (kaddr (remove_flag table_entry)) st else st)"

definition delete_pagetable :: "u64 \<Rightarrow> 'a paging_scheme \<Rightarrow> 'a paging_scheme" where
  "delete_pagetable pml4_addr st =
     (let pml4 = kaddr pml4_addr
      in del_in (del_entry (del_in (del_entry (del_in (del_entry (del_in del_pte 512)) 512)) 512)) 511 pml4 st)"

text \<open>
  \<open>checkCorrectParent\<close>: in the root directory the name is appended to a buffer never written, which
  holds \<open>junk\<close>.
\<close>

definition checkCorrectParent :: "u8 list \<Rightarrow> u8 list \<Rightarrow> kernel \<Rightarrow> u64 option" where
  "checkCorrectParent junk file_name st =
     (let s = curr_dir (pcbs st (curr_process st));
          temp_name = (if s \<noteq> ROOT then drop 7 s else junk)
      in if s \<noteq> ROOT \<and> length s < 7 \<or> \<not> fits 100 (temp_name @ file_name) then None
         else do {
           r \<leftarrow> search (\<lambda>t. t_name t = temp_name @ file_name) (file_count st) (global_tarfs st) 0;
           Some (case r of Some _ \<Rightarrow> 1 | None \<Rightarrow> 999)
         })"

definition close_dir :: "cint \<Rightarrow> cint" where
  "close_dir d = 1"

section \<open>Reading the memory map\<close>

text \<open>What the loader writes: the words of an entry, and of a record.\<close>

definition entry_words :: "u64 \<times> u64 \<times> u32 \<Rightarrow> u32 list" where
  "entry_words e = (case e of (base, len, ty) \<Rightarrow> [ucast base, ucast (drop_bit 32 base), ucast len, ucast (drop_bit 32 len), ty])"

definition loader_record :: "u32 \<times> u32 list \<Rightarrow> u32 list" where
  "loader_record r = [fst r, of_nat (length (snd r))] @ snd r"

lemma split_word: "(ucast (ucast w :: u32) :: u64) OR push_bit 32 (ucast (ucast (drop_bit 32 w) :: u32)) = w"
proof (rule bit_word_eqI)
  fix n assume "n < LENGTH(64)"
  then show "bit ((ucast (ucast w :: u32) :: u64) OR push_bit 32 (ucast (ucast (drop_bit 32 w) :: u32))) n = bit w n"
    by (cases "n < 32") (auto simp: bit_simps)
qed

lemma smap_entries_words: "smap_entries (20 * length es) (concat (map entry_words es) @ rest) = Some es"
proof (induction es)
  case (Cons e es)
  obtain base len ty where e: "e = (base, len, ty)" by (metis prod_cases3)
  have n: "20 * length (e # es) = Suc (19 + 20 * length es)" "Suc (19 + 20 * length es) - 20 = 20 * length es" by simp_all
  have "smap_entries (Suc (19 + 20 * length es)) (entry_words e @ ws) = map_option ((#) e) (smap_entries (20 * length es) ws)" for ws
    by (simp only: e entry_words_def append_Cons append_Nil smap_entries.simps n(2) split_word prod.case)
  with Cons show ?case by (simp only: n(1) list.map concat.simps append_assoc option.map)
qed simp

text \<open>Records of other tags are stepped over; one whose size wraps to no step at all is never left.\<close>

lemma find_smap_skip:
  assumes "tag \<noteq> 0x9001" "length ws + 2 < 2 ^ 32" "ms \<noteq> []"
  shows "find_smap (loader_record (tag, ws) @ ms) = find_smap ms"
proof -
  have "unat (of_nat (length ws) + 2 :: u32) = length ws + 2"
    using assms(2) by (simp add: unat_word_ariths unat_of_nat take_bit_eq_mod)
  with assms show ?thesis by (subst find_smap.simps) (simp add: loader_record_def)
qed

lemma find_smap_all:
  assumes "\<forall>r \<in> set rs. fst r \<noteq> 0x9001 \<and> length (snd r) + 2 < 2 ^ 32"
  shows "find_smap (concat (map loader_record rs) @ 0x9001 # sz # ms) = Some (0x9001 # sz # ms)"
  using assms
proof (induction rs)
  case Nil
  show ?case by (subst find_smap.simps) simp
next
  case (Cons r rs)
  then show ?case using find_smap_skip [of "fst r" "snd r"] by simp
qed

lemma find_smap_stuck:
  assumes "tag \<noteq> 0x9001"
  shows "find_smap (tag # 0xFFFFFFFE # ms) = None"
proof -
  have "m \<noteq> tag # 0xFFFFFFFE # ms" if "find_smap m = Some r" for m r
    using that
  proof (rule find_smap.raw_induct [of "\<lambda>m r. m \<noteq> tag # 0xFFFFFFFE # ms", rotated], goal_cases)
    case (1 loop m r)
    show ?case
    proof
      assume m: "m = tag # 0xFFFFFFFE # ms"
      with 1(2) assms have "loop m = Some r" by simp
      with 1(1) m show False by blast
    qed
  qed
  then show ?thesis by (cases "find_smap (tag # 0xFFFFFFFE # ms)") auto
qed

lemma loader_map_read:
  assumes "\<forall>r \<in> set rs. fst r \<noteq> 0x9001 \<and> length (snd r) + 2 < 2 ^ 32" and "20 * length es < 2 ^ 32"
  shows "loader_map (concat (map loader_record rs) @ 0x9001 # of_nat (20 * length es) # concat (map entry_words es) @ rest) = Some es"
proof -
  have "unat (of_nat (20 * length es) :: u32) = 20 * length es"
    using assms(2) by (simp add: unat_of_nat take_bit_eq_mod del: of_nat_mult)
  then show ?thesis
    using find_smap_all [OF assms(1)] smap_entries_words [of es rest]
    by (simp add: loader_map_def del: of_nat_mult)
qed

text \<open>After the set-up the three handlers are in place and the controllers let only the clock and the keyboard through.\<close>

lemma init_interrupts_wires:
  assumes "init_interrupts inb a dev = Some dev'" "length (routines dev) = 129"
  shows "routines dev' = (routines dev)[32 := timer_at a, 33 := kb_at a]" and "last (ports dev') = (0x21, 0xFC)"
    and "idtp dev' = init_idt (idt_at a)" and "length (routines dev') = 129"
    and "enable_page_fault h (routines dev') = Some ((routines dev)[32 := timer_at a, 33 := kb_at a, 14 := h])"
  using assms by (auto simp: init_interrupts_def init_timer_def kb_init_def irq_set_def enable_page_fault_def Let_def split: prod.splits)

end
